(* ===== verification/Prelude.thy ===== *)
theory Prelude
  imports Main "HOL-Library.Word"
begin

text \<open>
  What every component shares: names for the machine integers, the outcome of a step that can
  be disabled, panic or touch freed memory, and the lemmas on updated lists and their sums that
  the counting arguments rest on.
\<close>

unbundle bit_operations_syntax

section \<open>Machine integers\<close>

text \<open>
  Rust's fixed-width integers on the 64-bit targets the crate supports. Signed values are read
  with \<open>sint\<close>, unsigned ones with \<open>unat\<close>.
\<close>

type_synonym u8 = "8 word"
type_synonym u32 = "32 word"
type_synonym u64 = "64 word"
type_synonym usize = "64 word"
type_synonym i64 = "64 word"

section \<open>Outcomes\<close>

text \<open>
  A step of the program either is not possible in the given state (\<open>Disabled\<close>), panics because
  an \<open>assert!\<close>, \<open>unwrap\<close> or bounds check fails (\<open>Panic\<close>), dereferences memory that holds no
  live object (\<open>Fault\<close>, undefined behaviour in Rust), or ends in a new state.
\<close>

datatype 's outcome =
    is_disabled: Disabled
  | is_panic: Panic
  | is_fault: Fault
  | is_next: Next (after: 's)

text \<open>Sequencing: the first outcome that is not a state is the result.\<close>

definition bind_outcome :: "'a outcome \<Rightarrow> ('a \<Rightarrow> 'b outcome) \<Rightarrow> 'b outcome" where
  "bind_outcome r k = (case r of Next x \<Rightarrow> k x | Disabled \<Rightarrow> Disabled | Panic \<Rightarrow> Panic | Fault \<Rightarrow> Fault)"

lemma bind_outcome_simps [simp]:
  "bind_outcome (Next x) k = k x" "bind_outcome Disabled k = Disabled"
  "bind_outcome Panic k = Panic" "bind_outcome Fault k = Fault"
  by (simp_all add: bind_outcome_def)

lemma bind_outcome_Next: "bind_outcome r k = Next y \<longleftrightarrow> (\<exists>x. r = Next x \<and> k x = Next y)"
  by (cases r) simp_all

text \<open>What a panicking function returns instead of a value.\<close>

datatype panic =
    AssertFailed
  | ExplicitPanic
  | UnwrapFailed
  | IndexOutOfBounds
  | ParseError
  | InitPanicked

section \<open>Systems of steps\<close>

text \<open>
  What every machine of the development is: labelled steps, the states they reach, and the
  execution of a list of labels, which stops at the first step that does not end in a state.
\<close>

locale step_system =
  fixes step :: "'l \<Rightarrow> 's \<Rightarrow> 's outcome" and reach :: "'s \<Rightarrow> bool" and run :: "'l list \<Rightarrow> 's \<Rightarrow> 's outcome"
  assumes reach_closed: "reach s \<Longrightarrow> step l s = Next s' \<Longrightarrow> reach s'"
    and run_empty: "run [] s = Next s"
    and run_first: "run (l # ls) s = bind_outcome (step l s) (run ls)"
begin

lemma execution_append: "run (xs @ ys) s = bind_outcome (run xs s) (run ys)"
proof (induction xs arbitrary: s)
  case (Cons l xs)
  then show ?case by (cases "step l s") (simp_all add: run_first)
qed (simp add: run_empty)

lemma execution_keeps:
  assumes "\<And>s l s'. \<lbrakk>P s; Q l; step l s = Next s'\<rbrakk> \<Longrightarrow> P s'"
    and "P s" and "\<forall>l\<in>set ls. Q l" and "run ls s = Next s'"
  shows "P s'"
  using assms(2-4)
proof (induction ls arbitrary: s)
  case (Cons l ls)
  obtain s1 where s1: "step l s = Next s1" "run ls s1 = Next s'"
    using Cons.prems(3) unfolding run_first bind_outcome_Next by blast
  have "P s1" by (rule assms(1) [OF _ _ s1(1)]) (use Cons.prems in simp_all)
  then show ?case by (rule Cons.IH) (use Cons.prems(2) s1(2) in simp_all)
qed (simp add: run_empty)

lemma execution_reaches: "reach s \<Longrightarrow> run ls s = Next s' \<Longrightarrow> reach s'"
  by (rule execution_keeps [where P = reach and Q = "\<lambda>l. True"]) (auto intro: reach_closed)

end

section \<open>Lemma collections\<close>

named_theorems counter_laws \<open>how each operation on a tagged counter acts on count and tag\<close>

section \<open>Lists updated in place\<close>

lemma sum_list_map_update:
  fixes f :: "'a \<Rightarrow> 'b::comm_monoid_add"
  assumes "i < length xs"
  shows "sum_list (map f (xs[i := x])) + f (xs ! i) = sum_list (map f xs) + f x"
  using assms
proof (induction xs arbitrary: i)
  case Nil
  then show ?case by simp
next
  case (Cons y ys)
  then show ?case
    by (cases i) (auto simp: ac_simps add.left_commute)
qed

lemma sum_list_update_int:
  fixes f :: "'a \<Rightarrow> int"
  assumes "i < length xs"
  shows "sum_list (map f (xs[i := x])) = sum_list (map f xs) - f (xs ! i) + f x"
  using sum_list_map_update [OF assms, of f x] by linarith

lemma sum_list_map_le:
  fixes f g :: "nat \<Rightarrow> int"
  assumes "\<And>i. i < n \<Longrightarrow> f i \<le> g i"
  shows "sum_list (map f [0..<n]) \<le> sum_list (map g [0..<n])"
  using assms by (intro sum_list_mono) auto

lemma sum_list_map_eq_le:
  fixes f g :: "nat \<Rightarrow> int"
  assumes le: "\<And>i. i < n \<Longrightarrow> f i \<le> g i"
    and eq: "sum_list (map f [0..<n]) = sum_list (map g [0..<n])"
    and "i < n"
  shows "f i = g i"
proof (rule ccontr)
  assume "f i \<noteq> g i"
  with le [OF \<open>i < n\<close>] have "f i < g i" by simp
  then have "(\<Sum>k\<in>{0..<n}. f k) < (\<Sum>k\<in>{0..<n}. g k)"
    using le \<open>i < n\<close> by (intro sum_strict_mono_ex1) auto
  then show False using eq by (simp add: interv_sum_list_conv_sum_set_nat)
qed

lemma sum_list_zero_nat:
  "sum_list (map f xs) = (0::nat) \<longleftrightarrow> (\<forall>x\<in>set xs. f x = 0)"
  by (induction xs) auto

section \<open>Counting the elements with a property\<close>

definition count_where :: "('a \<Rightarrow> bool) \<Rightarrow> 'a list \<Rightarrow> nat" where
  "count_where P xs = length (filter P xs)"

lemma count_where_simps [simp]:
  "count_where P [] = 0"
  "count_where P (x # xs) = (if P x then 1 else 0) + count_where P xs"
  "count_where P (xs @ ys) = count_where P xs + count_where P ys"
  by (simp_all add: count_where_def)

lemma count_where_update:
  "i < length xs \<Longrightarrow> count_where P (xs[i := x]) + (if P (xs ! i) then 1 else 0)
    = count_where P xs + (if P x then 1 else 0)"
proof (induction xs arbitrary: i)
  case (Cons y ys)
  then show ?case by (cases i) auto
qed simp

lemma count_where_update_same:
  "i < length xs \<Longrightarrow> P x = P (xs ! i) \<Longrightarrow> count_where P (xs[i := x]) = count_where P xs"
  using count_where_update [of i xs P x] by simp

lemma count_where_replicate: "\<not> P x \<Longrightarrow> count_where P (replicate n x) = 0"
  by (induction n) auto

lemma count_where_map: "count_where P (map f xs) = count_where (\<lambda>x. P (f x)) xs"
  by (induction xs) auto

lemma count_where_pos: "count_where P xs > 0 \<longleftrightarrow> (\<exists>x\<in>set xs. P x)"
  by (induction xs) auto

end
