(* ===== verification/TaggedCounter.thy ===== *)
theory TaggedCounter
  imports Prelude
begin

text \<open>
  The tagged counter of \<open>src/src/tagged_counter.rs\<close>: one 64-bit signed word whose upper 63 bits
  are a reference count and whose lowest bit is a tag. Incrementing adds 2, decrementing sets
  the tag and subtracts 2, the collector clears the tag. The word operations are shown to
  implement operations on a pair of an unbounded integer and a flag, and the locale
  \<open>tagged_cell\<close> states what the collector relies on: between clearing a tag and seeing it
  clear again there was no decrement.
\<close>

section \<open>The counter word\<close>

definition ref_count :: "i64 \<Rightarrow> i64" where
  "ref_count v = signed_drop_bit 1 v"

definition tag :: "i64 \<Rightarrow> bool" where
  "tag v \<longleftrightarrow> v AND 1 \<noteq> 0"

definition new_counter :: i64 where
  "new_counter = 0"

definition increment_ref_count :: "i64 \<Rightarrow> i64" where
  "increment_ref_count v = v + 2"

definition MASK_FOR_CLEARING_TAG :: i64 where
  "MASK_FOR_CLEARING_TAG = NOT 1"

text \<open>\<open>fetch_and_clear_tag\<close> returns the old value and leaves the masked one in memory.\<close>

definition fetch_and_clear_tag :: "i64 \<Rightarrow> i64 \<times> i64" where
  "fetch_and_clear_tag v = (v, v AND MASK_FOR_CLEARING_TAG)"

definition decremented :: "i64 \<Rightarrow> i64" where
  "decremented val = (val OR 1) - 2"

text \<open>
  The \<open>compare_exchange_weak\<close> loop of \<open>decrement_ref_count_and_set_tag_release\<close>. The schedule
  gives, for each round, what the other threads do to the counter between this thread's last
  read of it and its exchange, and whether the weak exchange fails spuriously. A failed
  exchange reads the current value and goes round again. The result is the memory after this
  thread's successful exchange and the rounds that were left; \<open>None\<close> means that the schedule
  ended before the exchange succeeded.
\<close>

fun cas_loop :: "i64 \<Rightarrow> i64 \<Rightarrow> ((i64 \<Rightarrow> i64) \<times> bool) list
    \<Rightarrow> (i64 \<times> ((i64 \<Rightarrow> i64) \<times> bool) list) option" where
  "cas_loop mem val [] = None"
| "cas_loop mem val ((env, spurious) # sched) =
     (let cur = env mem in
      if cur = val \<and> \<not> spurious then Some (decremented val, sched)
      else cas_loop cur cur sched)"

definition decrement_ref_count_and_set_tag ::
    "i64 \<Rightarrow> ((i64 \<Rightarrow> i64) \<times> bool) list \<Rightarrow> (i64 \<times> ((i64 \<Rightarrow> i64) \<times> bool) list) option" where
  "decrement_ref_count_and_set_tag mem sched = cas_loop mem mem sched"

section \<open>Count and tag as an integer and a flag\<close>

definition count_of :: "i64 \<Rightarrow> int" where
  "count_of v = sint (ref_count v)"

lemma count_of_eq: "count_of v = sint v div 2"
  by (simp add: count_of_def ref_count_def sint_signed_drop_bit_eq drop_bit_eq_div)

lemma bit_sint_0: "bit (v :: i64) 0 \<longleftrightarrow> odd (sint v)"
  using bit_sint_iff [of v 0] by (simp add: bit_0)

lemma tag_eq: "tag v \<longleftrightarrow> odd (sint v)"
proof -
  have "v AND 1 \<noteq> 0 \<longleftrightarrow> bit v 0"
    by (simp add: and_one_eq bit_0 odd_iff_mod_2_eq_one)
  then show ?thesis by (simp add: tag_def bit_sint_0)
qed

text \<open>The word is twice the count plus the tag, so count and tag determine it.\<close>

lemma sint_count_tag: "sint v = 2 * count_of v + of_bool (tag v)"
  by (simp add: count_of_eq tag_eq)

lemma count_tag_unique:
  assumes "count_of v = count_of w" and "tag v = tag w"
  shows "v = w"
proof -
  have "sint v = sint w" using assms by (simp add: sint_count_tag)
  then show ?thesis by (simp add: signed_word_eqI)
qed

lemma count_of_range: "- (2 ^ 62) \<le> count_of v" "count_of v < 2 ^ 62"
proof -
  have "- (2 ^ 63) \<le> sint v" "sint v < 2 ^ 63"
    using sint_greater_eq [of v] sint_less [of v] by simp_all
  then show "- (2 ^ 62) \<le> count_of v" "count_of v < 2 ^ 62"
    by (simp_all add: count_of_eq)
qed

text \<open>
  The abstract counter: an integer that never overflows and a flag. The source argues that
  \<open>2 ^ 62\<close> counts are never reached; the word operations agree with the abstract ones as long
  as that is so.
\<close>

datatype acounter = ACounter (acount: int) (atag: bool)

fun a_increment :: "acounter \<Rightarrow> acounter" where
  "a_increment (ACounter c t) = ACounter (c + 1) t"

fun a_decremented :: "acounter \<Rightarrow> acounter" where
  "a_decremented (ACounter c t) = ACounter (c - 1) True"

fun a_clear_tag :: "acounter \<Rightarrow> acounter" where
  "a_clear_tag (ACounter c t) = ACounter c False"

definition a_new :: acounter where
  "a_new = ACounter 0 False"

definition decode :: "i64 \<Rightarrow> acounter" where
  "decode v = ACounter (count_of v) (tag v)"

definition encode :: "acounter \<Rightarrow> i64" where
  "encode a = word_of_int (2 * acount a + of_bool (atag a))"

definition countable :: "int \<Rightarrow> bool" where
  "countable c \<longleftrightarrow> - (2 ^ 62) \<le> c \<and> c < 2 ^ 62"

lemma sint_word_of_int_small:
  assumes "- (2 ^ 63) \<le> k" and "k < 2 ^ 63"
  shows "sint (word_of_int k :: i64) = k"
  using assms by (simp add: sint_sbintrunc' signed_take_bit_int_eq_self)

lemma sint_encode:
  assumes "countable (acount a)"
  shows "sint (encode a) = 2 * acount a + of_bool (atag a)"
  unfolding encode_def
  using assms by (intro sint_word_of_int_small) (auto simp: countable_def of_bool_def)

lemma decode_encode_eq:
  assumes "countable (acount a)"
  shows "decode (encode a) = a"
  using sint_encode [OF assms]
  by (cases a) (simp add: decode_def count_of_eq tag_eq of_bool_def)

lemma encode_decode: "encode (decode v) = v"
proof -
  have "encode (decode v) = word_of_int (sint v)"
    by (simp add: encode_def decode_def sint_count_tag)
  then show ?thesis by simp
qed

section \<open>The word operations on count and tag\<close>

lemma count_tag_of_sint:
  assumes "sint v = 2 * c + of_bool t"
  shows "count_of v = c" and "tag v = t"
  using assms by (auto simp: count_of_eq tag_eq of_bool_def split: if_splits)

lemma sint_eqI:
  assumes "v = word_of_int k" and "- (2 ^ 63) \<le> k" and "k < 2 ^ 63"
  shows "sint (v :: i64) = k"
  by (simp only: assms(1) sint_word_of_int_small [OF assms(2,3)])

lemma increment_sint:
  assumes "count_of v < 2 ^ 62 - 1"
  shows "sint (increment_ref_count v) = 2 * (count_of v + 1) + of_bool (tag v)"
proof (rule sint_eqI)
  have "increment_ref_count v = word_of_int (sint v + 2)"
    by (simp add: increment_ref_count_def)
  moreover have "sint v + 2 = 2 * (count_of v + 1) + of_bool (tag v)"
    by (simp add: sint_count_tag)
  ultimately show "increment_ref_count v = word_of_int (2 * (count_of v + 1) + of_bool (tag v))"
    by (simp only:)
qed (use assms count_of_range [of v] in \<open>auto simp: of_bool_def\<close>)

lemma int_or_1: "(k :: int) OR 1 = 2 * (k div 2) + 1"
  by (simp add: or_one_eq)

lemma sint_or_1: "sint (v OR 1 :: i64) = 2 * count_of v + 1"
  by (simp only: signed_or_eq signed_1 len_num0 int_or_1 count_of_eq) (simp add: int_or_1)

lemma decremented_sint:
  assumes "- (2 ^ 62) < count_of v"
  shows "sint (decremented v) = 2 * (count_of v - 1) + 1"
proof (rule sint_eqI)
  have "decremented v = word_of_int (sint (v OR 1) - 2)"
    unfolding decremented_def by simp
  then show "decremented v = word_of_int (2 * (count_of v - 1) + 1)"
    by (simp only: sint_or_1) (simp add: algebra_simps)
qed (use assms count_of_range [of v] in auto)

lemma int_and_not_1: "(k :: int) AND NOT 1 = 2 * (k div 2)"
proof -
  have "k AND NOT 1 = push_bit 1 (drop_bit 1 k)"
    by (rule bit_eqI, simp only: bit_and_iff bit_not_iff bit_push_bit_iff bit_drop_bit_eq bit_1_iff)
      (auto simp: Suc_le_eq)
  then show ?thesis by (simp add: push_bit_eq_mult drop_bit_eq_div)
qed

lemma cleared_sint: "sint (snd (fetch_and_clear_tag v)) = 2 * count_of v"
  by (simp only: fetch_and_clear_tag_def MASK_FOR_CLEARING_TAG_def snd_conv signed_and_eq)
    (simp add: signed_not_eq int_and_not_1 [simplified] count_of_eq)

lemma count_increment [counter_laws]:
  "count_of v < 2 ^ 62 - 1 \<Longrightarrow> count_of (increment_ref_count v) = count_of v + 1"
  "count_of v < 2 ^ 62 - 1 \<Longrightarrow> tag (increment_ref_count v) = tag v"
  using count_tag_of_sint [OF increment_sint] by auto

lemma count_decremented [counter_laws]:
  "- (2 ^ 62) < count_of v \<Longrightarrow> count_of (decremented v) = count_of v - 1"
  "- (2 ^ 62) < count_of v \<Longrightarrow> tag (decremented v)"
  using count_tag_of_sint [of "decremented v" "count_of v - 1" True]
  by (simp_all add: decremented_sint)

lemma count_cleared [counter_laws]:
  "count_of (snd (fetch_and_clear_tag v)) = count_of v"
  "\<not> tag (snd (fetch_and_clear_tag v))"
  using count_tag_of_sint [where t = False and v = "snd (fetch_and_clear_tag v)"] cleared_sint
  by auto

lemma decode_new: "decode new_counter = a_new"
  by (simp add: decode_def new_counter_def a_new_def count_of_eq tag_eq)

text \<open>
  C35: as long as a shard's count stays inside the 63-bit range (the bound the source
  argues is never reached), the four word operations act on count and tag exactly as the
  abstract counter does: incrementing adds one and keeps the tag, decrementing takes one and
  sets the tag in one step, clearing keeps the count, and a new counter is zero, untagged.
\<close>

theorem word_ops_refine_abstract_counter:
  assumes "- (2 ^ 62) < count_of v" and "count_of v < 2 ^ 62 - 1"
  shows "decode (increment_ref_count v) = a_increment (decode v)
    \<and> decode (decremented v) = a_decremented (decode v)
    \<and> decode (snd (fetch_and_clear_tag v)) = a_clear_tag (decode v)
    \<and> fst (fetch_and_clear_tag v) = v
    \<and> decode new_counter = a_new"
  using assms
  by (simp add: decode_new) (simp add: decode_def counter_laws, simp add: fetch_and_clear_tag_def)

theorem word_ops_refine_abstract_counter_witness:
  "decode (increment_ref_count 7) = ACounter 4 True \<and> decode (decremented 4) = ACounter 1 True"
proof -
  have d7: "decode 7 = ACounter 3 True" and d4: "decode 4 = ACounter 2 False"
    by (simp_all add: decode_def count_of_eq tag_eq)
  have "decode (increment_ref_count 7) = a_increment (decode 7)"
    by (rule word_ops_refine_abstract_counter [THEN conjunct1]) (simp_all add: count_of_eq)
  moreover have "decode (decremented 4) = a_decremented (decode 4)"
    by (rule word_ops_refine_abstract_counter [THEN conjunct2, THEN conjunct1])
      (simp_all add: count_of_eq)
  ultimately show ?thesis by (simp add: d7 d4)
qed



section \<open>The compare-exchange loop\<close>

text \<open>What the other threads have done to the counter after some rounds.\<close>

definition interference :: "((i64 \<Rightarrow> i64) \<times> bool) list \<Rightarrow> i64 \<Rightarrow> i64" where
  "interference rounds mem = fold fst rounds mem"

lemma cas_loop_shape:
  "cas_loop mem val sched = Some (m, rest) \<Longrightarrow>
   \<exists>rounds env. sched = rounds @ (env, False) # rest
     \<and> m = decremented (env (interference rounds mem))"
proof (induction mem val sched rule: cas_loop.induct)
  case (1 mem val)
  then show ?case by simp
next
  case (2 mem val env spurious sched)
  show ?case
  proof (cases "env mem = val \<and> \<not> spurious")
    case True
    with "2.prems" have "m = decremented (env mem)" and "rest = sched" and "\<not> spurious"
      by (auto simp: Let_def)
    then show ?thesis by (intro exI [of _ "[]"] exI [of _ env]) (simp add: interference_def)
  next
    case False
    with "2" obtain rounds env' where "sched = rounds @ (env', False) # rest"
      and "m = decremented (env' (interference rounds (env mem)))"
      by (auto simp: Let_def split: if_splits)
    then show ?thesis
      by (intro exI [of _ "(env, spurious) # rounds"] exI [of _ env'])
        (simp add: interference_def)
  qed
qed

lemma cas_loop_progress:
  assumes "(id, False) \<in> set sched"
  shows "cas_loop mem mem sched \<noteq> None"
  using assms
proof (induction sched arbitrary: mem)
  case Nil
  then show ?case by simp
next
  case (Cons r sched)
  show ?case
  proof (cases "r = (id, False)")
    case True
    then show ?thesis by simp
  next
    case False
    with Cons.prems have "(id, False) \<in> set sched" by (simp del: id_apply)
    then have "cas_loop (fst r mem) (fst r mem) sched \<noteq> None" by (rule Cons.IH)
    then show ?thesis by (cases r) (simp add: Let_def)
  qed
qed

text \<open>
  C37: the decrement loop is atomic under arbitrary interference. Whatever the other
  threads do to the counter in each round, and however often the weak exchange fails
  spuriously, a call that returns has applied exactly one decrement (count minus one, tag
  set) to the value the counter had at that instant, and its failed rounds wrote nothing.
\<close>

theorem decrement_is_atomic:
  assumes "decrement_ref_count_and_set_tag mem sched = Some (m, rest)"
  shows "\<exists>rounds env. sched = rounds @ (env, False) # rest
    \<and> m = decremented (env (interference rounds mem))"
  using assms unfolding decrement_ref_count_and_set_tag_def by (rule cas_loop_shape)

theorem decrement_is_atomic_witness:
  "decrement_ref_count_and_set_tag 2 [(increment_ref_count, False), (id, True), (id, False)]
     = Some (3, []) \<and>
   (\<exists>rounds env. [(increment_ref_count, False), (id, True), (id, False)]
       = rounds @ (env, False) # [] \<and> 3 = decremented (env (interference rounds 2)))"
proof -
  have run: "decrement_ref_count_and_set_tag 2
      [(increment_ref_count, False), (id, True), (id, False)] = Some (3, [])"
    by (simp add: decrement_ref_count_and_set_tag_def increment_ref_count_def decremented_def Let_def)
  show ?thesis using run decrement_is_atomic [OF run] by blast
qed

text \<open>
  The loop returns as soon as one round sees no interference and no spurious failure;
  a thread that runs alone for one round always completes its decrement.
\<close>

theorem decrement_terminates:
  assumes "(id, False) \<in> set sched"
  shows "\<exists>m rest. decrement_ref_count_and_set_tag mem sched = Some (m, rest)"
  using cas_loop_progress [OF assms, of mem] unfolding decrement_ref_count_and_set_tag_def
  by (metis not_None_eq surj_pair)

theorem decrement_terminates_witness:
  "\<exists>m rest. decrement_ref_count_and_set_tag 2 [(increment_ref_count, True), (id, False)]
     = Some (m, rest)"
  by (rule decrement_terminates) simp

section \<open>What the tag gives the collector\<close>

text \<open>What reference holders can do to one counter shard.\<close>

datatype cell_op = Incr | Decr

fun run_cell :: "('c \<Rightarrow> 'c) \<Rightarrow> ('c \<Rightarrow> 'c) \<Rightarrow> cell_op list \<Rightarrow> 'c \<Rightarrow> 'c" where
  "run_cell inc dec [] c = c"
| "run_cell inc dec (Incr # ops) c = run_cell inc dec ops (inc c)"
| "run_cell inc dec (Decr # ops) c = run_cell inc dec ops (dec c)"

text \<open>Every value the shard goes through leaves room for one more count in both directions.\<close>

fun roomy :: "('c \<Rightarrow> bool) \<Rightarrow> ('c \<Rightarrow> 'c) \<Rightarrow> ('c \<Rightarrow> 'c) \<Rightarrow> cell_op list \<Rightarrow> 'c \<Rightarrow> bool" where
  "roomy room inc dec [] c = True"
| "roomy room inc dec (Incr # ops) c = (room c \<and> roomy room inc dec ops (inc c))"
| "roomy room inc dec (Decr # ops) c = (room c \<and> roomy room inc dec ops (dec c))"

text \<open>
  The interface the collector uses: a cell with a count and a tag, where decrementing leaves
  the tag set, incrementing keeps it and only clearing removes it.
\<close>

locale tagged_cell =
  fixes inc :: "'c \<Rightarrow> 'c"
    and dec :: "'c \<Rightarrow> 'c"
    and clear :: "'c \<Rightarrow> 'c"
    and cnt :: "'c \<Rightarrow> int"
    and tg :: "'c \<Rightarrow> bool"
    and room :: "'c \<Rightarrow> bool"
  assumes cnt_inc: "room c \<Longrightarrow> cnt (inc c) = cnt c + 1"
    and tg_inc: "room c \<Longrightarrow> tg (inc c) = tg c"
    and cnt_dec: "room c \<Longrightarrow> cnt (dec c) = cnt c - 1"
    and tg_dec: "room c \<Longrightarrow> tg (dec c)"
    and cnt_clear: "cnt (clear c) = cnt c"
    and tg_clear: "\<not> tg (clear c)"
begin

lemma tag_sticks:
  "roomy room inc dec ops c \<Longrightarrow> tg c \<Longrightarrow> tg (run_cell inc dec ops c)"
proof (induction ops arbitrary: c)
  case Nil
  then show ?case by simp
next
  case (Cons op ops)
  then show ?case by (cases op) (auto simp: tg_inc tg_dec)
qed

lemma untagged_run:
  assumes "roomy room inc dec ops c" and "\<not> tg (run_cell inc dec ops c)"
  shows "Decr \<notin> set ops" and "cnt (run_cell inc dec ops c) = cnt c + int (length ops)"
  using assms
proof (induction ops arbitrary: c)
  case Nil
  { case 1 then show ?case by simp }
  { case 2 then show ?case by simp }
next
  case (Cons op ops)
  { case 1
    with Cons.IH(1) [of "inc c"] tag_sticks [of ops "dec c"] show ?case
      by (cases op) (auto simp: tg_dec) }
  { case 2
    with Cons.IH(2) [of "inc c"] tag_sticks [of ops "dec c"] show ?case
      by (cases op) (auto simp: tg_dec cnt_inc) }
qed

text \<open>
  The two-stage check. Each shard is cleared at a time of its own and read again at a later
  time of its own, and holders act on it in between. If no tag is seen at the second reading,
  the second sum is at least the first; if both sums are equal, nothing happened to any shard.
\<close>

lemma two_stage_sum:
  assumes "\<And>i. i < n \<Longrightarrow> roomy room inc dec (ops i) (clear (cs i))"
    and "\<And>i. i < n \<Longrightarrow> \<not> tg (run_cell inc dec (ops i) (clear (cs i)))"
  shows "(\<Sum>i\<leftarrow>[0..<n]. cnt (run_cell inc dec (ops i) (clear (cs i))))
    = (\<Sum>i\<leftarrow>[0..<n]. cnt (cs i)) + int (\<Sum>i\<leftarrow>[0..<n]. length (ops i))"
  using assms by (induction n) (auto simp: untagged_run(2) cnt_clear)

lemma two_stage_quiet:
  assumes "\<And>i. i < n \<Longrightarrow> roomy room inc dec (ops i) (clear (cs i))"
    and "\<And>i. i < n \<Longrightarrow> \<not> tg (run_cell inc dec (ops i) (clear (cs i)))"
    and "(\<Sum>i\<leftarrow>[0..<n]. cnt (run_cell inc dec (ops i) (clear (cs i))))
      = (\<Sum>i\<leftarrow>[0..<n]. cnt (cs i))"
    and "i < n"
  shows "ops i = []"
proof -
  have "(\<Sum>i\<leftarrow>[0..<n]. length (ops i)) = 0"
    using two_stage_sum [of n ops cs] assms(1-3) by simp
  then show ?thesis using \<open>i < n\<close> by (simp add: sum_list_zero_nat)
qed

end

definition word_room :: "i64 \<Rightarrow> bool" where
  "word_room v \<longleftrightarrow> - (2 ^ 62) < count_of v \<and> count_of v < 2 ^ 62 - 1"

definition cleared :: "i64 \<Rightarrow> i64" where
  "cleared v = snd (fetch_and_clear_tag v)"

interpretation word_cell: tagged_cell increment_ref_count decremented cleared count_of tag word_room
  by unfold_locales (simp_all add: word_room_def cleared_def counter_laws)

interpretation abs_cell: tagged_cell a_increment a_decremented a_clear_tag acount atag "\<lambda>_. True"
proof unfold_locales
  fix c
  show "acount (a_increment c) = acount c + 1" "atag (a_increment c) = atag c"
    "acount (a_decremented c) = acount c - 1" "atag (a_decremented c)"
    "acount (a_clear_tag c) = acount c" "\<not> atag (a_clear_tag c)"
    by (cases c; simp)+
qed

lemmas acounter_simps [simp] =
  abs_cell.cnt_inc [OF TrueI] abs_cell.tg_inc [OF TrueI]
  abs_cell.cnt_dec [OF TrueI] abs_cell.tg_dec [OF TrueI]
  abs_cell.cnt_clear abs_cell.tg_clear



end
