(* ===== verification/Machine.thy ===== *)
theory Machine
  imports TaggedCounter
begin

text \<open>
  The objects, threads and collector of the library as one machine. Its state holds the live
  objects (\<open>SdarcInner\<close> of \<open>src/src/sdarc.rs\<close>, \<open>WeakSdarcInner\<close> of \<open>src/src/weak_sdarc.rs\<close>), the
  strong handles in the hands of the program, the atomic pointers and the per-thread hazard data
  of \<open>src/src/atomic_sdarc.rs\<close>, and the collector's data of \<open>src/src/collector.rs\<close>. Every access to
  shared memory is one step, so steps of threads and collector interleave.

  Counters and atomic pointers are sequentially consistent. A thread's own stores to its hazard
  slots and to its critical-section flag go through a buffer, one queue per location, and reach
  memory at any later time: the light barrier does not wait for them, the collector's heavy
  barrier drains them all.
\<close>

section \<open>State\<close>

type_synonym addr = nat

text \<open>An atomic pointer: a cell of the program, or the back reference inside a weak object.\<close>

datatype cellref = Cell nat | BackRef addr

record obj =
  shards :: "acounter list"
  weak_ref :: "addr option"
  back_ref :: "addr option"

record 'v location =
  mem :: 'v
  buffered :: "'v list"

definition view :: "'v location \<Rightarrow> 'v" where
  "view l = last (mem l # buffered l)"

definition write_to :: "'v \<Rightarrow> 'v location \<Rightarrow> 'v location" where
  "write_to v l = l\<lparr>buffered := buffered l @ [v]\<rparr>"

definition drain :: "'v location \<Rightarrow> 'v location" where
  "drain l = \<lparr>mem = view l, buffered = []\<rparr>"

definition new_location :: "'v \<Rightarrow> 'v location" where
  "new_location v = \<lparr>mem = v, buffered = []\<rparr>"

text \<open>Where a thread is inside \<open>load_atomic_ptr_owned\<close> or \<open>borrow_from_atomic_ptr\<close>.\<close>

datatype pc =
    Idle
  | LoadStart cellref
  | LoadPtr cellref
  | LoadInc addr
  | LoadExit "addr option"
  | BorrowPub cellref addr
  | BorrowReload cellref addr nat

definition HZ_PTR_SLOT_COUNT :: nat where
  "HZ_PTR_SLOT_COUNT = 15"

text \<open>
  One entry of \<open>SHARED_HAZARD_DATA\<close> with the thread that owns it; \<open>guards j\<close> is the pointee of
  the live guard that uses slot \<open>j\<close>.
\<close>

record thr =
  at_pc :: pc
  slots :: "nat \<Rightarrow> addr option location"
  flag :: "bool location"
  guards :: "nat \<Rightarrow> addr option"
  is_used :: bool

datatype tstate = DefaultState | RequiresReChecking | ReadyToFree

text \<open>Where the collector is inside an inner iteration.\<close>

datatype cpc =
    CIdle
  | CSnap
  | CScan nat nat nat
  | CVisit
  | CRelax addr nat int
  | CClear addr nat int
  | CCheck addr nat int
  | CWeak addr
  | CFreeing

record sys =
  nshards :: nat
  heap :: "obj option list"
  handles :: "addr \<Rightarrow> nat"
  cells :: "addr option list"
  thrs :: "thr list"
  pending :: "addr list list"
  tracked :: "addr \<Rightarrow> tstate option"
  at_cpc :: cpc
  todo :: "addr list"
  hz :: "addr list"
  tofree :: "addr list"

section \<open>Access to memory\<close>

definition obj_at :: "sys \<Rightarrow> addr \<Rightarrow> obj option" where
  "obj_at s a = (if a < length (heap s) then heap s ! a else None)"

text \<open>Dereferencing a pointer to freed memory is undefined behaviour.\<close>

definition deref :: "sys \<Rightarrow> addr \<Rightarrow> (obj \<Rightarrow> sys outcome) \<Rightarrow> sys outcome" where
  "deref s a k = (case obj_at s a of None \<Rightarrow> Fault | Some x \<Rightarrow> k x)"

definition put :: "addr \<Rightarrow> obj \<Rightarrow> sys \<Rightarrow> sys" where
  "put a x s = s\<lparr>heap := (heap s)[a := Some x]\<rparr>"

definition on_shard :: "nat \<Rightarrow> (acounter \<Rightarrow> acounter) \<Rightarrow> obj \<Rightarrow> obj" where
  "on_shard i f x = x\<lparr>shards := (shards x)[i := f (shards x ! i)]\<rparr>"

definition add_handle :: "addr \<Rightarrow> sys \<Rightarrow> sys" where
  "add_handle a s = s\<lparr>handles := (handles s)(a := handles s a + 1)\<rparr>"

definition take_handle :: "addr \<Rightarrow> sys \<Rightarrow> sys" where
  "take_handle a s = s\<lparr>handles := (handles s)(a := handles s a - 1)\<rparr>"

definition add_handle_opt :: "addr option \<Rightarrow> sys \<Rightarrow> sys" where
  "add_handle_opt p s = (case p of None \<Rightarrow> s | Some a \<Rightarrow> add_handle a s)"

definition take_handle_opt :: "addr option \<Rightarrow> sys \<Rightarrow> sys" where
  "take_handle_opt p s = (case p of None \<Rightarrow> s | Some a \<Rightarrow> take_handle a s)"

text \<open>The handle a safe operation borrows or consumes exists: the borrow checker's guarantee.\<close>

definition has_handle :: "sys \<Rightarrow> addr option \<Rightarrow> bool" where
  "has_handle s p = (case p of None \<Rightarrow> True | Some a \<Rightarrow> handles s a > 0)"

definition set_thr :: "nat \<Rightarrow> thr \<Rightarrow> sys \<Rightarrow> sys" where
  "set_thr t th s = s\<lparr>thrs := (thrs s)[t := th]\<rparr>"

text \<open>Reading an atomic pointer. The back reference lies inside the weak object.\<close>

definition read_ptr :: "sys \<Rightarrow> cellref \<Rightarrow> (addr option \<Rightarrow> sys outcome) \<Rightarrow> sys outcome" where
  "read_ptr s r k =
     (case r of
        Cell c \<Rightarrow> if c < length (cells s) then k (cells s ! c) else Disabled
      | BackRef w \<Rightarrow> if handles s w > 0 then deref s w (\<lambda>x. k (back_ref x)) else Disabled)"

section \<open>Strong handles\<close>

definition new_obj :: "nat \<Rightarrow> nat \<Rightarrow> addr option \<Rightarrow> obj" where
  "new_obj n i back =
     \<lparr>shards = (replicate n a_new)[i := a_increment a_new], weak_ref = None, back_ref = back\<rparr>"

definition on_new_sdarc_allocated :: "nat \<Rightarrow> addr \<Rightarrow> sys \<Rightarrow> sys" where
  "on_new_sdarc_allocated j a s = s\<lparr>pending := (pending s)[j := pending s ! j @ [a]]\<rparr>"

text \<open>
  \<open>Sdarc::new\<close>: \<open>a\<close> is the address the allocator returns, \<open>i\<close> and \<open>j\<close> the shards the thread is on
  when it sets the first counter and when it registers the object.
\<close>

definition sdarc_new :: "addr \<Rightarrow> nat \<Rightarrow> nat \<Rightarrow> sys \<Rightarrow> sys outcome" where
  "sdarc_new a i j s =
     (if a < length (heap s) \<and> heap s ! a = None \<and> i < nshards s \<and> j < nshards s
      then Next (add_handle a (on_new_sdarc_allocated j a (put a (new_obj (nshards s) i None) s)))
      else Disabled)"

definition sdarc_clone :: "addr \<Rightarrow> nat \<Rightarrow> sys \<Rightarrow> sys outcome" where
  "sdarc_clone a i s =
     (if handles s a > 0 \<and> i < nshards s
      then deref s a (\<lambda>x. Next (add_handle a (put a (on_shard i a_increment x) s)))
      else Disabled)"

definition sdarc_drop :: "addr \<Rightarrow> nat \<Rightarrow> sys \<Rightarrow> sys outcome" where
  "sdarc_drop a i s =
     (if handles s a > 0 \<and> i < nshards s
      then deref s a (\<lambda>x. Next (take_handle a (put a (on_shard i a_decremented x) s)))
      else Disabled)"

definition sdarc_deref :: "addr \<Rightarrow> sys \<Rightarrow> sys outcome" where
  "sdarc_deref a s = (if handles s a > 0 then deref s a (\<lambda>x. Next s) else Disabled)"

section \<open>Weak handles\<close>

text \<open>
  \<open>Sdarc::downgrade\<close>: the initialisation of the \<open>OnceLock\<close>, which allocates the weak object \<open>w\<close> and
  keeps a strong handle to it, then the clone of that handle. A \<open>WeakSdarc\<close> is a strong handle
  to its weak object.
\<close>

definition downgrade_init :: "addr \<Rightarrow> addr \<Rightarrow> nat \<Rightarrow> nat \<Rightarrow> sys \<Rightarrow> sys outcome" where
  "downgrade_init a w i j s =
     (if handles s a > 0 \<and> w < length (heap s) \<and> heap s ! w = None \<and> i < nshards s \<and> j < nshards s
      then deref s a (\<lambda>x.
        if weak_ref x = None
        then Next (on_new_sdarc_allocated j w
               (put a (x\<lparr>weak_ref := Some w\<rparr>) (put w (new_obj (nshards s) i (Some a)) s)))
        else Disabled)
      else Disabled)"

definition downgrade_clone :: "addr \<Rightarrow> nat \<Rightarrow> sys \<Rightarrow> sys outcome" where
  "downgrade_clone a i s =
     (if handles s a > 0 \<and> i < nshards s
      then deref s a (\<lambda>x.
        case weak_ref x of
          None \<Rightarrow> Disabled
        | Some w \<Rightarrow> deref s w (\<lambda>y. Next (add_handle w (put w (on_shard i a_increment y) s))))
      else Disabled)"

section \<open>Atomic pointers\<close>

definition ptr_swap :: "nat \<Rightarrow> addr option \<Rightarrow> sys \<Rightarrow> sys outcome" where
  "ptr_swap c new s =
     (if c < length (cells s) \<and> has_handle s new
      then Next (add_handle_opt (cells s ! c) (take_handle_opt new (s\<lparr>cells := (cells s)[c := new]\<rparr>)))
      else Disabled)"

text \<open>
  \<open>raw_compare_and_set\<close> in its two steps: the exchange, and the increment for the borrowed handle
  \<open>then_set\<close> that follows it. \<open>compare_and_set\<close> runs both with nothing in between.
\<close>

definition cas_increment :: "addr option \<Rightarrow> nat \<Rightarrow> sys \<Rightarrow> sys outcome" where
  "cas_increment then_set i s =
     (case then_set of
        None \<Rightarrow> Next s
      | Some a \<Rightarrow> deref s a (\<lambda>x. Next (put a (on_shard i a_increment x) s)))"

definition cas_exchange :: "nat \<Rightarrow> addr option \<Rightarrow> sys \<Rightarrow> sys" where
  "cas_exchange c then_set s = s\<lparr>cells := (cells s)[c := then_set]\<rparr>"

definition compare_and_set :: "nat \<Rightarrow> addr option \<Rightarrow> addr option \<Rightarrow> nat \<Rightarrow> sys \<Rightarrow> sys outcome" where
  "compare_and_set c if_matches then_set i s =
     (if c < length (cells s) \<and> has_handle s if_matches \<and> has_handle s then_set \<and> i < nshards s
      then if cells s ! c = if_matches
           then case cas_increment then_set i (cas_exchange c then_set s) of
                  Next s' \<Rightarrow> Next (add_handle_opt if_matches s')
                | r \<Rightarrow> r
           else Next s
      else Disabled)"

end
