(* ===== verification/Readers.thy ===== *)
theory Readers
  imports Machine
begin

text \<open>
  The reading side of \<open>src/src/atomic_sdarc.rs\<close>: the per-thread hazard data, loading an owned
  handle inside the reader critical section, borrowing through a hazard slot with its fallback,
  and the guards. One definition per access to shared memory.
\<close>

section \<open>Hazard data of the threads\<close>

definition thr_step :: "nat \<Rightarrow> sys \<Rightarrow> (thr \<Rightarrow> sys outcome) \<Rightarrow> sys outcome" where
  "thr_step t s k = (if t < length (thrs s) \<and> is_used (thrs s ! t) then k (thrs s ! t) else Disabled)"

definition new_thr :: thr where
  "new_thr = \<lparr>at_pc = Idle, slots = \<lambda>j. new_location None, flag = new_location False,
     guards = \<lambda>j. None, is_used = True\<rparr>"

text \<open>A thread claims an entry that is not in use, or appends a new one.\<close>

definition hazard_data_claim :: "nat \<Rightarrow> sys \<Rightarrow> sys outcome" where
  "hazard_data_claim t s =
     (if t < length (thrs s) \<and> \<not> is_used (thrs s ! t)
      then Next (set_thr t ((thrs s ! t)\<lparr>is_used := True\<rparr>) s) else Disabled)"

definition hazard_data_push :: "sys \<Rightarrow> sys outcome" where
  "hazard_data_push s = Next (s\<lparr>thrs := thrs s @ [new_thr]\<rparr>)"

definition release_hazard_data :: "nat \<Rightarrow> sys \<Rightarrow> sys outcome" where
  "release_hazard_data t s = thr_step t s (\<lambda>th.
     if at_pc th \<noteq> Idle then Disabled
     else if \<not> (\<forall>j<HZ_PTR_SLOT_COUNT. view (slots th j) = None) then Panic
     else if view (flag th) then Panic
     else Next (set_thr t (th\<lparr>slots := \<lambda>j. drain (slots th j), flag := drain (flag th),
            is_used := False\<rparr>) s))"

text \<open>A buffered store reaches memory; stores to different locations are not ordered.\<close>

definition commit :: "'v location \<Rightarrow> 'v location" where
  "commit l = (case buffered l of [] \<Rightarrow> l | v # vs \<Rightarrow> \<lparr>mem = v, buffered = vs\<rparr>)"

definition slot_reaches_memory :: "nat \<Rightarrow> nat \<Rightarrow> sys \<Rightarrow> sys outcome" where
  "slot_reaches_memory t j s = (if t < length (thrs s)
     then Next (set_thr t ((thrs s ! t)\<lparr>slots := (slots (thrs s ! t))(j := commit (slots (thrs s ! t) j))\<rparr>) s)
     else Disabled)"

definition flag_reaches_memory :: "nat \<Rightarrow> sys \<Rightarrow> sys outcome" where
  "flag_reaches_memory t s = (if t < length (thrs s)
     then Next (set_thr t ((thrs s ! t)\<lparr>flag := commit (flag (thrs s ! t))\<rparr>) s) else Disabled)"

section \<open>Loading an owned handle\<close>

definition load_begin :: "nat \<Rightarrow> cellref \<Rightarrow> sys \<Rightarrow> sys outcome" where
  "load_begin t r s = thr_step t s (\<lambda>th.
     if at_pc th = Idle then Next (set_thr t (th\<lparr>at_pc := LoadStart r\<rparr>) s) else Disabled)"

definition reader_critical_section_enter :: "nat \<Rightarrow> sys \<Rightarrow> sys outcome" where
  "reader_critical_section_enter t s = thr_step t s (\<lambda>th.
     case at_pc th of
       LoadStart r \<Rightarrow>
         if view (flag th) then Panic
         else Next (set_thr t (th\<lparr>at_pc := LoadPtr r, flag := write_to True (flag th)\<rparr>) s)
     | _ \<Rightarrow> Disabled)"

definition load_atomic_ptr :: "nat \<Rightarrow> sys \<Rightarrow> sys outcome" where
  "load_atomic_ptr t s = thr_step t s (\<lambda>th.
     case at_pc th of
       LoadPtr r \<Rightarrow> read_ptr s r (\<lambda>p. Next (set_thr t (th\<lparr>at_pc :=
         (case p of None \<Rightarrow> LoadExit None | Some a \<Rightarrow> LoadInc a)\<rparr>) s))
     | _ \<Rightarrow> Disabled)"

definition load_increment :: "nat \<Rightarrow> nat \<Rightarrow> sys \<Rightarrow> sys outcome" where
  "load_increment t i s = thr_step t s (\<lambda>th.
     case at_pc th of
       LoadInc a \<Rightarrow>
         if i < nshards s
         then deref s a (\<lambda>x. Next (set_thr t (th\<lparr>at_pc := LoadExit (Some a)\<rparr>)
                                     (put a (on_shard i a_increment x) s)))
         else Disabled
     | _ \<Rightarrow> Disabled)"

definition reader_critical_section_exit :: "nat \<Rightarrow> sys \<Rightarrow> sys outcome" where
  "reader_critical_section_exit t s = thr_step t s (\<lambda>th.
     case at_pc th of
       LoadExit p \<Rightarrow>
         Next (add_handle_opt p (set_thr t (th\<lparr>at_pc := Idle, flag := write_to False (flag th)\<rparr>) s))
     | _ \<Rightarrow> Disabled)"

section \<open>Borrowing through a hazard slot\<close>

definition borrow_preload :: "nat \<Rightarrow> cellref \<Rightarrow> sys \<Rightarrow> sys outcome" where
  "borrow_preload t r s = thr_step t s (\<lambda>th.
     if at_pc th = Idle
     then read_ptr s r (\<lambda>p. Next (set_thr t (th\<lparr>at_pc :=
            (case p of None \<Rightarrow> Idle | Some a \<Rightarrow> BorrowPub r a)\<rparr>) s))
     else Disabled)"

definition first_null_slot :: "thr \<Rightarrow> nat option" where
  "first_null_slot th = find (\<lambda>j. view (slots th j) = None) [0..<HZ_PTR_SLOT_COUNT]"

text \<open>Publishing, or falling back to \<open>load_atomic_ptr_owned\<close> when every slot is taken.\<close>

definition try_publish :: "nat \<Rightarrow> sys \<Rightarrow> sys outcome" where
  "try_publish t s = thr_step t s (\<lambda>th.
     case at_pc th of
       BorrowPub r a \<Rightarrow>
         (case first_null_slot th of
            None \<Rightarrow> Next (set_thr t (th\<lparr>at_pc := LoadStart r\<rparr>) s)
          | Some j \<Rightarrow> Next (set_thr t (th\<lparr>at_pc := BorrowReload r a j,
              slots := (slots th)(j := write_to (Some a) (slots th j))\<rparr>) s))
     | _ \<Rightarrow> Disabled)"

text \<open>The second load: the borrow succeeds, or the slot is cleared and the fallback runs.\<close>

definition borrow_reload :: "nat \<Rightarrow> sys \<Rightarrow> sys outcome" where
  "borrow_reload t s = thr_step t s (\<lambda>th.
     case at_pc th of
       BorrowReload r a j \<Rightarrow> read_ptr s r (\<lambda>p.
         if p = Some a
         then Next (set_thr t (th\<lparr>at_pc := Idle, guards := (guards th)(j := Some a)\<rparr>) s)
         else Next (set_thr t (th\<lparr>at_pc := LoadStart r,
                slots := (slots th)(j := write_to None (slots th j))\<rparr>) s))
     | _ \<Rightarrow> Disabled)"

section \<open>Guards\<close>

definition guard_deref :: "nat \<Rightarrow> nat \<Rightarrow> sys \<Rightarrow> sys outcome" where
  "guard_deref t j s = thr_step t s (\<lambda>th.
     case guards th j of None \<Rightarrow> Disabled | Some a \<Rightarrow> deref s a (\<lambda>x. Next s))"

definition guard_clone :: "nat \<Rightarrow> nat \<Rightarrow> nat \<Rightarrow> sys \<Rightarrow> sys outcome" where
  "guard_clone t j i s = thr_step t s (\<lambda>th.
     case guards th j of
       None \<Rightarrow> Disabled
     | Some a \<Rightarrow>
         if i < nshards s
         then deref s a (\<lambda>x. Next (add_handle a (put a (on_shard i a_increment x) s)))
         else Disabled)"

definition guard_drop :: "nat \<Rightarrow> nat \<Rightarrow> sys \<Rightarrow> sys outcome" where
  "guard_drop t j s = thr_step t s (\<lambda>th.
     case guards th j of
       None \<Rightarrow> Disabled
     | Some a \<Rightarrow>
         if at_pc th = Idle
         then Next (set_thr t (th\<lparr>guards := (guards th)(j := None),
                slots := (slots th)(j := write_to None (slots th j))\<rparr>) s)
         else Disabled)"

end
