(* ===== verification/Collecting.thy ===== *)
theory Collecting
  imports Readers
begin

text \<open>
  The collector of \<open>src/src/collector.rs\<close> as steps of the machine: taking new objects under
  tracking, the heavy barrier with the scan of hazard slots and critical-section flags
  (\<open>traverse_atomic_reader_signals\<close>), the visit of each tracked object with its three ways of
  reading the counters one shard at a time, the clearing of weak back references, and the frees.
  Then the labels, the step function of the whole machine and its reachable states.
\<close>

section \<open>Tracking\<close>

fun track_all :: "addr list \<Rightarrow> (addr \<Rightarrow> tstate option) \<Rightarrow> (addr \<Rightarrow> tstate option) option" where
  "track_all [] m = Some m"
| "track_all (a # as) m =
     (if m a \<noteq> None then None else track_all as (m(a := Some DefaultState)))"

definition take_new_counters_to_track :: "nat \<Rightarrow> sys \<Rightarrow> sys outcome" where
  "take_new_counters_to_track j s =
     (if at_cpc s = CIdle \<and> j < nshards s
      then case track_all (pending s ! j) (tracked s) of
             None \<Rightarrow> Panic
           | Some m \<Rightarrow> Next (s\<lparr>tracked := m, pending := (pending s)[j := []]\<rparr>)
      else Disabled)"

section \<open>An inner iteration\<close>

text \<open>
  \<open>update_all_tracked\<dots>\<close> visits all tracked objects, \<open>update_specific\<dots>\<close> those to re-check, in the
  order of a map or set without duplicates: any duplicate-free list covers both. The
  heavy barrier makes every thread's earlier stores visible.
\<close>

definition drain_thr :: "thr \<Rightarrow> thr" where
  "drain_thr th = th\<lparr>slots := \<lambda>j. drain (slots th j), flag := drain (flag th)\<rparr>"

definition begin_iteration :: "addr list \<Rightarrow> sys \<Rightarrow> sys outcome" where
  "begin_iteration visit s =
     (if at_cpc s = CIdle \<and> distinct visit
      then Next (s\<lparr>thrs := map drain_thr (thrs s), at_cpc := CSnap, todo := visit, hz := [],
             tofree := []\<rparr>)
      else Disabled)"

definition traverse_begin :: "sys \<Rightarrow> sys outcome" where
  "traverse_begin s = (if at_cpc s = CSnap then Next (s\<lparr>at_cpc := CScan 0 (length (thrs s)) 0\<rparr>)
     else Disabled)"

text \<open>One hazard slot, the poll of one flag (which spins while it is true), the end of the scan.\<close>

definition traverse_step :: "sys \<Rightarrow> sys outcome" where
  "traverse_step s =
     (case at_cpc s of
        CScan t n j \<Rightarrow>
          if t < n
          then if j < HZ_PTR_SLOT_COUNT
               then Next (s\<lparr>at_cpc := CScan t n (Suc j),
                      hz := (case mem (slots (thrs s ! t) j) of None \<Rightarrow> hz s | Some a \<Rightarrow> a # hz s)\<rparr>)
               else if mem (flag (thrs s ! t)) then Next s
               else Next (s\<lparr>at_cpc := CScan (Suc t) n 0\<rparr>)
          else Next (s\<lparr>at_cpc := CVisit\<rparr>)
      | _ \<Rightarrow> Disabled)"

definition set_state :: "addr \<Rightarrow> tstate \<Rightarrow> sys \<Rightarrow> sys" where
  "set_state a st s = s\<lparr>tracked := (tracked s)(a := Some st), at_cpc := CVisit\<rparr>"

definition visit_next :: "sys \<Rightarrow> sys outcome" where
  "visit_next s =
     (if at_cpc s = CVisit
      then case todo s of
             [] \<Rightarrow> Next (s\<lparr>at_cpc := CFreeing\<rparr>)
           | a # rest \<Rightarrow>
               (case tracked s a of
                  None \<Rightarrow> Next (s\<lparr>todo := rest\<rparr>)
                | Some st \<Rightarrow>
                    if a \<in> set (hz s) then Next (set_state a DefaultState (s\<lparr>todo := rest\<rparr>))
                    else (case st of
                            DefaultState \<Rightarrow> Next (s\<lparr>todo := rest, at_cpc := CRelax a 0 0\<rparr>)
                          | RequiresReChecking \<Rightarrow> Next (s\<lparr>todo := rest, at_cpc := CCheck a 0 0\<rparr>)
                          | ReadyToFree \<Rightarrow> Panic))
      else Disabled)"

section \<open>Reading the counters of one object\<close>

definition read_relaxed_step :: "sys \<Rightarrow> sys outcome" where
  "read_relaxed_step s =
     (case at_cpc s of
        CRelax a k acc \<Rightarrow>
          if k < nshards s
          then deref s a (\<lambda>x. Next (s\<lparr>at_cpc := CRelax a (Suc k) (acc + acount (shards x ! k))\<rparr>))
          else if acc = 0 then Next (s\<lparr>at_cpc := CClear a 0 0\<rparr>)
          else Next (set_state a DefaultState s)
      | _ \<Rightarrow> Disabled)"

definition clear_tags_step :: "sys \<Rightarrow> sys outcome" where
  "clear_tags_step s =
     (case at_cpc s of
        CClear a k acc \<Rightarrow>
          if k < nshards s
          then deref s a (\<lambda>x. Next (put a (on_shard k a_clear_tag x)
                 (s\<lparr>at_cpc := CClear a (Suc k) (acc + acount (shards x ! k))\<rparr>)))
          else if acc = 0 then Next (set_state a RequiresReChecking s)
          else Next (set_state a DefaultState s)
      | _ \<Rightarrow> Disabled)"

definition check_step :: "sys \<Rightarrow> sys outcome" where
  "check_step s =
     (case at_cpc s of
        CCheck a k acc \<Rightarrow>
          if k < nshards s
          then deref s a (\<lambda>x.
                 if atag (shards x ! k) then Next (set_state a DefaultState s)
                 else Next (s\<lparr>at_cpc := CCheck a (Suc k) (acc + acount (shards x ! k))\<rparr>))
          else if acc = 0 then Next (s\<lparr>at_cpc := CWeak a\<rparr>)
          else if acc > 0 then Next (set_state a DefaultState s)
          else Panic
      | _ \<Rightarrow> Disabled)"

definition ready_to_free :: "addr \<Rightarrow> sys \<Rightarrow> sys" where
  "ready_to_free a s = set_state a ReadyToFree (s\<lparr>tofree := tofree s @ [a]\<rparr>)"

definition clear_weak_backref :: "sys \<Rightarrow> sys outcome" where
  "clear_weak_backref s =
     (case at_cpc s of
        CWeak a \<Rightarrow> deref s a (\<lambda>x.
          case weak_ref x of
            None \<Rightarrow> Next (ready_to_free a s)
          | Some w \<Rightarrow> deref s w (\<lambda>y.
              if back_ref y = None then Next (ready_to_free a s)
              else Next (set_state a RequiresReChecking (put w (y\<lparr>back_ref := None\<rparr>) s))))
      | _ \<Rightarrow> Disabled)"

section \<open>Freeing\<close>

text \<open>
  One object of \<open>free_pointers\<close>. Dropping a weak object asserts that its back reference is null;
  dropping an object with a weak object drops its handle to that one, on shard \<open>i\<close>. The
  handles in the object's data are the program's: its drop code runs as steps of a thread.
\<close>

definition drop_weak_inner_ref :: "addr option \<Rightarrow> nat \<Rightarrow> sys \<Rightarrow> sys outcome" where
  "drop_weak_inner_ref w i s =
     (case w of
        None \<Rightarrow> Next s
      | Some w \<Rightarrow> deref s w (\<lambda>y. Next (put w (on_shard i a_decremented y) s)))"

definition free_step :: "nat \<Rightarrow> sys \<Rightarrow> sys outcome" where
  "free_step i s =
     (if at_cpc s = CFreeing \<and> i < nshards s
      then case tofree s of
             [] \<Rightarrow> Next (s\<lparr>at_cpc := CIdle\<rparr>)
           | a # rest \<Rightarrow>
               if tracked s a \<noteq> Some ReadyToFree then Panic
               else deref s a (\<lambda>x.
                 if back_ref x \<noteq> None then Panic
                 else drop_weak_inner_ref (weak_ref x) i
                        (s\<lparr>tracked := (tracked s)(a := None), tofree := rest,
                           heap := (heap s)[a := None]\<rparr>))
      else Disabled)"

section \<open>The machine\<close>

datatype label =
    LNew addr nat nat
  | LClone addr nat
  | LDrop addr nat
  | LDeref addr
  | LDowngradeInit addr addr nat nat
  | LDowngradeClone addr nat
  | LSwap nat "addr option"
  | LCompareAndSet nat "addr option" "addr option" nat
  | LClaim nat
  | LPush
  | LRelease nat
  | LSlotMem nat nat
  | LFlagMem nat
  | LLoadBegin nat cellref
  | LLoadEnter nat
  | LLoadPtr nat
  | LLoadInc nat nat
  | LLoadExit nat
  | LBorrowPreload nat cellref
  | LPublish nat
  | LBorrowReload nat
  | LGuardDeref nat nat
  | LGuardClone nat nat nat
  | LGuardDrop nat nat
  | CTake nat
  | CBegin "addr list"
  | CTraverseBegin
  | CTraverse
  | CVisitNext
  | CReadRelaxed
  | CClearTags
  | CCheckTags
  | CClearWeak
  | CFree nat

fun step :: "label \<Rightarrow> sys \<Rightarrow> sys outcome" where
  "step (LNew a i j) s = sdarc_new a i j s"
| "step (LClone a i) s = sdarc_clone a i s"
| "step (LDrop a i) s = sdarc_drop a i s"
| "step (LDeref a) s = sdarc_deref a s"
| "step (LDowngradeInit a w i j) s = downgrade_init a w i j s"
| "step (LDowngradeClone a i) s = downgrade_clone a i s"
| "step (LSwap c new) s = ptr_swap c new s"
| "step (LCompareAndSet c m n i) s = compare_and_set c m n i s"
| "step (LClaim t) s = hazard_data_claim t s"
| "step LPush s = hazard_data_push s"
| "step (LRelease t) s = release_hazard_data t s"
| "step (LSlotMem t j) s = slot_reaches_memory t j s"
| "step (LFlagMem t) s = flag_reaches_memory t s"
| "step (LLoadBegin t r) s = load_begin t r s"
| "step (LLoadEnter t) s = reader_critical_section_enter t s"
| "step (LLoadPtr t) s = load_atomic_ptr t s"
| "step (LLoadInc t i) s = load_increment t i s"
| "step (LLoadExit t) s = reader_critical_section_exit t s"
| "step (LBorrowPreload t r) s = borrow_preload t r s"
| "step (LPublish t) s = try_publish t s"
| "step (LBorrowReload t) s = borrow_reload t s"
| "step (LGuardDeref t j) s = guard_deref t j s"
| "step (LGuardClone t j i) s = guard_clone t j i s"
| "step (LGuardDrop t j) s = guard_drop t j s"
| "step (CTake j) s = take_new_counters_to_track j s"
| "step (CBegin visit) s = begin_iteration visit s"
| "step CTraverseBegin s = traverse_begin s"
| "step CTraverse s = traverse_step s"
| "step CVisitNext s = visit_next s"
| "step CReadRelaxed s = read_relaxed_step s"
| "step CClearTags s = clear_tags_step s"
| "step CCheckTags s = check_step s"
| "step CClearWeak s = clear_weak_backref s"
| "step (CFree i) s = free_step i s"

definition start :: "nat \<Rightarrow> nat \<Rightarrow> nat \<Rightarrow> sys" where
  "start n addrs cs = \<lparr>nshards = n, heap = replicate addrs None, handles = \<lambda>_. 0,
     cells = replicate cs None, thrs = [], pending = replicate n [], tracked = \<lambda>_. None,
     at_cpc = CIdle, todo = [], hz = [], tofree = []\<rparr>"

inductive reach :: "sys \<Rightarrow> bool" where
  reach_start: "n > 0 \<Longrightarrow> reach (start n addrs cs)"
| reach_step: "reach s \<Longrightarrow> step l s = Next s' \<Longrightarrow> reach s'"

fun run :: "label list \<Rightarrow> sys \<Rightarrow> sys outcome" where
  "run [] s = Next s"
| "run (l # ls) s = (case step l s of Next s' \<Rightarrow> run ls s' | r \<Rightarrow> r)"

interpretation machine: step_system step reach run
  by unfold_locales (auto simp: bind_outcome_def split: outcome.splits intro: reach_step)

lemmas run_reach = machine.execution_reaches

end
