(* ===== verification/Ownership.thy ===== *)
theory Ownership
  imports Collecting "HOL-Library.Multiset"
begin

text \<open>
  Who may still reach an object: tokens (the strong references it must count), hazard guards,
  readers inside the critical section, and the weak route. The resource invariant relates
  counters and tokens, and \<open>effect\<close> bounds what one step of a thread can do to any object.
\<close>

section \<open>Tokens and the other ways to an object\<close>

definition holds_weak :: "addr \<Rightarrow> obj option \<Rightarrow> bool" where
  "holds_weak a x = (case x of None \<Rightarrow> False | Some x \<Rightarrow> weak_ref x = Some a)"

definition tokens :: "sys \<Rightarrow> addr \<Rightarrow> nat" where
  "tokens s a = handles s a + count_where (\<lambda>c. c = Some a) (cells s)
     + count_where (\<lambda>th. at_pc th = LoadExit (Some a)) (thrs s) + count_where (holds_weak a) (heap s)"

definition total :: "obj \<Rightarrow> int" where
  "total x = sum_list (map acount (shards x))"

definition guard_on :: "sys \<Rightarrow> nat \<Rightarrow> nat \<Rightarrow> addr \<Rightarrow> bool" where
  "guard_on s t j a \<longleftrightarrow> t < length (thrs s) \<and> guards (thrs s ! t) j = Some a"

definition loading :: "sys \<Rightarrow> nat \<Rightarrow> addr \<Rightarrow> bool" where
  "loading s t a \<longleftrightarrow> t < length (thrs s) \<and> at_pc (thrs s ! t) = LoadInc a"

definition weak_route :: "sys \<Rightarrow> addr \<Rightarrow> bool" where
  "weak_route s a \<longleftrightarrow> (\<exists>w x y. obj_at s a = Some x \<and> weak_ref x = Some w
     \<and> obj_at s w = Some y \<and> back_ref y = Some a)"

definition route :: "sys \<Rightarrow> addr \<Rightarrow> bool" where
  "route s a \<longleftrightarrow> tokens s a > 0 \<or> weak_route s a"

text \<open>The protection of a guard or reader is in memory, where the collector looks.\<close>

definition published :: "sys \<Rightarrow> nat \<Rightarrow> nat \<Rightarrow> addr \<Rightarrow> bool" where
  "published s t j a \<longleftrightarrow> slots (thrs s ! t) j = \<lparr>mem = Some a, buffered = []\<rparr>"

definition flagged :: "sys \<Rightarrow> nat \<Rightarrow> bool" where
  "flagged s t \<longleftrightarrow> flag (thrs s ! t) = \<lparr>mem = True, buffered = []\<rparr>"

section \<open>The resource invariant\<close>

definition in_critical_section :: "pc \<Rightarrow> bool" where
  "in_critical_section p = (case p of LoadPtr r \<Rightarrow> True | LoadInc a \<Rightarrow> True | LoadExit q \<Rightarrow> True | _ \<Rightarrow> False)"

definition slot_value :: "thr \<Rightarrow> nat \<Rightarrow> addr option" where
  "slot_value th j = (case at_pc th of
     BorrowReload r a k \<Rightarrow> if j = k then Some a else guards th j
   | _ \<Rightarrow> guards th j)"

definition thr_ok :: "thr \<Rightarrow> bool" where
  "thr_ok th \<longleftrightarrow> view (flag th) = in_critical_section (at_pc th)
     \<and> (\<forall>j. view (slots th j) = slot_value th j)
     \<and> (\<forall>j\<ge>HZ_PTR_SLOT_COUNT. guards th j = None)
     \<and> (\<forall>r a k. at_pc th = BorrowReload r a k \<longrightarrow> guards th k = None \<and> k < HZ_PTR_SLOT_COUNT)"

definition res_inv :: "sys \<Rightarrow> bool" where
  "res_inv s \<longleftrightarrow> nshards s > 0 \<and> length (pending s) = nshards s
     \<and> (\<forall>a x. obj_at s a = Some x \<longrightarrow> length (shards x) = nshards s \<and> total x = int (tokens s a))
     \<and> (\<forall>a. obj_at s a = None \<longrightarrow> tokens s a = 0 \<and> (\<forall>t j. \<not> guard_on s t j a) \<and> (\<forall>t. \<not> loading s t a))
     \<and> (\<forall>w y a. obj_at s w = Some y \<longrightarrow> back_ref y = Some a \<longrightarrow>
          (\<exists>x. obj_at s a = Some x \<and> weak_ref x = Some w))
     \<and> (\<forall>th\<in>set (thrs s). thr_ok th)
     \<and> (\<forall>a x w y. obj_at s a = Some x \<longrightarrow> weak_ref x = Some w \<longrightarrow> obj_at s w = Some y \<longrightarrow>
          back_ref y = None \<or> back_ref y = Some a)"

lemma res_invD:
  assumes "res_inv s"
  shows "nshards s > 0 \<and> length (pending s) = nshards s"
    and "\<And>a x. obj_at s a = Some x \<Longrightarrow> length (shards x) = nshards s \<and> total x = int (tokens s a)"
    and "\<And>a. obj_at s a = None \<Longrightarrow> tokens s a = 0"
    and "\<And>a t j. obj_at s a = None \<Longrightarrow> \<not> guard_on s t j a"
    and "\<And>a t. obj_at s a = None \<Longrightarrow> \<not> loading s t a"
    and "\<And>w y a. \<lbrakk>obj_at s w = Some y; back_ref y = Some a\<rbrakk> \<Longrightarrow>
          \<exists>x. obj_at s a = Some x \<and> weak_ref x = Some w"
    and "\<And>t. t < length (thrs s) \<Longrightarrow> thr_ok (thrs s ! t)"
    and "\<And>a x w y. \<lbrakk>obj_at s a = Some x; weak_ref x = Some w; obj_at s w = Some y\<rbrakk> \<Longrightarrow>
          back_ref y = None \<or> back_ref y = Some a"
  using assms unfolding res_inv_def by (blast, blast, blast, blast, blast, blast, simp, blast)

lemma weak_ref_alive:
  assumes "res_inv s" and "obj_at s a = Some x" and "weak_ref x = Some w"
  shows "tokens s w > 0" "\<exists>y. obj_at s w = Some y"
proof -
  have "holds_weak w (heap s ! a)" "a < length (heap s)"
    using assms(2,3) by (auto simp: holds_weak_def obj_at_def split: if_splits)
  then have "count_where (holds_weak w) (heap s) > 0" by (auto simp: count_where_pos intro!: nth_mem)
  then show pos: "tokens s w > 0" by (simp add: tokens_def)
  then show "\<exists>y. obj_at s w = Some y" using res_invD(3) [OF assms(1), of w] by (cases "obj_at s w") auto
qed

lemma route_alive: "res_inv s \<Longrightarrow> route s a \<Longrightarrow> obj_at s a \<noteq> None"
  by (auto simp: route_def weak_route_def dest: res_invD(3))

lemma handle_alive: "res_inv s \<Longrightarrow> handles s a > 0 \<Longrightarrow> \<exists>x. obj_at s a = Some x"
  using res_invD(3) [of s a] by (cases "obj_at s a") (auto simp: tokens_def)

section \<open>What one step of a thread can do\<close>

definition grows :: "obj \<Rightarrow> obj \<Rightarrow> bool" where
  "grows x y \<longleftrightarrow> length (shards y) = length (shards x)
     \<and> (\<forall>i<length (shards x). atag (shards y ! i)
          \<or> \<not> atag (shards x ! i) \<and> acount (shards x ! i) \<le> acount (shards y ! i))
     \<and> (weak_ref x \<noteq> None \<longrightarrow> weak_ref y = weak_ref x) \<and> back_ref y = back_ref x"

lemma grows_refl [simp]: "grows x x"
  by (simp add: grows_def)

definition new_ok :: "sys \<Rightarrow> addr \<Rightarrow> obj \<Rightarrow> bool" where
  "new_ok s' b y \<longleftrightarrow> length (shards y) = nshards s' \<and> total y = int (tokens s' b)
     \<and> (\<forall>a. back_ref y = Some a \<longrightarrow> (\<exists>x. obj_at s' a = Some x \<and> weak_ref x = Some b))"

definition heap_effect :: "sys \<Rightarrow> sys \<Rightarrow> bool" where
  "heap_effect s s' \<longleftrightarrow> nshards s' = nshards s
     \<and> (\<forall>b x. obj_at s b = Some x \<longrightarrow> (\<exists>y. obj_at s' b = Some y \<and> grows x y
          \<and> total y - total x = int (tokens s' b) - int (tokens s b)))
     \<and> (\<forall>b. obj_at s b = None \<longrightarrow> (case obj_at s' b of None \<Rightarrow> tokens s' b = 0 | Some y \<Rightarrow> new_ok s' b y))
     \<and> (\<forall>a. obj_at s a \<noteq> None \<longrightarrow> weak_route s' a \<longrightarrow> route s a)
     \<and> (\<forall>a y w. obj_at s' a = Some y \<longrightarrow> weak_ref y = Some w \<longrightarrow>
          (\<exists>x. obj_at s a = Some x \<and> weak_ref x = Some w)
          \<or> (\<exists>z. obj_at s w = None \<and> obj_at s' w = Some z \<and> back_ref z = Some a))"

definition thr_effect :: "sys \<Rightarrow> sys \<Rightarrow> bool" where
  "thr_effect s s' \<longleftrightarrow> (\<forall>th\<in>set (thrs s'). thr_ok th)
     \<and> (\<forall>t j a. guard_on s' t j a \<longrightarrow> route s a \<or>
          guard_on s t j a \<and> (published s t j a \<longrightarrow> published s' t j a))
     \<and> (\<forall>t a. loading s' t a \<longrightarrow> route s a \<or> loading s t a \<and> (flagged s t \<longrightarrow> flagged s' t))
     \<and> length (thrs s) \<le> length (thrs s')"

text \<open>The collector's own data stays; new objects are the ones registered.\<close>

definition gc_same :: "sys \<Rightarrow> sys \<Rightarrow> bool" where
  "gc_same s s' \<longleftrightarrow> tracked s' = tracked s \<and> at_cpc s' = at_cpc s \<and> todo s' = todo s
     \<and> hz s' = hz s \<and> tofree s' = tofree s \<and> length (pending s') = length (pending s)
     \<and> (\<exists>new. mset (concat (pending s')) = mset (concat (pending s)) + mset new \<and> distinct new
          \<and> (\<forall>b. obj_at s b = None \<longrightarrow> (obj_at s' b \<noteq> None \<longleftrightarrow> b \<in> set new))
          \<and> (\<forall>b\<in>set new. obj_at s b = None))"

text \<open>A first token for a live object comes from a guard or from a reader.\<close>

definition token_effect :: "sys \<Rightarrow> sys \<Rightarrow> bool" where
  "token_effect s s' \<longleftrightarrow> (\<forall>a. obj_at s a \<noteq> None \<longrightarrow> tokens s a = 0 \<longrightarrow> tokens s' a = 0
     \<or> (\<exists>t j. guard_on s t j a) \<or> (\<exists>t. loading s t a))"

definition effect :: "sys \<Rightarrow> sys \<Rightarrow> bool" where
  "effect s s' \<longleftrightarrow> heap_effect s s' \<and> thr_effect s s' \<and> token_effect s s' \<and> gc_same s s'"

lemma effect_keeps_res_inv:
  assumes inv: "res_inv s" and e: "heap_effect s s'" "thr_effect s s'"
    and p: "length (pending s') = length (pending s)"
  shows "res_inv s'"
proof -
  have n: "nshards s' = nshards s" using e(1) by (simp add: heap_effect_def)
  have old: "\<exists>y. obj_at s' b = Some y \<and> grows x y \<and> total y - total x = int (tokens s' b) - int (tokens s b)"
    if "obj_at s b = Some x" for b x using e(1) that by (simp add: heap_effect_def)
  have new: "case obj_at s' b of None \<Rightarrow> tokens s' b = 0 | Some y \<Rightarrow> new_ok s' b y"
    if "obj_at s b = None" for b using e(1) that by (simp add: heap_effect_def)
  have live: "length (shards y) = nshards s' \<and> total y = int (tokens s' b)" if y: "obj_at s' b = Some y" for b y
  proof (cases "obj_at s b")
    case None
    then show ?thesis using new [OF None] y by (simp add: new_ok_def)
  next
    case (Some x)
    then show ?thesis using old [OF Some] res_invD(2) [OF inv Some] y n by (auto simp: grows_def)
  qed
  have dead: "obj_at s b = None \<and> tokens s' b = 0" if d: "obj_at s' b = None" for b
  proof -
    have "obj_at s b = None" using old [of b] d by (cases "obj_at s b") auto
    then show ?thesis using new [of b] d by simp
  qed
  have noroute: "\<not> route s b" if "obj_at s' b = None" for b
    using dead [OF that] route_alive [OF inv] by blast
  have g: "\<not> guard_on s' t j b" if "obj_at s' b = None" for t j b
    using e(2) noroute [OF that] dead [OF that] res_invD(4) [OF inv, of b t j]
    unfolding thr_effect_def by blast
  have l: "\<not> loading s' t b" if "obj_at s' b = None" for t b
    using e(2) noroute [OF that] dead [OF that] res_invD(5) [OF inv, of b t]
    unfolding thr_effect_def by blast
  have backs: "\<exists>x. obj_at s' a = Some x \<and> weak_ref x = Some w"
    if y: "obj_at s' w = Some y" "back_ref y = Some a" for w y a
  proof (cases "obj_at s w")
    case None
    then show ?thesis using new [OF None] y by (simp add: new_ok_def)
  next
    case (Some y0)
    then have "back_ref y0 = Some a" using old [OF Some] y by (auto simp: grows_def)
    then obtain x where x: "obj_at s a = Some x" "weak_ref x = Some w"
      using res_invD(6) [OF inv Some] by blast
    then show ?thesis using old [OF x(1)] by (auto simp: grows_def)
  qed
  have uniq: "back_ref y = None \<or> back_ref y = Some a"
    if x: "obj_at s' a = Some x" "weak_ref x = Some w" and y: "obj_at s' w = Some y" for a x w y
  proof -
    have "\<forall>a y w. obj_at s' a = Some y \<longrightarrow> weak_ref y = Some w \<longrightarrow>
          (\<exists>x. obj_at s a = Some x \<and> weak_ref x = Some w)
          \<or> (\<exists>z. obj_at s w = None \<and> obj_at s' w = Some z \<and> back_ref z = Some a)"
      using e(1) by (simp add: heap_effect_def)
    then have "(\<exists>x. obj_at s a = Some x \<and> weak_ref x = Some w)
        \<or> (\<exists>z. obj_at s w = None \<and> obj_at s' w = Some z \<and> back_ref z = Some a)"
      using x by blast
    then consider x0 where "obj_at s a = Some x0" "weak_ref x0 = Some w"
      | "back_ref y = Some a"
      using y by auto
    then show ?thesis
    proof cases
      case 1
      obtain y0 where y0: "obj_at s w = Some y0" using weak_ref_alive(2) [OF inv 1] by blast
      then have "back_ref y = back_ref y0" using old [OF y0] y by (auto simp: grows_def)
      then show ?thesis using res_invD(8) [OF inv 1 y0] by simp
    qed simp
  qed
  have "\<forall>th\<in>set (thrs s'). thr_ok th" using e(2) by (simp add: thr_effect_def)
  then show ?thesis
    unfolding res_inv_def using n p res_invD(1) [OF inv] live dead g l backs uniq by auto
qed

section \<open>Observing updated states\<close>

lemma sys_update_simps [simp]:
  "nshards (put a x s) = nshards s" "handles (put a x s) = handles s" "cells (put a x s) = cells s"
  "thrs (put a x s) = thrs s" "pending (put a x s) = pending s" "tracked (put a x s) = tracked s"
  "at_cpc (put a x s) = at_cpc s" "todo (put a x s) = todo s" "hz (put a x s) = hz s"
  "tofree (put a x s) = tofree s" "length (heap (put a x s)) = length (heap s)"
  by (simp_all add: put_def)

lemma set_thr_simps [simp]:
  "nshards (set_thr t th s) = nshards s" "handles (set_thr t th s) = handles s"
  "cells (set_thr t th s) = cells s" "heap (set_thr t th s) = heap s"
  "thrs (set_thr t th s) = (thrs s)[t := th]" "pending (set_thr t th s) = pending s"
  "tracked (set_thr t th s) = tracked s" "at_cpc (set_thr t th s) = at_cpc s"
  "todo (set_thr t th s) = todo s" "hz (set_thr t th s) = hz s" "tofree (set_thr t th s) = tofree s"
  by (simp_all add: set_thr_def)

lemma add_handle_simps [simp]:
  "nshards (add_handle a s) = nshards s" "cells (add_handle a s) = cells s"
  "heap (add_handle a s) = heap s" "thrs (add_handle a s) = thrs s"
  "pending (add_handle a s) = pending s" "tracked (add_handle a s) = tracked s"
  "at_cpc (add_handle a s) = at_cpc s" "todo (add_handle a s) = todo s" "hz (add_handle a s) = hz s"
  "tofree (add_handle a s) = tofree s"
  by (simp_all add: add_handle_def)

lemma take_handle_simps [simp]:
  "nshards (take_handle a s) = nshards s" "cells (take_handle a s) = cells s"
  "heap (take_handle a s) = heap s" "thrs (take_handle a s) = thrs s"
  "pending (take_handle a s) = pending s" "tracked (take_handle a s) = tracked s"
  "at_cpc (take_handle a s) = at_cpc s" "todo (take_handle a s) = todo s"
  "hz (take_handle a s) = hz s" "tofree (take_handle a s) = tofree s"
  by (simp_all add: take_handle_def)

lemma handle_opt_simps [simp]:
  "add_handle_opt None s = s" "add_handle_opt (Some a) s = add_handle a s"
  "take_handle_opt None s = s" "take_handle_opt (Some a) s = take_handle a s"
  "has_handle s None" "has_handle s (Some a) \<longleftrightarrow> handles s a > 0"
  by (simp_all add: add_handle_opt_def take_handle_opt_def has_handle_def)

lemma obj_at_cong: "heap s' = heap s \<Longrightarrow> obj_at s' a = obj_at s a"
  by (simp add: obj_at_def)

lemma obj_at_same [simp]:
  "obj_at (set_thr t th s) a = obj_at s a" "obj_at (add_handle b s) a = obj_at s a"
  "obj_at (take_handle b s) a = obj_at s a" "obj_at (s\<lparr>cells := cs\<rparr>) a = obj_at s a"
  "obj_at (s\<lparr>thrs := ts\<rparr>) a = obj_at s a" "obj_at (s\<lparr>pending := ps\<rparr>) a = obj_at s a"
  "obj_at (s\<lparr>tracked := m\<rparr>) a = obj_at s a" "obj_at (s\<lparr>at_cpc := c\<rparr>) a = obj_at s a"
  "obj_at (s\<lparr>todo := l\<rparr>) a = obj_at s a" "obj_at (s\<lparr>hz := l\<rparr>) a = obj_at s a"
  "obj_at (s\<lparr>tofree := l\<rparr>) a = obj_at s a"
  by (simp_all add: obj_at_def)

lemma obj_at_less: "obj_at s a = Some x \<Longrightarrow> a < length (heap s)"
  by (simp add: obj_at_def split: if_splits)

lemma obj_at_put:
  "a < length (heap s) \<Longrightarrow> obj_at (put a x s) b = (if b = a then Some x else obj_at s b)"
  by (auto simp: obj_at_def put_def)

lemma heap_obj_at: "obj_at s a = Some x \<Longrightarrow> heap s ! a = Some x"
  by (simp add: obj_at_def split: if_splits)

lemma tokens_cong:
  "\<lbrakk>handles s' a = handles s a; cells s' = cells s; thrs s' = thrs s; heap s' = heap s\<rbrakk>
    \<Longrightarrow> tokens s' a = tokens s a"
  by (simp add: tokens_def)

lemma tokens_put:
  "\<lbrakk>obj_at s a = Some x; weak_ref y = weak_ref x\<rbrakk> \<Longrightarrow> tokens (put a y s) b = tokens s b"
  unfolding tokens_def put_def
  by (simp add: count_where_update_same [OF obj_at_less] heap_obj_at holds_weak_def)

lemma tokens_add_handle [simp]: "tokens (add_handle a s) b = tokens s b + (if b = a then 1 else 0)"
  by (simp add: tokens_def add_handle_def)

lemma tokens_take_handle:
  "handles s a > 0 \<Longrightarrow> tokens s b = tokens (take_handle a s) b + (if b = a then 1 else 0)"
  by (simp add: tokens_def take_handle_def)

lemma tokens_set_thr:
  "t < length (thrs s) \<Longrightarrow> tokens (set_thr t th s) b + (if at_pc (thrs s ! t) = LoadExit (Some b) then 1 else 0)
    = tokens s b + (if at_pc th = LoadExit (Some b) then 1 else 0)"
  using count_where_update [of t "thrs s" "\<lambda>th. at_pc th = LoadExit (Some b)" th]
  by (simp add: tokens_def)

lemma tokens_set_cell:
  "c < length (cells s) \<Longrightarrow> tokens (s\<lparr>cells := (cells s)[c := p]\<rparr>) b + (if cells s ! c = Some b then 1 else 0)
    = tokens s b + (if p = Some b then 1 else 0)"
  using count_where_update [of c "cells s" "\<lambda>q. q = Some b" p] by (simp add: tokens_def)

lemma on_shard_simps [simp]:
  "weak_ref (on_shard i f x) = weak_ref x" "back_ref (on_shard i f x) = back_ref x"
  "length (shards (on_shard i f x)) = length (shards x)"
  by (simp_all add: on_shard_def)

lemma total_on_shard:
  "i < length (shards x) \<Longrightarrow>
    total (on_shard i f x) = total x - acount (shards x ! i) + acount (f (shards x ! i))"
  using sum_list_update_int [of i "shards x" acount "f (shards x ! i)"]
  by (simp add: total_def on_shard_def)

lemma acounter_op_simps [simp]:
  "acount (a_increment c) = acount c + 1" "atag (a_increment c) = atag c"
  "acount (a_decremented c) = acount c - 1" "atag (a_decremented c)"
  "acount (a_clear_tag c) = acount c" "\<not> atag (a_clear_tag c)"
  by (cases c; simp)+

lemma nth_on_shard:
  "k < length (shards x) \<Longrightarrow>
    shards (on_shard i f x) ! k = (if k = i then f (shards x ! k) else shards x ! k)"
  by (simp add: on_shard_def nth_list_update)

lemma grows_on_shard:
  "grows x (on_shard i a_increment x)" "grows x (on_shard i a_decremented x)"
  by (auto simp: grows_def nth_on_shard)

lemma guard_on_cong: "thrs s' = thrs s \<Longrightarrow> guard_on s' t j a = guard_on s t j a"
  by (simp add: guard_on_def)

lemma loading_cong: "thrs s' = thrs s \<Longrightarrow> loading s' t a = loading s t a"
  by (simp add: loading_def)

section \<open>Effects\<close>

lemma gc_same_refl:
  assumes "tracked s' = tracked s" "at_cpc s' = at_cpc s" "todo s' = todo s" "hz s' = hz s"
    "tofree s' = tofree s" "pending s' = pending s"
    and "\<And>b. obj_at s b = None \<Longrightarrow> obj_at s' b = None"
  shows "gc_same s s'"
  unfolding gc_same_def using assms by (auto intro!: exI [of _ "[]"])

lemma thr_effect_same:
  assumes "res_inv s" and "thrs s' = thrs s"
  shows "thr_effect s s'"
  using assms by (auto simp: thr_effect_def res_inv_def guard_on_def loading_def published_def flagged_def)

lemma heap_effect_same:
  assumes inv: "res_inv s" and "nshards s' = nshards s" and h: "heap s' = heap s"
    and tok: "\<And>b. tokens s' b = tokens s b"
  shows "heap_effect s s'"
proof -
  have o: "obj_at s' b = obj_at s b" for b using h by (rule obj_at_cong)
  have "tokens s' b = 0" if "obj_at s b = None" for b using res_invD(3) [OF inv that] tok by simp
  then show ?thesis
    using assms(2) tok by (auto simp: heap_effect_def o weak_route_def route_def)
qed

lemma heap_effect_counter:
  assumes inv: "res_inv s" and x: "obj_at s a = Some x" and n: "nshards s' = nshards s"
    and o: "\<And>b. obj_at s' b = (if b = a then Some y else obj_at s b)"
    and g: "grows x y" "weak_ref y = weak_ref x"
    and tok: "\<And>b. int (tokens s' b) = int (tokens s b) + (if b = a then total y - total x else 0)"
  shows "heap_effect s s'"
proof -
  have dead: "tokens s' b = 0" if "obj_at s b = None" for b
    using res_invD(3) [OF inv that] tok [of b] x that by (cases "b = a") auto
  have old: "\<exists>z0. obj_at s b = Some z0 \<and> weak_ref z0 = weak_ref z \<and> back_ref z0 = back_ref z"
    if "obj_at s' b = Some z" for b z
    using that o [of b] g x by (auto simp: grows_def split: if_splits)
  have "weak_route s b" if w: "weak_route s' b" for b
    using w old unfolding weak_route_def by metis
  moreover have "\<exists>z0. obj_at s b = Some z0 \<and> weak_ref z0 = Some w"
    if "obj_at s' b = Some z" "weak_ref z = Some w" for b z w
    using old [OF that(1)] that(2) by auto
  ultimately show ?thesis
    unfolding heap_effect_def using n o x g(1) tok dead by (auto simp: route_def)
qed

lemma thr_effect_set:
  assumes inv: "res_inv s" and t: "t < length (thrs s)" and ts: "thrs s' = (thrs s)[t := th']"
    and ok: "thr_ok th'"
    and g: "\<And>j a. guards th' j = Some a \<Longrightarrow> route s a \<or> guards (thrs s ! t) j = Some a
      \<and> (published s t j a \<longrightarrow> slots th' j = \<lparr>mem = Some a, buffered = []\<rparr>)"
    and l: "\<And>a. at_pc th' = LoadInc a \<Longrightarrow> route s a \<or> at_pc (thrs s ! t) = LoadInc a
      \<and> (flagged s t \<longrightarrow> flag th' = \<lparr>mem = True, buffered = []\<rparr>)"
  shows "thr_effect s s'"
proof -
  have all: "\<forall>th\<in>set (thrs s'). thr_ok th"
    using inv ok set_update_subset_insert [of "thrs s" t th'] by (auto simp: ts res_inv_def)
  have g': "route s a \<or> guard_on s u j a \<and> (published s u j a \<longrightarrow> published s' u j a)"
    if "guard_on s' u j a" for u j a
    using that g [of j a] t by (cases "u = t") (auto simp: guard_on_def published_def ts)
  have l': "route s a \<or> loading s u a \<and> (flagged s u \<longrightarrow> flagged s' u)" if "loading s' u a" for u a
    using that l [of a] t by (cases "u = t") (auto simp: loading_def flagged_def ts)
  have "length (thrs s) \<le> length (thrs s')" by (simp add: ts)
  then show ?thesis unfolding thr_effect_def using all g' l' by blast
qed

lemma thr_step_effect:
  assumes inv: "res_inv s" and t: "t < length (thrs s)"
    and ok: "thr_ok th'"
    and exits: "\<And>a. at_pc th' = LoadExit (Some a) \<longleftrightarrow> at_pc (thrs s ! t) = LoadExit (Some a)"
    and g: "\<And>j a. guards th' j = Some a \<Longrightarrow> route s a \<or> guards (thrs s ! t) j = Some a
      \<and> (published s t j a \<longrightarrow> slots th' j = \<lparr>mem = Some a, buffered = []\<rparr>)"
    and l: "\<And>a. at_pc th' = LoadInc a \<Longrightarrow> route s a \<or> at_pc (thrs s ! t) = LoadInc a
      \<and> (flagged s t \<longrightarrow> flag th' = \<lparr>mem = True, buffered = []\<rparr>)"
  shows "effect s (set_thr t th' s)"
  unfolding effect_def
proof (intro conjI)
  have "tokens (set_thr t th' s) b = tokens s b" for b
    using tokens_set_thr [OF t, of th' b] exits [of b] by simp
  then show "heap_effect s (set_thr t th' s)" "token_effect s (set_thr t th' s)"
    by (auto simp: token_effect_def intro!: heap_effect_same [OF inv])
  show "thr_effect s (set_thr t th' s)" by (rule thr_effect_set [OF inv t _ ok g l]) simp_all
  show "gc_same s (set_thr t th' s)" by (rule gc_same_refl) simp_all
qed

end
