(* ===== verification/MutatorSteps.thy ===== *)
theory MutatorSteps
  imports Ownership
begin

text \<open>
  Every step of a thread, in a state with the resource invariant: it never touches freed memory,
  never panics (except a release of hazard data that is still in use), and has an \<open>effect\<close>
  within the bounds of \<open>Ownership\<close>.
\<close>

section \<open>Good outcomes\<close>

definition good :: "sys \<Rightarrow> sys outcome \<Rightarrow> bool" where
  "good s r \<longleftrightarrow> (case r of Next s' \<Rightarrow> effect s s' | Disabled \<Rightarrow> True | _ \<Rightarrow> False)"

lemma good_simps [simp]: "good s Disabled" "good s (Next s') = effect s s'" "\<not> good s Panic" "\<not> good s Fault"
  by (simp_all add: good_def)

lemma effect_refl: "res_inv s \<Longrightarrow> effect s s"
  by (simp add: effect_def heap_effect_same thr_effect_same gc_same_refl token_effect_def)

lemma view_simps [simp]:
  "view (write_to v l) = v" "view (drain l) = view l" "view (new_location v) = v"
  "view \<lparr>mem = v, buffered = []\<rparr> = v"
  by (simp_all add: view_def write_to_def drain_def new_location_def)

lemma view_commit [simp]: "view (commit l) = view l"
  by (cases "buffered l") (simp_all add: view_def commit_def)

lemma settled_simps [simp]:
  "commit \<lparr>mem = v, buffered = []\<rparr> = \<lparr>mem = v, buffered = []\<rparr>"
  "drain \<lparr>mem = v, buffered = []\<rparr> = \<lparr>mem = v, buffered = []\<rparr>"
  by (simp_all add: commit_def drain_def)

lemma good_deref:
  assumes "obj_at s a = Some x" and "good s (k x)"
  shows "good s (deref s a k)"
  using assms by (simp add: deref_def)

lemma good_thr_step:
  assumes "\<And>th. \<lbrakk>t < length (thrs s); thrs s ! t = th; is_used th\<rbrakk> \<Longrightarrow> good s (k th)"
  shows "good s (thr_step t s k)"
  using assms by (simp add: thr_step_def)

lemma good_read_ptr:
  assumes inv: "res_inv s"
    and k: "\<And>p. (\<And>a. p = Some a \<Longrightarrow> route s a) \<Longrightarrow> good s (k p)"
  shows "good s (read_ptr s r k)"
proof (cases r)
  case (Cell c)
  have "route s a" if "c < length (cells s)" "cells s ! c = Some a" for a
  proof -
    have "count_where (\<lambda>q. q = Some a) (cells s) > 0" using that by (auto simp: count_where_pos in_set_conv_nth)
    then show ?thesis by (simp add: route_def tokens_def)
  qed
  then show ?thesis using k [of "cells s ! c"] by (simp add: read_ptr_def Cell)
next
  case (BackRef w)
  show ?thesis
  proof (cases "handles s w > 0")
    case True
    then obtain y where y: "obj_at s w = Some y" using handle_alive [OF inv] by blast
    have "route s a" if "back_ref y = Some a" for a
      using res_invD(6) [OF inv y that] y that by (auto simp: route_def weak_route_def)
    then show ?thesis using k [of "back_ref y"] y True by (simp add: read_ptr_def BackRef good_deref)
  next
    case False
    then show ?thesis by (simp add: read_ptr_def BackRef)
  qed
qed

section \<open>Steps that change one thread\<close>

lemmas thr_ok_simps = thr_ok_def in_critical_section_def slot_value_def

lemma thr_step_good:
  assumes "res_inv s" and "t < length (thrs s)"
    and "thr_ok (thrs s ! t) \<Longrightarrow> thr_ok th'"
    and "\<And>a. at_pc th' = LoadExit (Some a) \<longleftrightarrow> at_pc (thrs s ! t) = LoadExit (Some a)"
    and "\<And>j a. \<lbrakk>thr_ok (thrs s ! t); guards th' j = Some a\<rbrakk> \<Longrightarrow>
      route s a \<or> guards (thrs s ! t) j = Some a \<and> (slots (thrs s ! t) j = \<lparr>mem = Some a, buffered = []\<rparr>
        \<longrightarrow> slots th' j = \<lparr>mem = Some a, buffered = []\<rparr>)"
    and "\<And>a. \<lbrakk>thr_ok (thrs s ! t); at_pc th' = LoadInc a\<rbrakk> \<Longrightarrow> route s a \<or> at_pc (thrs s ! t) = LoadInc a
      \<and> (flag (thrs s ! t) = \<lparr>mem = True, buffered = []\<rparr> \<longrightarrow> flag th' = \<lparr>mem = True, buffered = []\<rparr>)"
  shows "good s (Next (set_thr t th' s))"
proof -
  have ok: "thr_ok (thrs s ! t)" using res_invD(7) [OF assms(1,2)] .
  show ?thesis
    unfolding good_simps
    by (rule thr_step_effect [OF assms(1,2) assms(3) [OF ok] assms(4)])
      (use assms(5,6) [OF ok] in \<open>auto simp: published_def flagged_def\<close>)
qed

lemma good_claim: "res_inv s \<Longrightarrow> good s (hazard_data_claim t s)"
  unfolding hazard_data_claim_def
  by (auto simp del: good_simps(2) intro!: thr_step_good simp: thr_ok_simps split: pc.splits)

lemma good_slot_mem: "res_inv s \<Longrightarrow> good s (slot_reaches_memory t j s)"
  unfolding slot_reaches_memory_def
  by (auto simp del: good_simps(2) intro!: thr_step_good simp: thr_ok_simps split: pc.splits)

lemma good_flag_mem: "res_inv s \<Longrightarrow> good s (flag_reaches_memory t s)"
  unfolding flag_reaches_memory_def
  by (auto simp del: good_simps(2) intro!: thr_step_good simp: thr_ok_simps split: pc.splits)

lemma good_load_begin: "res_inv s \<Longrightarrow> good s (load_begin t r s)"
  unfolding load_begin_def
  by (rule good_thr_step) (auto simp del: good_simps(2) intro!: thr_step_good simp: thr_ok_simps)

lemma good_enter: "res_inv s \<Longrightarrow> good s (reader_critical_section_enter t s)"
  unfolding reader_critical_section_enter_def
proof (rule good_thr_step, goal_cases)
  case (1 th)
  then have "thr_ok th" using res_invD(7) by blast
  then show ?case
    using 1 by (auto simp del: good_simps(2) intro!: thr_step_good simp: thr_ok_simps split: pc.splits)
qed

lemma good_load_ptr: "res_inv s \<Longrightarrow> good s (load_atomic_ptr t s)"
  unfolding load_atomic_ptr_def
proof (rule good_thr_step, goal_cases)
  case (1 th)
  show ?case
  proof (cases "at_pc th")
    case (LoadPtr r)
    have "good s (Next (set_thr t (th\<lparr>at_pc := (case p of None \<Rightarrow> LoadExit None | Some a \<Rightarrow> LoadInc a)\<rparr>) s))"
      if "\<And>a. p = Some a \<Longrightarrow> route s a" for p
      using that 1 LoadPtr
      by (intro thr_step_good) (auto simp: thr_ok_simps split: option.splits)
    then show ?thesis using LoadPtr good_read_ptr [OF 1(1)] by simp
  qed simp_all
qed

lemma good_preload: "res_inv s \<Longrightarrow> good s (borrow_preload t r s)"
  unfolding borrow_preload_def
proof (rule good_thr_step, goal_cases)
  case (1 th)
  have "good s (Next (set_thr t (th\<lparr>at_pc := (case p of None \<Rightarrow> Idle | Some a \<Rightarrow> BorrowPub r a)\<rparr>) s))"
    if "at_pc th = Idle" for p
    using that 1 by (intro thr_step_good) (auto simp: thr_ok_simps split: option.splits)
  then show ?case using good_read_ptr [OF 1(1)] by simp
qed

lemma good_publish: "res_inv s \<Longrightarrow> good s (try_publish t s)"
  unfolding try_publish_def
proof (rule good_thr_step, goal_cases)
  case (1 th)
  have ok: "thr_ok th" using 1 res_invD(7) by blast
  show ?case
  proof (cases "at_pc th")
    case (BorrowPub r a)
    show ?thesis
    proof (cases "first_null_slot th")
      case None
      then show ?thesis
        using 1 BorrowPub
        by (auto simp del: good_simps(2) intro!: thr_step_good simp: thr_ok_simps)
    next
      case (Some j)
      then have j: "view (slots th j) = None" "j < HZ_PTR_SLOT_COUNT"
        by (auto simp: first_null_slot_def find_Some_iff)
      then have g: "guards th j = None" using ok BorrowPub by (simp add: thr_ok_simps)
      have "good s (Next (set_thr t (th\<lparr>at_pc := BorrowReload r a j,
          slots := (slots th)(j := write_to (Some a) (slots th j))\<rparr>) s))"
        using 1 BorrowPub j g by (intro thr_step_good) (auto simp: thr_ok_simps)
      then show ?thesis using BorrowPub Some by simp
    qed
  qed simp_all
qed

lemma good_reload: "res_inv s \<Longrightarrow> good s (borrow_reload t s)"
  unfolding borrow_reload_def
proof (rule good_thr_step, goal_cases)
  case (1 th)
  have ok: "thr_ok th" using 1 res_invD(7) by blast
  show ?case
  proof (cases "at_pc th")
    case (BorrowReload r a j)
    have "good s (if p = Some a
         then Next (set_thr t (th\<lparr>at_pc := Idle, guards := (guards th)(j := Some a)\<rparr>) s)
         else Next (set_thr t (th\<lparr>at_pc := LoadStart r,
                slots := (slots th)(j := write_to None (slots th j))\<rparr>) s))"
      if "\<And>b. p = Some b \<Longrightarrow> route s b" for p
    proof (cases "p = Some a")
      case True
      have "good s (Next (set_thr t (th\<lparr>at_pc := Idle, guards := (guards th)(j := Some a)\<rparr>) s))"
        using 1 BorrowReload ok that [OF True]
        by (intro thr_step_good) (auto simp: thr_ok_simps split: if_splits)
      then show ?thesis using True by simp
    next
      case False
      have "good s (Next (set_thr t (th\<lparr>at_pc := LoadStart r,
                slots := (slots th)(j := write_to None (slots th j))\<rparr>) s))"
        using 1 BorrowReload ok by (intro thr_step_good) (auto simp: thr_ok_simps)
      then show ?thesis using False by simp
    qed
    then show ?thesis using BorrowReload good_read_ptr [OF 1(1)] by simp
  qed simp_all
qed

lemma good_guard_drop: "res_inv s \<Longrightarrow> good s (guard_drop t j s)"
  unfolding guard_drop_def
proof (rule good_thr_step, goal_cases)
  case (1 th)
  then show ?case
    by (auto simp del: good_simps(2) intro!: thr_step_good simp: thr_ok_simps
        split: option.splits if_splits)
qed

section \<open>New threads and released hazard data\<close>

lemma good_push: "res_inv s \<Longrightarrow> good s (hazard_data_push s)"
proof -
  assume inv: "res_inv s"
  let ?s = "s\<lparr>thrs := thrs s @ [new_thr]\<rparr>"
  have "tokens ?s b = tokens s b" for b by (simp add: tokens_def new_thr_def)
  then have "heap_effect s ?s" by (intro heap_effect_same [OF inv]) simp_all
  moreover have "thr_ok new_thr" by (simp add: thr_ok_simps new_thr_def)
  then have "thr_effect s ?s"
    using inv by (auto simp: thr_effect_def guard_on_def loading_def published_def flagged_def
        nth_append new_thr_def res_inv_def)
  moreover have "gc_same s ?s" by (rule gc_same_refl) simp_all
  moreover have "token_effect s ?s"
    using \<open>\<And>b. tokens ?s b = tokens s b\<close> by (simp add: token_effect_def)
  ultimately show ?thesis by (simp add: hazard_data_push_def effect_def)
qed

text \<open>Releasing panics at most while a guard is held.\<close>

lemma release_outcome:
  assumes inv: "res_inv s"
  shows "good s (release_hazard_data t s)
    \<or> release_hazard_data t s = Panic \<and> (\<exists>j<HZ_PTR_SLOT_COUNT. \<exists>a. guard_on s t j a)"
proof (cases "t < length (thrs s) \<and> is_used (thrs s ! t) \<and> at_pc (thrs s ! t) = Idle")
  case True
  let ?th = "thrs s ! t"
  have ok: "thr_ok ?th" using res_invD(7) [OF inv] True by blast
  then have f: "\<not> view (flag ?th)" and sl: "\<And>j. view (slots ?th j) = guards ?th j"
    using True by (simp_all add: thr_ok_simps)
  have "good s (Next (set_thr t (?th\<lparr>slots := \<lambda>j. drain (slots ?th j), flag := drain (flag ?th),
            is_used := False\<rparr>) s))"
    using inv True by (intro thr_step_good) (auto simp: thr_ok_simps)
  then show ?thesis
    using True f sl by (auto simp: release_hazard_data_def thr_step_def guard_on_def)
next
  case False
  then show ?thesis by (auto simp: release_hazard_data_def thr_step_def)
qed

section \<open>Steps that change a counter\<close>

lemma counter_step:
  assumes inv: "res_inv s" and x: "obj_at s a = Some x" and i: "i < nshards s"
    and f: "f = a_increment \<and> d = 1 \<or> f = a_decremented \<and> d = -1"
    and src: "tokens s a > 0 \<or> (\<exists>t j. guard_on s t j a) \<or> (\<exists>t. loading s t a)"
    and s': "nshards s' = nshards s" "heap s' = heap (put a (on_shard i f x) s)"
    and tok: "\<And>b. int (tokens s' b) = int (tokens s b) + (if b = a then d else 0)"
    and thr: "thr_effect s s'"
    and gc: "tracked s' = tracked s" "at_cpc s' = at_cpc s" "todo s' = todo s" "hz s' = hz s"
      "tofree s' = tofree s" "pending s' = pending s"
  shows "effect s s'"
proof -
  let ?y = "on_shard i f x"
  have o: "obj_at s' b = (if b = a then Some ?y else obj_at s b)" for b
    using obj_at_put [OF obj_at_less [OF x], of ?y b] obj_at_cong [OF s'(2), of b] by simp
  have len: "i < length (shards x)" using res_invD(2) [OF inv x] i by simp
  have g: "grows x ?y" using f grows_on_shard [of x i] by auto
  have d: "total ?y - total x = d" using total_on_shard [OF len, of f] f by auto
  have "heap_effect s s'"
    by (rule heap_effect_counter [OF inv x s'(1) o g]) (simp_all add: d tok)
  moreover have "gc_same s s'" by (rule gc_same_refl [OF gc]) (use o x in auto)
  moreover have "token_effect s s'"
    unfolding token_effect_def
  proof (intro allI impI)
    fix b
    assume b: "obj_at s b \<noteq> None" "tokens s b = 0"
    show "tokens s' b = 0 \<or> (\<exists>t j. guard_on s t j b) \<or> (\<exists>t. loading s t b)"
      using src b tok [of b] by (cases "b = a") auto
  qed
  ultimately show ?thesis using thr by (simp add: effect_def)
qed

lemma handle_token: "handles s a > 0 \<Longrightarrow> tokens s a > 0"
  by (simp add: tokens_def)

lemma increment_with_handle:
  assumes inv: "res_inv s" and x: "obj_at s a = Some x" and i: "i < nshards s"
    and src: "tokens s a > 0 \<or> (\<exists>t j. guard_on s t j a) \<or> (\<exists>t. loading s t a)"
  shows "good s (Next (add_handle a (put a (on_shard i a_increment x) s)))"
proof -
  have "tokens (put a (on_shard i a_increment x) s) b = tokens s b" for b
    by (rule tokens_put [OF x]) simp
  then show ?thesis
    unfolding good_simps
    by (intro counter_step [OF inv x i _ src, where d = 1 and f = a_increment] thr_effect_same inv)
      simp_all
qed

lemma good_clone: "res_inv s \<Longrightarrow> good s (sdarc_clone a i s)"
  using handle_alive [of s a] increment_with_handle handle_token [of s a]
  by (auto simp: sdarc_clone_def deref_def simp del: good_simps(2))

lemma good_guard_clone: "res_inv s \<Longrightarrow> good s (guard_clone t j i s)"
  unfolding guard_clone_def
proof (rule good_thr_step, goal_cases)
  case (1 th)
  have "obj_at s a \<noteq> None \<and> guard_on s t j a" if "guards th j = Some a" for a
    using res_invD(4) [OF 1(1), of a t j] 1 that by (auto simp: guard_on_def)
  then show ?case
    using increment_with_handle [OF 1(1)] by (fastforce simp: deref_def simp del: good_simps(2) split: option.split)
qed

lemma good_downgrade_clone: "res_inv s \<Longrightarrow> good s (downgrade_clone a i s)"
proof -
  assume inv: "res_inv s"
  have "obj_at s w \<noteq> None \<and> tokens s w > 0" if "obj_at s a = Some x" "weak_ref x = Some w" for x w
  proof -
    have "holds_weak w (heap s ! a)" "a < length (heap s)"
      using that heap_obj_at [OF that(1)] obj_at_less by (auto simp: holds_weak_def)
    then have "count_where (holds_weak w) (heap s) > 0" by (auto simp: count_where_pos intro!: nth_mem)
    then show ?thesis using res_invD(3) [OF inv, of w] by (auto simp: tokens_def)
  qed
  then show ?thesis
    using handle_alive [OF inv, of a] increment_with_handle [OF inv]
    by (fastforce simp: downgrade_clone_def deref_def simp del: good_simps(2) split: option.split)
qed

lemma good_drop: "res_inv s \<Longrightarrow> good s (sdarc_drop a i s)"
proof -
  assume inv: "res_inv s"
  have "good s (Next (take_handle a (put a (on_shard i a_decremented x) s)))"
    if h: "handles s a > 0" and i: "i < nshards s" and x: "obj_at s a = Some x" for x
  proof -
    let ?s = "put a (on_shard i a_decremented x) s"
    have "tokens ?s b = tokens s b" for b by (rule tokens_put [OF x]) simp
    moreover have "tokens ?s b = tokens (take_handle a ?s) b + (if b = a then 1 else 0)" for b
      by (rule tokens_take_handle) (simp add: h)
    ultimately have "tokens s b = tokens (take_handle a ?s) b + (if b = a then 1 else 0)" for b by metis
    then have tok: "int (tokens (take_handle a ?s) b) = int (tokens s b) + (if b = a then -1 else 0)" for b
      by (simp add: of_nat_diff split: if_splits)
    show ?thesis
      unfolding good_simps
      by (intro counter_step [OF inv x i, where d = "-1" and f = a_decremented] thr_effect_same inv tok)
        (use handle_token [OF h] in simp_all)
  qed
  then show ?thesis
    using handle_alive [OF inv, of a] by (fastforce simp: sdarc_drop_def deref_def simp del: good_simps(2))
qed

lemma good_load_inc: "res_inv s \<Longrightarrow> good s (load_increment t i s)"
  unfolding load_increment_def
proof (rule good_thr_step, goal_cases)
  case (1 th)
  show ?case
  proof (cases "at_pc th")
    case (LoadInc a)
    have ok: "thr_ok th" using 1 res_invD(7) by blast
    have "obj_at s a \<noteq> None" using res_invD(5) [OF 1(1), of a t] 1 LoadInc by (auto simp: loading_def)
    then obtain x where x: "obj_at s a = Some x" by blast
    let ?p = "put a (on_shard i a_increment x) s" and ?th = "th\<lparr>at_pc := LoadExit (Some a)\<rparr>"
    have same: "tokens ?p b = tokens s b" for b by (rule tokens_put [OF x]) simp
    have tok: "int (tokens (set_thr t ?th ?p) b) = int (tokens s b) + (if b = a then 1 else 0)" for b
      using tokens_set_thr [of t ?p ?th b] same [of b] 1 LoadInc by (auto split: if_splits)
    have "thr_effect s (set_thr t ?th ?p)"
      using 1 LoadInc ok
      by (intro thr_effect_set [OF 1(1) 1(2), where th' = ?th])
        (auto simp: thr_ok_simps published_def)
    then have "good s (Next (set_thr t ?th ?p))" if "i < nshards s"
      unfolding good_simps
      by (intro counter_step [OF 1(1) x that, where d = 1 and f = a_increment] tok)
        (use 1 LoadInc in \<open>auto simp: loading_def\<close>)
    then show ?thesis using LoadInc x by (simp add: deref_def del: good_simps(2))
  qed simp_all
qed

section \<open>Steps that move tokens\<close>

lemma same_heap_step:
  assumes "res_inv s" and "nshards s' = nshards s" "heap s' = heap s"
    and "\<And>b. tokens s' b = tokens s b" and "thr_effect s s'"
    and "tracked s' = tracked s" "at_cpc s' = at_cpc s" "todo s' = todo s" "hz s' = hz s"
      "tofree s' = tofree s" "pending s' = pending s"
  shows "good s (Next s')"
  unfolding good_simps effect_def
  using assms obj_at_cong [OF assms(3)]
  by (auto simp: token_effect_def intro!: heap_effect_same gc_same_refl)

lemma good_load_exit: "res_inv s \<Longrightarrow> good s (reader_critical_section_exit t s)"
  unfolding reader_critical_section_exit_def
proof (rule good_thr_step, goal_cases)
  case (1 th)
  show ?case
  proof (cases "at_pc th")
    case (LoadExit p)
    have ok: "thr_ok th" using 1 res_invD(7) by blast
    let ?th = "th\<lparr>at_pc := Idle, flag := write_to False (flag th)\<rparr>"
    let ?s = "add_handle_opt p (set_thr t ?th s)"
    have tok: "tokens ?s b = tokens s b" for b
      using tokens_set_thr [of t s ?th b] 1 LoadExit by (cases p) (auto split: if_splits)
    have ts: "thrs ?s = (thrs s)[t := ?th]" by (cases p) simp_all
    have "thr_effect s ?s"
      using 1 LoadExit ok ts
      by (intro thr_effect_set [OF 1(1) 1(2) ts]) (auto simp: thr_ok_simps published_def)
    moreover have "nshards ?s = nshards s" "heap ?s = heap s" "tracked ?s = tracked s"
      "at_cpc ?s = at_cpc s" "todo ?s = todo s" "hz ?s = hz s" "tofree ?s = tofree s"
      "pending ?s = pending s"
      by (cases p; simp)+
    ultimately have "good s (Next ?s)" by (intro same_heap_step [OF 1(1)] tok) simp_all
    then show ?thesis using LoadExit by simp
  qed simp_all
qed

lemma good_swap: "res_inv s \<Longrightarrow> good s (ptr_swap c new s)"
proof -
  assume inv: "res_inv s"
  let ?c = "s\<lparr>cells := (cells s)[c := new]\<rparr>"
  let ?s = "add_handle_opt (cells s ! c) (take_handle_opt new ?c)"
  have "good s (Next ?s)" if c: "c < length (cells s)" and h: "has_handle s new"
  proof -
    have take: "tokens ?c b = tokens (take_handle_opt new ?c) b + (if new = Some b then 1 else 0)" for b
      using h tokens_take_handle [of ?c "the new" b] by (cases new) auto
    have add: "tokens ?s b = tokens (take_handle_opt new ?c) b + (if cells s ! c = Some b then 1 else 0)" for b
      by (cases "cells s ! c") auto
    have tok: "tokens ?s b = tokens s b" for b
      using tokens_set_cell [OF c, of new b] take [of b] add [of b] by (auto split: if_splits)
    have "thrs ?s = thrs s" "nshards ?s = nshards s" "heap ?s = heap s" "tracked ?s = tracked s"
      "at_cpc ?s = at_cpc s" "todo ?s = todo s" "hz ?s = hz s" "tofree ?s = tofree s"
      "pending ?s = pending s"
      by (cases new; cases "cells s ! c"; simp)+
    then show ?thesis by (intro same_heap_step [OF inv] tok thr_effect_same [OF inv]) simp_all
  qed
  then show ?thesis by (simp add: ptr_swap_def del: good_simps(2))
qed

lemma good_compare_and_set: "res_inv s \<Longrightarrow> good s (compare_and_set c m new i s)"
proof -
  assume inv: "res_inv s"
  let ?c = "s\<lparr>cells := (cells s)[c := new]\<rparr>"
  have add: "tokens (add_handle_opt m s') b = tokens s' b + (if m = Some b then 1 else 0)" for s' b
    by (cases m) auto
  have rest: "thrs (add_handle_opt m s') = thrs s'" "nshards (add_handle_opt m s') = nshards s'"
    "heap (add_handle_opt m s') = heap s'" "tracked (add_handle_opt m s') = tracked s'"
    "at_cpc (add_handle_opt m s') = at_cpc s'" "todo (add_handle_opt m s') = todo s'"
    "hz (add_handle_opt m s') = hz s'" "tofree (add_handle_opt m s') = tofree s'"
    "pending (add_handle_opt m s') = pending s'" for s'
    by (cases m; simp)+
  have "good s (case cas_increment new i ?c of Next s' \<Rightarrow> Next (add_handle_opt m s') | r \<Rightarrow> r)"
    if c: "c < length (cells s)" and h: "has_handle s new" and i: "i < nshards s" and eq: "cells s ! c = m"
  proof (cases new)
    case None
    have "tokens (add_handle_opt m ?c) b = tokens s b" for b
      using tokens_set_cell [OF c, of new b] add [of ?c b] None eq by (auto split: if_splits)
    then have "good s (Next (add_handle_opt m ?c))"
      by (intro same_heap_step [OF inv] thr_effect_same [OF inv]) (simp_all add: rest)
    then show ?thesis by (simp add: cas_increment_def None)
  next
    case (Some a)
    then obtain x where x: "obj_at s a = Some x" using h handle_alive [OF inv, of a] by auto
    let ?p = "put a (on_shard i a_increment x) ?c"
    have "tokens ?p b = tokens ?c b" for b by (rule tokens_put) (simp_all add: x)
    then have tok: "int (tokens (add_handle_opt m ?p) b) = int (tokens s b) + (if b = a then 1 else 0)" for b
      using tokens_set_cell [OF c, of new b] add [of ?p b] Some eq by (auto split: if_splits)
    have "heap (add_handle_opt m ?p) = heap (put a (on_shard i a_increment x) s)"
      by (simp add: rest put_def)
    then have "good s (Next (add_handle_opt m ?p))"
      unfolding good_simps
      by (intro counter_step [OF inv x i, where d = 1 and f = a_increment] tok thr_effect_same inv)
        (use h Some handle_token [of s a] in \<open>simp_all add: rest\<close>)
    then show ?thesis using x by (simp add: cas_increment_def Some deref_def)
  qed
  then show ?thesis
    using effect_refl [OF inv] by (simp add: compare_and_set_def cas_exchange_def)
qed

section \<open>New objects\<close>

lemma total_new_obj: "i < n \<Longrightarrow> total (new_obj n i p) = 1"
proof -
  assume i: "i < n"
  have z: "sum_list (map acount (replicate n a_new)) = 0" by (induction n) (simp_all add: a_new_def)
  then show ?thesis
    using sum_list_update_int [of i "replicate n a_new" acount "a_increment a_new"] i
    by (simp add: total_def new_obj_def a_new_def)
qed

lemma new_obj_simps [simp]:
  "length (shards (new_obj n i p)) = n" "weak_ref (new_obj n i p) = None" "back_ref (new_obj n i p) = p"
  by (simp_all add: new_obj_def)

lemma mset_registered:
  "j < length ps \<Longrightarrow> mset (concat (ps[j := ps ! j @ [a]])) = mset (concat ps) + {#a#}"
  using sum_list_map_update [of j ps mset "ps ! j @ [a]"] by (simp add: mset_concat)

lemma registered_simps [simp]:
  "nshards (on_new_sdarc_allocated j a s) = nshards s" "heap (on_new_sdarc_allocated j a s) = heap s"
  "handles (on_new_sdarc_allocated j a s) = handles s" "cells (on_new_sdarc_allocated j a s) = cells s"
  "thrs (on_new_sdarc_allocated j a s) = thrs s" "tracked (on_new_sdarc_allocated j a s) = tracked s"
  "at_cpc (on_new_sdarc_allocated j a s) = at_cpc s" "todo (on_new_sdarc_allocated j a s) = todo s"
  "hz (on_new_sdarc_allocated j a s) = hz s" "tofree (on_new_sdarc_allocated j a s) = tofree s"
  "length (pending (on_new_sdarc_allocated j a s)) = length (pending s)"
  "obj_at (on_new_sdarc_allocated j a s) b = obj_at s b"
  "tokens (on_new_sdarc_allocated j a s) b = tokens s b"
  by (simp_all add: on_new_sdarc_allocated_def tokens_def)

lemma gc_same_new:
  assumes "tracked s' = tracked s" "at_cpc s' = at_cpc s" "todo s' = todo s" "hz s' = hz s"
    "tofree s' = tofree s" "pending s' = (pending s)[j := pending s ! j @ [a]]"
    and "j < length (pending s)" and "obj_at s a = None"
    and "\<And>b. obj_at s b = None \<Longrightarrow> obj_at s' b \<noteq> None \<longleftrightarrow> b = a"
  shows "gc_same s s'"
  unfolding gc_same_def using assms mset_registered [OF assms(7), of a] by (auto intro!: exI [of _ "[a]"])

lemma tokens_put_new:
  "\<lbrakk>a < length (heap s); heap s ! a = None; weak_ref y = None\<rbrakk> \<Longrightarrow> tokens (put a y s) b = tokens s b"
  unfolding tokens_def put_def by (simp add: count_where_update_same holds_weak_def)

lemma good_new: "res_inv s \<Longrightarrow> good s (sdarc_new a i j s)"
proof -
  assume inv: "res_inv s"
  let ?y = "new_obj (nshards s) i None"
  let ?s = "add_handle a (on_new_sdarc_allocated j a (put a ?y s))"
  have "effect s ?s" if a: "a < length (heap s)" "heap s ! a = None" and i: "i < nshards s" and j: "j < nshards s"
  proof -
    have o: "obj_at ?s b = (if b = a then Some ?y else obj_at s b)" for b
      using obj_at_put [OF a(1), of ?y b] by simp
    have none: "obj_at s a = None" using a by (simp add: obj_at_def)
    have tok: "tokens ?s b = tokens s b + (if b = a then 1 else 0)" for b
      using tokens_put_new [OF a, of ?y b] by simp
    have dead: "tokens s b = 0" if "obj_at s b = None" for b using res_invD(3) [OF inv that] .
    have "weak_route s b" if "obj_at s b \<noteq> None" "weak_route ?s b" for b
      using that none o by (auto simp: weak_route_def split: if_splits)
    then have "heap_effect s ?s"
      unfolding heap_effect_def using o none tok dead i
      by (auto simp: new_ok_def total_new_obj route_def)
    moreover have "gc_same s ?s"
      using o none j res_invD(1) [OF inv]
      by (intro gc_same_new [where a = a and j = j]) (auto simp: on_new_sdarc_allocated_def)
    moreover have "token_effect s ?s" using tok none by (auto simp: token_effect_def)
    ultimately show ?thesis using thr_effect_same [OF inv] by (simp add: effect_def)
  qed
  then show ?thesis by (simp add: sdarc_new_def)
qed

lemma good_downgrade_init: "res_inv s \<Longrightarrow> good s (downgrade_init a w i j s)"
proof -
  assume inv: "res_inv s"
  let ?y = "new_obj (nshards s) i (Some a)"
  have "effect s (on_new_sdarc_allocated j w (put a (x\<lparr>weak_ref := Some w\<rparr>) (put w ?y s)))" (is "effect s ?s")
    if h: "handles s a > 0" and w: "w < length (heap s)" "heap s ! w = None" and i: "i < nshards s"
      and j: "j < nshards s" and x: "obj_at s a = Some x" and wr: "weak_ref x = None" for x
  proof -
    let ?x = "x\<lparr>weak_ref := Some w\<rparr>"
    have none: "obj_at s w = None" using w by (simp add: obj_at_def)
    have aw: "a \<noteq> w" using none x by auto
    have alen: "a < length (heap (put w ?y s))" using obj_at_less [OF x] by simp
    have o: "obj_at ?s b = (if b = a then Some ?x else if b = w then Some ?y else obj_at s b)" for b
      using obj_at_put [OF alen, of ?x b] obj_at_put [OF w(1), of ?y b] by simp
    have "heap (put w ?y s) ! a = Some x" using heap_obj_at [OF x] aw by (simp add: put_def)
    then have "count_where (holds_weak b) (heap (put a ?x (put w ?y s)))
        = count_where (holds_weak b) (heap (put w ?y s)) + (if b = w then 1 else 0)" for b
      using count_where_update [OF alen, of "holds_weak b" "Some ?x"] wr
      by (auto simp: put_def holds_weak_def split: if_splits)
    then have tok: "tokens ?s b = tokens s b + (if b = w then 1 else 0)" for b
      using tokens_put_new [OF w, of ?y b] by (simp add: tokens_def)
    have dead: "tokens s b = 0" if "obj_at s b = None" for b using res_invD(3) [OF inv that] .
    have pos: "tokens s a > 0" using h by (simp add: tokens_def)
    have nowref: "weak_ref z \<noteq> Some w" if "obj_at s b = Some z" for b z
    proof
      assume "weak_ref z = Some w"
      then have "holds_weak w (heap s ! b)" "b < length (heap s)"
        using heap_obj_at [OF that] obj_at_less [OF that] by (auto simp: holds_weak_def)
      then have "count_where (holds_weak w) (heap s) > 0" by (auto simp: count_where_pos intro!: nth_mem)
      then show False using dead [OF none] by (simp add: tokens_def)
    qed
    have "route s b" if live: "obj_at s b \<noteq> None" and wr': "weak_route ?s b" for b
    proof (cases "b = a")
      case True
      then show ?thesis using pos by (simp add: route_def)
    next
      case False
      obtain v z z' where z': "obj_at ?s b = Some z" "weak_ref z = Some v" "obj_at ?s v = Some z'"
          "back_ref z' = Some b"
        using wr' unfolding weak_route_def by blast
      have z: "obj_at s b = Some z" "weak_ref z = Some v"
        using z'(1,2) live none False by (auto simp only: o split: if_splits)
      then have "v \<noteq> w" using nowref by blast
      then obtain z0 where "obj_at s v = Some z0" "back_ref z0 = Some b"
        using z'(3,4) x unfolding o by (auto split: if_splits)
      then show ?thesis using z by (auto simp: route_def weak_route_def)
    qed
    moreover have "grows x ?x" "total ?x = total x" using wr by (auto simp: grows_def total_def)
    ultimately have "heap_effect s ?s"
      unfolding heap_effect_def using o none tok dead i aw x
      by (auto simp: new_ok_def total_new_obj)
    moreover have "gc_same s ?s"
      using o none j res_invD(1) [OF inv] x
      by (intro gc_same_new [where a = w and j = j]) (auto simp: on_new_sdarc_allocated_def)
    moreover have "token_effect s ?s" using tok none unfolding token_effect_def by auto
    ultimately show ?thesis using thr_effect_same [OF inv] by (simp add: effect_def)
  qed
  then show ?thesis
    using handle_alive [OF inv, of a] by (auto simp: downgrade_init_def deref_def)
qed

lemma good_sdarc_deref: "res_inv s \<Longrightarrow> good s (sdarc_deref a s)"
  using handle_alive [of s a] effect_refl by (auto simp: sdarc_deref_def deref_def)

lemma good_guard_deref: "res_inv s \<Longrightarrow> good s (guard_deref t j s)"
  unfolding guard_deref_def
proof (rule good_thr_step, goal_cases)
  case (1 th)
  have "obj_at s a \<noteq> None" if "guards th j = Some a" for a
    using res_invD(4) [OF 1(1), of a t j] 1 that by (auto simp: guard_on_def)
  then show ?case using effect_refl [OF 1(1)] by (fastforce simp: deref_def split: option.split)
qed

lemmas good_steps = good_new good_clone good_drop good_sdarc_deref good_downgrade_init
  good_downgrade_clone good_swap good_compare_and_set good_claim good_push good_slot_mem
  good_flag_mem good_load_begin good_enter good_load_ptr good_load_inc good_load_exit good_preload
  good_publish good_reload good_guard_deref good_guard_clone good_guard_drop

end
