(* ===== verification/Reclamation.thy ===== *)
theory Reclamation
  imports MutatorSteps
begin

text \<open>
  Why the collector may free an object. For an object to be re-checked there is a baseline: the
  counts read while its tags were cleared, of sum zero, below which no untagged counter can have
  fallen. At the start of the next iteration either some counter has been disturbed since, or the
  object has no token and everyone who can still reach it is visible to the coming scan. The
  collector invariant carries this through the scan and the second read of the counters; steps
  of the threads keep it because their effects are bounded.
\<close>

section \<open>Baselines, disturbance, shelter\<close>

definition psum :: "(nat \<Rightarrow> int) \<Rightarrow> nat \<Rightarrow> int" where
  "psum b k = sum_list (map b [0..<k])"

definition above :: "sys \<Rightarrow> addr \<Rightarrow> (nat \<Rightarrow> int) \<Rightarrow> nat \<Rightarrow> bool" where
  "above s a b k \<longleftrightarrow> (\<exists>x. obj_at s a = Some x
     \<and> (\<forall>i<k. atag (shards x ! i) \<or> b i \<le> acount (shards x ! i)))"

definition baseline :: "sys \<Rightarrow> addr \<Rightarrow> (nat \<Rightarrow> int) \<Rightarrow> bool" where
  "baseline s a b \<longleftrightarrow> psum b (nshards s) = 0 \<and> above s a b (nshards s)"

definition disturbed :: "nat \<Rightarrow> sys \<Rightarrow> addr \<Rightarrow> (nat \<Rightarrow> int) \<Rightarrow> bool" where
  "disturbed k s a b \<longleftrightarrow> (\<exists>x. obj_at s a = Some x
     \<and> (\<exists>i. k \<le> i \<and> i < nshards s \<and> (atag (shards x ! i) \<or> b i < acount (shards x ! i))))"

definition unreachable :: "sys \<Rightarrow> addr \<Rightarrow> bool" where
  "unreachable s a \<longleftrightarrow> tokens s a = 0 \<and> \<not> weak_route s a \<and> (\<forall>t j. \<not> guard_on s t j a)
     \<and> (\<forall>t. \<not> loading s t a)"

fun unscanned :: "cpc \<Rightarrow> nat \<Rightarrow> nat \<Rightarrow> bool" where
  "unscanned CSnap t j = True"
| "unscanned (CScan t0 n j0) t j = (t < n \<and> (t0 < t \<or> t0 = t \<and> j0 \<le> j))"
| "unscanned _ t j = False"

fun unpolled :: "cpc \<Rightarrow> nat \<Rightarrow> bool" where
  "unpolled CSnap t = True"
| "unpolled (CScan t0 n j0) t = (t0 \<le> t \<and> t < n)"
| "unpolled _ t = False"

definition sheltered :: "cpc \<Rightarrow> sys \<Rightarrow> addr \<Rightarrow> bool" where
  "sheltered c s a \<longleftrightarrow> tokens s a = 0 \<and> \<not> weak_route s a
     \<and> (\<forall>t j. guard_on s t j a \<longrightarrow> unscanned c t j \<and> published s t j a)
     \<and> (\<forall>t. loading s t a \<longrightarrow> unpolled c t \<and> flagged s t)"

definition covered :: "sys \<Rightarrow> addr \<Rightarrow> bool" where
  "covered s a \<longleftrightarrow> (\<exists>b. baseline s a b \<and> (disturbed 0 s a b \<or> weak_route s a \<or> a \<in> set (hz s)
     \<or> sheltered (at_cpc s) s a))"

section \<open>The collector invariant\<close>

fun phase_ok :: "cpc \<Rightarrow> sys \<Rightarrow> bool" where
  "phase_ok CIdle s = (todo s = [] \<and> tofree s = [])"
| "phase_ok CSnap s = (tofree s = [])"
| "phase_ok (CScan t n j) s = (tofree s = [] \<and> n \<le> length (thrs s) \<and> j \<le> HZ_PTR_SLOT_COUNT)"
| "phase_ok CVisit s = True"
| "phase_ok (CRelax a k acc) s = (tracked s a = Some DefaultState \<and> a \<notin> set (todo s))"
| "phase_ok (CClear a k acc) s = (tracked s a = Some DefaultState \<and> a \<notin> set (todo s)
     \<and> k \<le> nshards s \<and> (\<exists>b. psum b k = acc \<and> above s a b k))"
| "phase_ok (CCheck a k acc) s = (tracked s a = Some RequiresReChecking \<and> a \<notin> set (todo s)
     \<and> k \<le> nshards s \<and> (\<exists>b. baseline s a b \<and> psum b k \<le> acc
         \<and> (weak_route s a \<or> psum b k < acc \<or> disturbed k s a b \<or> unreachable s a)))"
| "phase_ok (CWeak a) s = (tracked s a = Some RequiresReChecking \<and> a \<notin> set (todo s)
     \<and> (weak_route s a \<or> unreachable s a))"
| "phase_ok CFreeing s = (todo s = [])"

definition tracking_inv :: "sys \<Rightarrow> bool" where
  "tracking_inv s \<longleftrightarrow> distinct (concat (pending s))
     \<and> (\<forall>a\<in>set (concat (pending s)). tracked s a = None)
     \<and> (\<forall>a. obj_at s a \<noteq> None \<longleftrightarrow> a \<in> set (concat (pending s)) \<or> tracked s a \<noteq> None)"

definition gc_inv :: "sys \<Rightarrow> bool" where
  "gc_inv s \<longleftrightarrow> tracking_inv s
     \<and> (\<forall>a. tracked s a = Some RequiresReChecking \<longrightarrow> (\<exists>b. baseline s a b) \<and> (a \<in> set (todo s) \<longrightarrow> covered s a))
     \<and> (\<forall>a. tracked s a = Some ReadyToFree \<longleftrightarrow> a \<in> set (tofree s))
     \<and> distinct (tofree s) \<and> (\<forall>a\<in>set (tofree s). unreachable s a)
     \<and> distinct (todo s) \<and> set (todo s) \<inter> set (tofree s) = {}
     \<and> phase_ok (at_cpc s) s"

lemma gc_invD:
  assumes "gc_inv s"
  shows "tracking_inv s"
    and "\<And>a. tracked s a = Some RequiresReChecking \<Longrightarrow> \<exists>b. baseline s a b"
    and "\<And>a. \<lbrakk>tracked s a = Some RequiresReChecking; a \<in> set (todo s)\<rbrakk> \<Longrightarrow> covered s a"
    and "\<And>a. tracked s a = Some ReadyToFree \<longleftrightarrow> a \<in> set (tofree s)"
    and "distinct (tofree s)" and "\<And>a. a \<in> set (tofree s) \<Longrightarrow> unreachable s a"
    and "distinct (todo s)" and "set (todo s) \<inter> set (tofree s) = {}"
    and "phase_ok (at_cpc s) s"
  using assms unfolding gc_inv_def by blast+

lemma tracked_alive: "tracking_inv s \<Longrightarrow> tracked s a \<noteq> None \<Longrightarrow> \<exists>x. obj_at s a = Some x"
  unfolding tracking_inv_def by (metis option.exhaust)

section \<open>Steps of the threads\<close>

lemma psum_total: "length (shards x) = n \<Longrightarrow> total x = psum (\<lambda>i. acount (shards x ! i)) n"
proof -
  assume "length (shards x) = n"
  then have "map (\<lambda>i. acount (shards x ! i)) [0..<n] = map acount (shards x)"
    by (intro nth_equalityI) simp_all
  then show ?thesis by (simp add: total_def psum_def)
qed

lemma psum_mono:
  assumes "\<And>i. i < n \<Longrightarrow> b i \<le> f i"
  shows "psum b n \<le> psum f n"
  unfolding psum_def by (rule sum_list_map_le) (rule assms)

lemma psum_less_witness: "psum b n < psum f n \<Longrightarrow> \<exists>i<n. b i < f i"
  using psum_mono [of n f b] by (meson leD leI)

lemma effect_grows:
  assumes "heap_effect s s'" and "obj_at s a = Some x"
  obtains y where "obj_at s' a = Some y" "grows x y"
    "total y - total x = int (tokens s' a) - int (tokens s a)"
  using assms unfolding heap_effect_def by blast

lemma above_effect: "\<lbrakk>heap_effect s s'; k \<le> nshards s; res_inv s; above s a b k\<rbrakk> \<Longrightarrow> above s' a b k"
proof -
  assume e: "heap_effect s s'" and k: "k \<le> nshards s" and inv: "res_inv s" and a: "above s a b k"
  obtain x where x: "obj_at s a = Some x" and b: "\<And>i. i < k \<Longrightarrow> atag (shards x ! i) \<or> b i \<le> acount (shards x ! i)"
    using a by (auto simp: above_def)
  obtain y where y: "obj_at s' a = Some y" "grows x y" using effect_grows [OF e x] .
  have "atag (shards y ! i) \<or> b i \<le> acount (shards y ! i)" if i: "i < k" for i
  proof -
    have "i < length (shards x)" using res_invD(2) [OF inv x] k i by simp
    then show ?thesis using y(2) b [OF i] by (fastforce simp: grows_def)
  qed
  then show ?thesis using y(1) by (auto simp: above_def)
qed

lemma effect_nshards: "heap_effect s s' \<Longrightarrow> nshards s' = nshards s"
  by (simp add: heap_effect_def)

lemma baseline_effect: "\<lbrakk>heap_effect s s'; res_inv s; baseline s a b\<rbrakk> \<Longrightarrow> baseline s' a b"
  by (simp add: baseline_def above_effect effect_nshards)

lemma disturbed_effect:
  assumes e: "heap_effect s s'" and inv: "res_inv s" and d: "disturbed k s a b"
  shows "disturbed k s' a b"
proof -
  obtain x i where x: "obj_at s a = Some x" "k \<le> i" "i < nshards s"
    "atag (shards x ! i) \<or> b i < acount (shards x ! i)" using d by (auto simp: disturbed_def)
  obtain y where y: "obj_at s' a = Some y" "grows x y" using effect_grows [OF e x(1)] .
  have "i < length (shards x)" using res_invD(2) [OF inv x(1)] x(3) by simp
  then have "atag (shards y ! i) \<or> b i < acount (shards y ! i)"
    using y(2) x(4) by (fastforce simp: grows_def)
  then show ?thesis using y x effect_nshards [OF e] by (auto simp: disturbed_def)
qed

lemma weak_route_effect:
  assumes e: "heap_effect s s'" and w: "weak_route s a"
  shows "weak_route s' a"
proof -
  obtain w x y where x: "obj_at s a = Some x" "weak_ref x = Some w" and y: "obj_at s w = Some y" "back_ref y = Some a"
    using w by (auto simp: weak_route_def)
  obtain x' where "obj_at s' a = Some x'" "grows x x'" using effect_grows [OF e x(1)] .
  moreover obtain y' where "obj_at s' w = Some y'" "grows y y'" using effect_grows [OF e y(1)] .
  ultimately show ?thesis using x y unfolding weak_route_def grows_def by force
qed

lemma no_weak_route_effect:
  "\<lbrakk>heap_effect s s'; obj_at s a = Some x; tokens s a = 0; \<not> weak_route s a\<rbrakk> \<Longrightarrow> \<not> weak_route s' a"
  unfolding heap_effect_def route_def by auto

lemma unreachable_effect:
  assumes e: "effect s s'" and x: "obj_at s a = Some x" and u: "unreachable s a"
  shows "unreachable s' a"
proof -
  have r: "\<not> route s a" using u by (simp add: unreachable_def route_def)
  have "tokens s' a = 0"
    using e u x unfolding effect_def token_effect_def unreachable_def by blast
  moreover have "\<not> weak_route s' a"
    using no_weak_route_effect [of s s' a x] e u x by (simp add: effect_def unreachable_def)
  ultimately show ?thesis
    using e u r unfolding effect_def thr_effect_def unreachable_def by blast
qed

lemma sheltered_effect:
  assumes e: "effect s s'" and inv: "res_inv s" and sh: "sheltered c s a" and b: "baseline s a b"
    and inv': "res_inv s'"
  shows "sheltered c s' a \<or> disturbed 0 s' a b"
proof -
  have he: "heap_effect s s'" and te: "thr_effect s s'" using e by (simp_all add: effect_def)
  obtain x where x: "obj_at s a = Some x" using b by (auto simp: baseline_def above_def)
  obtain y where y: "obj_at s' a = Some y" using effect_grows [OF he x] .
  have r: "\<not> route s a" using sh by (simp add: sheltered_def route_def)
  show ?thesis
  proof (cases "tokens s' a = 0")
    case True
    have "\<not> weak_route s' a"
      using no_weak_route_effect [OF he x] sh by (simp add: sheltered_def)
    moreover have "unscanned c t j \<and> published s' t j a" if "guard_on s' t j a" for t j
      using te that r sh unfolding thr_effect_def sheltered_def by blast
    moreover have "unpolled c t \<and> flagged s' t" if "loading s' t a" for t
      using te that r sh unfolding thr_effect_def sheltered_def by blast
    ultimately show ?thesis using True by (simp add: sheltered_def)
  next
    case False
    have len: "length (shards y) = nshards s'" and t: "total y = int (tokens s' a)"
      using res_invD(2) [OF inv' y] by simp_all
    have "psum b (nshards s') < psum (\<lambda>i. acount (shards y ! i)) (nshards s')"
      using b t False psum_total [OF len] effect_nshards [OF he] by (simp add: baseline_def)
    then show ?thesis using psum_less_witness y by (fastforce simp: disturbed_def)
  qed
qed

lemma gc_same_simps:
  assumes "effect s s'"
  shows "tracked s' = tracked s" "at_cpc s' = at_cpc s" "todo s' = todo s" "hz s' = hz s"
    "tofree s' = tofree s"
  using assms by (simp_all add: effect_def gc_same_def)

lemma tracking_effect:
  assumes e: "effect s s'" and inv: "tracking_inv s"
  shows "tracking_inv s'"
proof -
  obtain new where m: "mset (concat (pending s')) = mset (concat (pending s)) + mset new"
    and d: "distinct new" and n: "\<And>b. obj_at s b = None \<Longrightarrow> obj_at s' b \<noteq> None \<longleftrightarrow> b \<in> set new"
    and f: "\<And>b. b \<in> set new \<Longrightarrow> obj_at s b = None"
    using e by (auto simp: effect_def gc_same_def)
  have he: "heap_effect s s'" using e by (simp add: effect_def)
  have t: "tracked s' = tracked s" using gc_same_simps [OF e] by simp
  have set': "set (concat (pending s')) = set (concat (pending s)) \<union> set new"
    using arg_cong [OF m, of set_mset] by simp
  have old: "obj_at s' b \<noteq> None" if "obj_at s b \<noteq> None" for b
    using effect_grows [OF he] that by (metis not_Some_eq)
  have "distinct (concat (pending s) @ new)"
  proof -
    have "set (concat (pending s)) \<inter> set new = {}"
    proof (rule ccontr)
      assume "set (concat (pending s)) \<inter> set new \<noteq> {}"
      then obtain b where "b \<in> set (concat (pending s))" "b \<in> set new" by blast
      then show False using f inv unfolding tracking_inv_def by blast
    qed
    then show ?thesis using inv d by (simp add: tracking_inv_def)
  qed
  then have "distinct (concat (pending s'))"
    using mset_eq_imp_distinct_iff [of "concat (pending s')" "concat (pending s) @ new"] m by simp
  moreover have "tracked s b = None" if "b \<in> set new" for b
    using f [OF that] inv unfolding tracking_inv_def by blast
  moreover have "obj_at s' b \<noteq> None \<longleftrightarrow> b \<in> set (concat (pending s')) \<or> tracked s b \<noteq> None" for b
  proof -
    have iff: "obj_at s b \<noteq> None \<longleftrightarrow> b \<in> set (concat (pending s)) \<or> tracked s b \<noteq> None"
      using inv unfolding tracking_inv_def by blast
    show ?thesis
      by (cases "obj_at s b = None") (use iff n [of b] old [of b] f [of b] set' in blast)+
  qed
  ultimately show ?thesis
    using inv unfolding tracking_inv_def t set' by blast
qed

lemma phase_effect:
  assumes e: "effect s s'" and inv: "res_inv s" and gc: "gc_inv s"
  shows "phase_ok (at_cpc s) s'"
proof -
  have he: "heap_effect s s'" and te: "thr_effect s s'" using e by (simp_all add: effect_def)
  have p: "phase_ok (at_cpc s) s" using gc by (rule gc_invD)
  note same = gc_same_simps [OF e] effect_nshards [OF he]
  have alive: "\<exists>x. obj_at s a = Some x" if "tracked s a = Some st" for a st
    using tracked_alive [OF gc_invD(1) [OF gc]] that by simp
  show ?thesis
  proof (cases "at_cpc s")
    case (CScan t n j)
    then show ?thesis using p te by (simp add: same thr_effect_def)
  next
    case (CClear a k acc)
    then show ?thesis using p above_effect [OF he _ inv] by (auto simp: same)
  next
    case (CCheck a k acc)
    then obtain b where b: "baseline s a b" "psum b k \<le> acc"
      "weak_route s a \<or> psum b k < acc \<or> disturbed k s a b \<or> unreachable s a" using p by auto
    obtain x where "obj_at s a = Some x" using alive p CCheck by auto
    then have "weak_route s' a \<or> psum b k < acc \<or> disturbed k s' a b \<or> unreachable s' a"
      using b(3) weak_route_effect [OF he] disturbed_effect [OF he inv] unreachable_effect [OF e] by blast
    then show ?thesis using p CCheck b(2) baseline_effect [OF he inv b(1)] by (auto simp: same)
  next
    case (CWeak a)
    obtain x where "obj_at s a = Some x" using alive p CWeak by auto
    then show ?thesis
      using p CWeak weak_route_effect [OF he] unreachable_effect [OF e] by (auto simp: same)
  qed (use p in \<open>auto simp: same\<close>)
qed

lemma effect_keeps_gc_inv:
  assumes e: "effect s s'" and inv: "res_inv s" and gc: "gc_inv s"
  shows "res_inv s' \<and> gc_inv s'"
proof
  have he: "heap_effect s s'" using e by (simp add: effect_def)
  show inv': "res_inv s'"
    using e by (intro effect_keeps_res_inv [OF inv]) (simp_all add: effect_def gc_same_def)
  note same = gc_same_simps [OF e]
  have cov: "covered s' a" if c: "covered s a" for a
  proof -
    obtain b where b: "baseline s a b" and d: "disturbed 0 s a b \<or> weak_route s a \<or> a \<in> set (hz s)
        \<or> sheltered (at_cpc s) s a"
      using c unfolding covered_def by blast
    have "disturbed 0 s' a b \<or> weak_route s' a \<or> a \<in> set (hz s') \<or> sheltered (at_cpc s') s' a"
      using d disturbed_effect [OF he inv] weak_route_effect [OF he] same
        sheltered_effect [OF e inv _ b inv'] by metis
    then show ?thesis using baseline_effect [OF he inv b] unfolding covered_def by blast
  qed
  have un: "unreachable s' a" if "a \<in> set (tofree s)" for a
  proof -
    have "tracked s a = Some ReadyToFree" using gc_invD(4) [OF gc] that by blast
    then obtain x where "obj_at s a = Some x" using tracked_alive [OF gc_invD(1) [OF gc], of a] by auto
    then show ?thesis using unreachable_effect [OF e] gc_invD(6) [OF gc that] by blast
  qed
  have re: "(\<exists>b. baseline s' a b) \<and> (a \<in> set (todo s') \<longrightarrow> covered s' a)"
    if "tracked s' a = Some RequiresReChecking" for a
    using that gc_invD(2,3) [OF gc, of a] baseline_effect [OF he inv] cov same by metis
  show "gc_inv s'"
    unfolding gc_inv_def
    using tracking_effect [OF e gc_invD(1) [OF gc]] re un phase_effect [OF e inv gc]
      gc_invD(4,5,7,8) [OF gc] by (simp add: same)
qed

end
