(* ===== verification/CollectorSteps.thy ===== *)
theory CollectorSteps
  imports Reclamation
begin

text \<open>
  Every step of the collector, in a state with the resource and the collector invariant: it never
  touches freed memory, none of its assertions fails, and both invariants hold afterwards.
\<close>

section \<open>Steps that leave the objects and threads alone\<close>

definition safe_outcome :: "sys outcome \<Rightarrow> bool" where
  "safe_outcome r \<longleftrightarrow> (case r of Next s' \<Rightarrow> res_inv s' \<and> gc_inv s' | Disabled \<Rightarrow> True | _ \<Rightarrow> False)"

lemma safe_outcome_simps [simp]:
  "safe_outcome Disabled" "safe_outcome (Next s') \<longleftrightarrow> res_inv s' \<and> gc_inv s'"
  "\<not> safe_outcome Panic" "\<not> safe_outcome Fault"
  by (simp_all add: safe_outcome_def)

definition same_world :: "sys \<Rightarrow> sys \<Rightarrow> bool" where
  "same_world s s' \<longleftrightarrow> nshards s' = nshards s \<and> heap s' = heap s \<and> handles s' = handles s
     \<and> cells s' = cells s \<and> thrs s' = thrs s"

lemma world:
  assumes "same_world s s'"
  shows "obj_at s' a = obj_at s a" "tokens s' a = tokens s a" "guard_on s' t j a = guard_on s t j a"
    "loading s' t a = loading s t a" "weak_route s' a = weak_route s a"
    "published s' t j a = published s t j a" "flagged s' t = flagged s t"
    "unreachable s' a = unreachable s a" "above s' a b k = above s a b k"
    "baseline s' a = baseline s a" "disturbed k s' a b = disturbed k s a b"
    "sheltered c s' a = sheltered c s a" "nshards s' = nshards s" "thrs s' = thrs s"
proof -
  have o: "obj_at s' c = obj_at s c" for c using assms by (simp add: same_world_def obj_at_def)
  have t: "tokens s' c = tokens s c" for c using assms by (simp add: same_world_def tokens_def)
  have th: "thrs s' = thrs s" "nshards s' = nshards s" using assms by (simp_all add: same_world_def)
  show "obj_at s' a = obj_at s a" "tokens s' a = tokens s a" "guard_on s' t j a = guard_on s t j a"
    "loading s' t a = loading s t a" "weak_route s' a = weak_route s a"
    "published s' t j a = published s t j a" "flagged s' t = flagged s t"
    "unreachable s' a = unreachable s a" "above s' a b k = above s a b k"
    "baseline s' a = baseline s a" "disturbed k s' a b = disturbed k s a b"
    "sheltered c s' a = sheltered c s a" "nshards s' = nshards s" "thrs s' = thrs s"
    by (simp_all add: o t th guard_on_def loading_def weak_route_def published_def flagged_def
        unreachable_def above_def baseline_def disturbed_def sheltered_def fun_eq_iff)
qed

lemma same_world_res_inv:
  assumes "same_world s s'" and "length (pending s') = length (pending s)"
  shows "res_inv s' = res_inv s"
  using assms(2) by (simp add: res_inv_def world [OF assms(1)])

lemma same_worldI [intro]:
  "\<lbrakk>nshards s' = nshards s; heap s' = heap s; handles s' = handles s; cells s' = cells s; thrs s' = thrs s\<rbrakk>
    \<Longrightarrow> same_world s s'"
  by (simp add: same_world_def)

lemma same_world_tracking:
  assumes "same_world s s'" and "pending s' = pending s" and "\<And>a. tracked s' a = None \<longleftrightarrow> tracked s a = None"
  shows "tracking_inv s' = tracking_inv s"
  by (simp add: tracking_inv_def world [OF assms(1)] assms(2,3))

lemma covered_weaken:
  assumes w: "same_world s s'" and c: "covered s a"
    and more: "sheltered (at_cpc s) s a \<Longrightarrow> sheltered (at_cpc s') s a \<or> a \<in> set (hz s')"
    and hz: "set (hz s) \<subseteq> set (hz s')"
  shows "covered s' a"
  using c more hz unfolding covered_def by (auto simp: world [OF w])

text \<open>A step that changes the collector's position, to-do list, hazard set or states only.\<close>

lemma control_step:
  assumes inv: "res_inv s" and gc: "gc_inv s" and w: "same_world s s'" and p: "pending s' = pending s"
    and dom: "\<And>a. tracked s' a = None \<longleftrightarrow> tracked s a = None"
    and rechk: "\<And>a. tracked s' a = Some RequiresReChecking \<Longrightarrow> \<exists>b. baseline s a b"
    and cov: "\<And>a. \<lbrakk>tracked s' a = Some RequiresReChecking; a \<in> set (todo s')\<rbrakk> \<Longrightarrow> covered s' a"
    and ready: "\<And>a. tracked s' a = Some ReadyToFree \<longleftrightarrow> a \<in> set (tofree s')"
    and dead: "distinct (tofree s')" "\<And>a. a \<in> set (tofree s') \<Longrightarrow> unreachable s a"
    and td: "distinct (todo s')" "set (todo s') \<inter> set (tofree s') = {}"
    and phase: "phase_ok (at_cpc s') s'"
  shows "safe_outcome (Next s')"
proof -
  have "res_inv s'" using same_world_res_inv [OF w] p inv by simp
  moreover have "tracking_inv s'" using same_world_tracking [OF w p dom] gc_invD(1) [OF gc] by simp
  moreover have "\<exists>b. baseline s' a b" if "tracked s' a = Some RequiresReChecking" for a
    using rechk [OF that] by (simp add: world [OF w])
  moreover have "unreachable s' a" if "a \<in> set (tofree s')" for a
    using dead(2) [OF that] by (simp add: world [OF w])
  ultimately show ?thesis
    using cov ready dead(1) td phase by (simp add: gc_inv_def)
qed

section \<open>The scan\<close>

lemma safe_traverse_begin:
  assumes inv: "res_inv s" and gc: "gc_inv s"
  shows "safe_outcome (traverse_begin s)"
proof (cases "at_cpc s = CSnap")
  case True
  let ?s = "s\<lparr>at_cpc := CScan 0 (length (thrs s)) 0\<rparr>"
  have w: "same_world s ?s" by auto
  have "sheltered (CScan 0 (length (thrs s)) 0) s a" if "sheltered CSnap s a" for a
    using that by (auto simp: sheltered_def guard_on_def loading_def)
  then have "covered ?s a" if "covered s a" for a
    using covered_weaken [OF w that] True by simp
  moreover have "phase_ok CSnap s" using gc_invD(9) [OF gc] True by simp
  ultimately have "safe_outcome (Next ?s)"
    using gc_invD [OF gc] by (intro control_step [OF inv gc w]) auto
  then show ?thesis using True by (simp add: traverse_begin_def)
qed (simp add: traverse_begin_def)

lemma sheltered_scan_slot:
  assumes "sheltered (CScan t n j) s a" and "mem (slots (thrs s ! t) j) \<noteq> Some a"
  shows "sheltered (CScan t n (Suc j)) s a"
proof -
  have "j \<noteq> j'" if "guard_on s t j' a" for j'
    using assms that by (auto simp: sheltered_def published_def)
  then show ?thesis using assms(1) by (fastforce simp: sheltered_def)
qed

lemma sheltered_poll:
  assumes inv: "res_inv s" and sh: "sheltered (CScan t n HZ_PTR_SLOT_COUNT) s a"
    and f: "\<not> mem (flag (thrs s ! t))"
  shows "sheltered (CScan (Suc t) n 0) s a"
proof -
  have "t' \<noteq> t" if g: "guard_on s t' j a" for t' j
  proof
    assume "t' = t"
    then have "HZ_PTR_SLOT_COUNT \<le> j" "thr_ok (thrs s ! t)"
      using sh g res_invD(7) [OF inv] by (auto simp: sheltered_def guard_on_def)
    then show False using g \<open>t' = t\<close> by (auto simp: thr_ok_def guard_on_def)
  qed
  moreover have "t' \<noteq> t" if "loading s t' a" for t'
    using sh that f by (auto simp: sheltered_def flagged_def)
  ultimately show ?thesis using sh by (fastforce simp: sheltered_def)
qed

lemma sheltered_scanned:
  assumes "sheltered (CScan t n j) s a" and "n \<le> t"
  shows "unreachable s a"
  using assms by (fastforce simp: sheltered_def unreachable_def)

lemma unreachable_sheltered: "unreachable s a \<Longrightarrow> sheltered c s a"
  by (simp add: unreachable_def sheltered_def)

lemma sheltered_visit: "sheltered CVisit s a \<longleftrightarrow> unreachable s a"
  by (auto simp: unreachable_def sheltered_def)

lemma safe_traverse_step:
  assumes inv: "res_inv s" and gc: "gc_inv s"
  shows "safe_outcome (traverse_step s)"
proof (cases "at_cpc s")
  case (CScan t n j)
  have ph: "tofree s = []" "n \<le> length (thrs s)" "j \<le> HZ_PTR_SLOT_COUNT"
    using gc_invD(9) [OF gc] CScan by simp_all
  have go: "safe_outcome (Next (s\<lparr>at_cpc := c, hz := h\<rparr>))"
    if sh: "\<And>a. sheltered (CScan t n j) s a \<Longrightarrow> sheltered c s a \<or> a \<in> set h"
      and h: "set (hz s) \<subseteq> set h" and p: "phase_ok c (s\<lparr>at_cpc := c, hz := h\<rparr>)" for c h
  proof -
    let ?s = "s\<lparr>at_cpc := c, hz := h\<rparr>"
    have w: "same_world s ?s" by auto
    have "covered ?s a" if "covered s a" for a
      using covered_weaken [OF w that] sh h CScan by auto
    then show ?thesis using gc_invD [OF gc] p by (intro control_step [OF inv gc w]) auto
  qed
  consider (slot) "t < n" "j < HZ_PTR_SLOT_COUNT" | (spin) "t < n" "j = HZ_PTR_SLOT_COUNT" "mem (flag (thrs s ! t))"
    | (poll) "t < n" "j = HZ_PTR_SLOT_COUNT" "\<not> mem (flag (thrs s ! t))" | (finish) "n \<le> t"
    using ph(3) by linarith
  then show ?thesis
  proof cases
    case slot
    let ?h = "case mem (slots (thrs s ! t) j) of None \<Rightarrow> hz s | Some a \<Rightarrow> a # hz s"
    have "safe_outcome (Next (s\<lparr>at_cpc := CScan t n (Suc j), hz := ?h\<rparr>))"
    proof (rule go)
      fix a assume "sheltered (CScan t n j) s a"
      then show "sheltered (CScan t n (Suc j)) s a \<or> a \<in> set ?h"
        using sheltered_scan_slot [of t n j s a]
        by (cases "mem (slots (thrs s ! t) j) = Some a") simp_all
    qed (use ph slot in \<open>auto split: option.splits\<close>)
    then show ?thesis using CScan slot by (simp add: traverse_step_def)
  next
    case spin
    then show ?thesis using CScan inv gc by (simp add: traverse_step_def)
  next
    case poll
    have "safe_outcome (Next (s\<lparr>at_cpc := CScan (Suc t) n 0, hz := hz s\<rparr>))"
      by (rule go) (use sheltered_poll [OF inv] poll ph in auto)
    then show ?thesis using CScan poll by (simp add: traverse_step_def)
  next
    case finish
    have "safe_outcome (Next (s\<lparr>at_cpc := CVisit, hz := hz s\<rparr>))"
      by (rule go) (use sheltered_scanned finish unreachable_sheltered in auto)
    then show ?thesis using CScan finish by (simp add: traverse_step_def)
  qed
qed (simp_all add: traverse_step_def)

section \<open>Choosing the next object\<close>

lemma safe_visit_next:
  assumes inv: "res_inv s" and gc: "gc_inv s"
  shows "safe_outcome (visit_next s)"
proof (cases "at_cpc s = CVisit")
  case cv: True
  note I = gc_invD [OF gc]
  show ?thesis
  proof (cases "todo s")
    case Nil
    have "safe_outcome (Next (s\<lparr>at_cpc := CFreeing\<rparr>))"
      using I Nil by (intro control_step [OF inv gc]) auto
    then show ?thesis using cv Nil by (simp add: visit_next_def)
  next
    case (Cons a rest)
    have d: "a \<notin> set rest" "distinct rest" using I(7) Cons by simp_all
    have move: "safe_outcome (Next (s\<lparr>todo := rest, at_cpc := c\<rparr>))"
      if p: "phase_ok c (s\<lparr>todo := rest, at_cpc := c\<rparr>)"
        and sh: "\<And>a. unreachable s a \<Longrightarrow> sheltered c s a" for c
    proof -
      let ?s = "s\<lparr>todo := rest, at_cpc := c\<rparr>"
      have w: "same_world s ?s" by auto
      have "covered ?s c'" if "covered s c'" for c'
        using covered_weaken [OF w that] sh cv by (simp add: sheltered_visit)
      then show ?thesis
        using I Cons p by (intro control_step [OF inv gc w]) auto
    qed
    show ?thesis
    proof (cases "tracked s a")
      case None
      have "safe_outcome (Next (s\<lparr>todo := rest, at_cpc := CVisit\<rparr>))"
        by (rule move) (simp_all add: sheltered_visit)
      moreover have "s\<lparr>todo := rest, at_cpc := CVisit\<rparr> = s\<lparr>todo := rest\<rparr>" using cv by (cases s) simp
      ultimately show ?thesis using cv Cons None by (simp add: visit_next_def)
    next
      case (Some st)
      show ?thesis
      proof (cases "a \<in> set (hz s)")
        case True
        have "safe_outcome (Next (set_state a DefaultState (s\<lparr>todo := rest\<rparr>)))"
        proof (rule control_step [OF inv gc])
          fix c
          assume "tracked (set_state a DefaultState (s\<lparr>todo := rest\<rparr>)) c = Some RequiresReChecking"
            "c \<in> set (todo (set_state a DefaultState (s\<lparr>todo := rest\<rparr>)))"
          then have "covered s c" using I(3) [of c] Cons d by (auto simp: set_state_def split: if_splits)
          then show "covered (set_state a DefaultState (s\<lparr>todo := rest\<rparr>)) c"
            by (rule covered_weaken [rotated]) (use cv in \<open>auto simp: set_state_def\<close>)
        next
          fix c
          show "tracked (set_state a DefaultState (s\<lparr>todo := rest\<rparr>)) c = Some ReadyToFree
            \<longleftrightarrow> c \<in> set (tofree (set_state a DefaultState (s\<lparr>todo := rest\<rparr>)))"
            using I(4) [of c] I(8) Cons by (auto simp: set_state_def)
        qed (use I Cons Some d in \<open>auto simp: set_state_def split: if_splits\<close>)
        then show ?thesis using cv Cons Some True by (simp add: visit_next_def)
      next
        case False
        show ?thesis
        proof (cases st)
          case DefaultState
          have "safe_outcome (Next (s\<lparr>todo := rest, at_cpc := CRelax a 0 0\<rparr>))"
            by (rule move) (use Some DefaultState d in \<open>simp_all add: unreachable_sheltered\<close>)
          then show ?thesis using cv Cons Some False DefaultState by (simp add: visit_next_def)
        next
          case RequiresReChecking
          then have "covered s a" using I(3) [of a] Cons Some by simp
          then obtain b where "baseline s a b" "disturbed 0 s a b \<or> weak_route s a \<or> unreachable s a"
            using False cv by (auto simp: covered_def sheltered_visit)
          moreover have "same_world s (s\<lparr>todo := rest, at_cpc := CCheck a 0 0\<rparr>)" by auto
          ultimately have "phase_ok (CCheck a 0 0) (s\<lparr>todo := rest, at_cpc := CCheck a 0 0\<rparr>)"
            using Some RequiresReChecking d by (simp add: world psum_def) blast
          then have "safe_outcome (Next (s\<lparr>todo := rest, at_cpc := CCheck a 0 0\<rparr>))"
            by (rule move) (rule unreachable_sheltered)
          then show ?thesis using cv Cons Some False RequiresReChecking by (simp add: visit_next_def)
        next
          case ReadyToFree
          then show ?thesis using I(4) [of a] I(8) Cons Some by auto
        qed
      qed
    qed
  qed
qed (simp add: visit_next_def)

section \<open>Tracking and the heavy barrier\<close>

lemma track_all_fresh:
  "\<lbrakk>distinct as; \<And>a. a \<in> set as \<Longrightarrow> m a = None\<rbrakk>
    \<Longrightarrow> track_all as m = Some (\<lambda>a. if a \<in> set as then Some DefaultState else m a)"
proof (induction as arbitrary: m)
  case (Cons a as)
  have "track_all as (m(a := Some DefaultState))
      = Some (\<lambda>b. if b \<in> set as then Some DefaultState else (m(a := Some DefaultState)) b)"
    by (rule Cons.IH) (use Cons.prems in auto)
  then show ?case using Cons.prems by (auto simp: fun_eq_iff)
qed simp

lemma distinct_concat_nth:
  assumes "distinct (concat ps)" and "j < length ps"
  shows "distinct (ps ! j)" "distinct (concat (ps[j := []]))"
    "set (concat (ps[j := []])) = set (concat ps) - set (ps ! j)"
proof -
  have ps: "ps = take j ps @ ps ! j # drop (Suc j) ps" using assms(2) by (rule id_take_nth_drop)
  have upd: "ps[j := []] = take j ps @ [] # drop (Suc j) ps" using assms(2) by (rule upd_conv_take_nth_drop)
  have c: "concat ps = concat (take j ps) @ ps ! j @ concat (drop (Suc j) ps)"
    by (subst ps) simp
  have d: "concat (ps[j := []]) = concat (take j ps) @ concat (drop (Suc j) ps)"
    by (simp add: upd)
  have dist: "distinct (concat (take j ps) @ ps ! j @ concat (drop (Suc j) ps))"
    using assms(1) unfolding c .
  show "distinct (ps ! j)" using dist by simp
  show "distinct (concat (ps[j := []]))" unfolding d using dist by auto
  show "set (concat (ps[j := []])) = set (concat ps) - set (ps ! j)"
    unfolding d c using dist by auto
qed

lemma safe_take:
  assumes inv: "res_inv s" and gc: "gc_inv s"
  shows "safe_outcome (take_new_counters_to_track j s)"
proof (cases "at_cpc s = CIdle \<and> j < nshards s")
  case True
  note I = gc_invD [OF gc]
  have j: "j < length (pending s)" using True res_invD(1) [OF inv] by simp
  have ph: "todo s = []" "tofree s = []" using I(9) True by simp_all
  have dc: "distinct (concat (pending s))" and
    pn: "\<And>a. a \<in> set (concat (pending s)) \<Longrightarrow> tracked s a = None" and
    al: "\<And>a. obj_at s a \<noteq> None \<longleftrightarrow> a \<in> set (concat (pending s)) \<or> tracked s a \<noteq> None"
    using I(1) unfolding tracking_inv_def by blast+
  note p = distinct_concat_nth [OF dc j]
  have sub: "set (pending s ! j) \<subseteq> set (concat (pending s))" using j by (auto intro: nth_mem)
  let ?m = "\<lambda>a. if a \<in> set (pending s ! j) then Some DefaultState else tracked s a"
  have run: "track_all (pending s ! j) (tracked s) = Some ?m"
    using pn sub by (intro track_all_fresh p(1)) blast
  let ?s = "s\<lparr>tracked := ?m, pending := (pending s)[j := []]\<rparr>"
  have w: "same_world s ?s" by auto
  have "tracking_inv ?s"
    unfolding tracking_inv_def world [OF w]
  proof (intro conjI allI ballI)
    show "distinct (concat (pending ?s))" using p(2) by simp
    fix a
    show "tracked ?s a = None" if "a \<in> set (concat (pending ?s))"
      using that pn [of a] p(3) by (auto simp del: set_concat)
    show "obj_at s a \<noteq> None \<longleftrightarrow> a \<in> set (concat (pending ?s)) \<or> tracked ?s a \<noteq> None"
      using al [of a] p(3) sub by (auto simp del: set_concat)
  qed
  moreover have "res_inv ?s" using same_world_res_inv [OF w] inv by simp
  moreover have "tracked s a \<noteq> Some RequiresReChecking \<and> tracked s a \<noteq> Some ReadyToFree"
    if "a \<in> set (pending s ! j)" for a
  proof -
    have "tracked s a = None" using pn that sub by blast
    then show ?thesis by simp
  qed
  ultimately have "res_inv ?s \<and> gc_inv ?s"
    unfolding gc_inv_def using I(2,4) ph True by (auto simp: world [OF w])
  then show ?thesis using True run by (simp add: take_new_counters_to_track_def)
qed (auto simp: take_new_counters_to_track_def)

lemma drain_thr_simps [simp]:
  "at_pc (drain_thr th) = at_pc th" "guards (drain_thr th) = guards th"
  "slots (drain_thr th) = (\<lambda>j. drain (slots th j))" "flag (drain_thr th) = drain (flag th)"
  by (simp_all add: drain_thr_def)

text \<open>At the heavy barrier every object to be re-checked is covered.\<close>

lemma barrier_shelters:
  assumes inv: "res_inv s" and b: "baseline s a b" and nd: "\<not> disturbed 0 s a b"
    and nw: "\<not> weak_route s a" and s': "heap s' = heap s" "handles s' = handles s" "cells s' = cells s"
      "thrs s' = map drain_thr (thrs s)"
  shows "sheltered CSnap s' a"
proof -
  obtain x where x: "obj_at s a = Some x"
    and ab: "\<And>i. i < nshards s \<Longrightarrow> atag (shards x ! i) \<or> b i \<le> acount (shards x ! i)"
    using b by (auto simp: baseline_def above_def)
  have eq: "acount (shards x ! i) \<le> b i" if "i < nshards s" for i
    using nd x that unfolding disturbed_def by force
  have "total x = psum (\<lambda>i. acount (shards x ! i)) (nshards s)"
    using res_invD(2) [OF inv x] psum_total by blast
  also have "\<dots> \<le> psum b (nshards s)" by (rule psum_mono) (rule eq)
  also have "\<dots> = 0" using b by (simp add: baseline_def)
  finally have "tokens s a = 0" using res_invD(2) [OF inv x] by simp
  then have t: "tokens s' a = 0" by (simp add: tokens_def s' count_where_map)
  have w: "\<not> weak_route s' a" using nw obj_at_cong [OF s'(1)] by (simp add: weak_route_def)
  have "published s' t j a" if "guard_on s' t j a" for t j
  proof -
    have g: "t < length (thrs s)" "guards (thrs s ! t) j = Some a" using that by (auto simp: guard_on_def s'(4))
    then have "view (slots (thrs s ! t) j) = Some a"
      using res_invD(7) [OF inv g(1)] by (auto simp: thr_ok_simps split: pc.splits)
    then show ?thesis using g(1) by (simp add: published_def s'(4) drain_def)
  qed
  moreover have "flagged s' t" if "loading s' t a" for t
  proof -
    have g: "t < length (thrs s)" "at_pc (thrs s ! t) = LoadInc a" using that by (auto simp: loading_def s'(4))
    then have "view (flag (thrs s ! t))" using res_invD(7) [OF inv g(1)] by (simp add: thr_ok_simps)
    then show ?thesis using g(1) by (simp add: flagged_def s'(4) drain_def)
  qed
  ultimately show ?thesis using t w by (simp add: sheltered_def)
qed

lemma safe_begin:
  assumes inv: "res_inv s" and gc: "gc_inv s"
  shows "safe_outcome (begin_iteration visit s)"
proof (cases "at_cpc s = CIdle \<and> distinct visit")
  case True
  note I = gc_invD [OF gc]
  have ph: "todo s = []" "tofree s = []" using I(9) True by simp_all
  let ?s = "s\<lparr>thrs := map drain_thr (thrs s), at_cpc := CSnap, todo := visit, hz := [], tofree := []\<rparr>"
  have o: "obj_at ?s a = obj_at s a" for a by (rule obj_at_cong) simp
  have t: "tokens ?s a = tokens s a" for a by (simp add: tokens_def count_where_map)
  have g: "guard_on ?s u j a = guard_on s u j a" and l: "loading ?s u a = loading s u a" for u j a
    by (auto simp: guard_on_def loading_def)
  have "thr_ok (drain_thr th)" if "thr_ok th" for th
    using that by (simp add: thr_ok_simps split: pc.splits)
  then have res: "res_inv ?s" using inv unfolding res_inv_def o t g l by simp
  have b: "baseline ?s a c = baseline s a c" "disturbed 0 ?s a c = disturbed 0 s a c"
    "weak_route ?s a = weak_route s a" for a c
    by (simp_all add: baseline_def above_def disturbed_def weak_route_def o)
  have "covered ?s a" if r: "tracked s a = Some RequiresReChecking" for a
  proof -
    obtain c where c: "baseline s a c" using I(2) [OF r] by blast
    then show ?thesis
      using barrier_shelters [OF inv c, of ?s] unfolding covered_def b by auto
  qed
  moreover have "tracking_inv ?s" using I(1) unfolding tracking_inv_def o by simp
  moreover have "tracked s a \<noteq> Some ReadyToFree" for a using I(4) [of a] ph by simp
  ultimately have "gc_inv ?s" unfolding gc_inv_def b using I(2) True by simp
  then show ?thesis using res True by (simp add: begin_iteration_def)
qed (auto simp: begin_iteration_def)

end
