(* ===== verification/CounterReads.thy ===== *)
theory CounterReads
  imports CollectorSteps
begin

text \<open>
  The collector's three ways of reading an object's counters, one shard per step, the clearing of
  its weak back reference and its free, each keeping both invariants.
\<close>

section \<open>Moving on within the visit\<close>

fun visiting :: "cpc \<Rightarrow> bool" where
  "visiting CVisit = True"
| "visiting (CRelax a k acc) = True"
| "visiting (CClear a k acc) = True"
| "visiting (CCheck a k acc) = True"
| "visiting (CWeak a) = True"
| "visiting _ = False"

lemma sheltered_visiting: "visiting c \<Longrightarrow> sheltered c s a \<longleftrightarrow> unreachable s a"
  by (cases c) (auto simp: unreachable_def sheltered_def)

lemma position_step:
  assumes inv: "res_inv s" and gc: "gc_inv s" and v: "visiting (at_cpc s)" "visiting c"
    and p: "phase_ok c (s\<lparr>at_cpc := c\<rparr>)"
  shows "safe_outcome (Next (s\<lparr>at_cpc := c\<rparr>))"
proof -
  let ?s = "s\<lparr>at_cpc := c\<rparr>"
  have w: "same_world s ?s" by auto
  have "covered ?s a" if "covered s a" for a
    using covered_weaken [OF w that] v by (simp add: sheltered_visiting)
  then show ?thesis
    using gc_invD [OF gc] p by (intro control_step [OF inv gc w]) auto
qed

lemma state_step:
  assumes inv: "res_inv s" and gc: "gc_inv s" and v: "visiting (at_cpc s)" and a: "a \<notin> set (todo s)"
    and t: "tracked s a = Some old" "old \<noteq> ReadyToFree"
    and st: "st = DefaultState \<or> st = RequiresReChecking \<and> (\<exists>b. baseline s a b)"
  shows "safe_outcome (Next (set_state a st s))"
proof -
  let ?s = "set_state a st s"
  note I = gc_invD [OF gc]
  have w: "same_world s ?s" by (auto simp: set_state_def)
  have cov: "covered ?s c" if "covered s c" for c
    by (rule covered_weaken [OF w that]) (use v in \<open>auto simp: sheltered_visiting set_state_def\<close>)
  show ?thesis
  proof (rule control_step [OF inv gc w])
    fix c
    show "tracked ?s c = None \<longleftrightarrow> tracked s c = None" using t by (simp add: set_state_def)
    show "tracked ?s c = Some ReadyToFree \<longleftrightarrow> c \<in> set (tofree ?s)"
      using I(4) [of c] t st by (auto simp: set_state_def)
    show "covered ?s c" if "tracked ?s c = Some RequiresReChecking" "c \<in> set (todo ?s)"
      using that I(3) [of c] a cov by (auto simp: set_state_def split: if_splits)
    show "\<exists>b. baseline s c b" if "tracked ?s c = Some RequiresReChecking"
      using that I(2) [of c] st by (auto simp: set_state_def split: if_splits)
  qed (use I in \<open>auto simp: set_state_def\<close>)
qed

lemma psum_Suc: "psum b (Suc k) = psum b k + b k"
  by (simp add: psum_def)

lemma psum_cong: "(\<And>i. i < k \<Longrightarrow> b i = c i) \<Longrightarrow> psum b k = psum c k"
  unfolding psum_def by (rule arg_cong [where f = sum_list]) simp

lemma alive_tracked:
  "gc_inv s \<Longrightarrow> tracked s a = Some st \<Longrightarrow> \<exists>x. obj_at s a = Some x"
  using tracked_alive [OF gc_invD(1), of s a] by simp

section \<open>The relaxed pre-check\<close>

lemma safe_read_relaxed:
  assumes inv: "res_inv s" and gc: "gc_inv s"
  shows "safe_outcome (read_relaxed_step s)"
proof (cases "at_cpc s")
  case (CRelax a k acc)
  have p: "tracked s a = Some DefaultState" "a \<notin> set (todo s)" using gc_invD(9) [OF gc] CRelax by simp_all
  obtain x where x: "obj_at s a = Some x" using alive_tracked [OF gc p(1)] by blast
  have "safe_outcome (Next (s\<lparr>at_cpc := CRelax a (Suc k) acc'\<rparr>))" for acc'
    using p CRelax by (intro position_step [OF inv gc]) simp_all
  moreover have "safe_outcome (Next (s\<lparr>at_cpc := CClear a 0 0\<rparr>))"
  proof (rule position_step [OF inv gc])
    have "above s a (\<lambda>_. 0) 0" using x by (simp add: above_def)
    moreover have "same_world s (s\<lparr>at_cpc := CClear a 0 0\<rparr>)" by auto
    ultimately show "phase_ok (CClear a 0 0) (s\<lparr>at_cpc := CClear a 0 0\<rparr>)"
      using p by (auto simp: world psum_def)
  qed (simp_all add: CRelax)
  moreover have "safe_outcome (Next (set_state a DefaultState s))"
    by (rule state_step [OF inv gc _ p(2,1)]) (simp_all add: CRelax)
  ultimately show ?thesis using x CRelax by (simp add: read_relaxed_step_def deref_def)
qed (simp_all add: read_relaxed_step_def)

section \<open>The second read\<close>

lemma check_advances:
  assumes b: "baseline s a b" "psum b k \<le> acc" and x: "obj_at s a = Some x" and k: "k < nshards s"
    and untagged: "\<not> atag (shards x ! k)"
    and d: "weak_route s a \<or> psum b k < acc \<or> disturbed k s a b \<or> unreachable s a"
  shows "psum b (Suc k) \<le> acc + acount (shards x ! k)
    \<and> (weak_route s a \<or> psum b (Suc k) < acc + acount (shards x ! k) \<or> disturbed (Suc k) s a b
        \<or> unreachable s a)"
proof -
  have ge: "b k \<le> acount (shards x ! k)" using b(1) x k untagged by (auto simp: baseline_def above_def)
  have "b k < acount (shards x ! k) \<or> disturbed (Suc k) s a b" if "disturbed k s a b"
  proof -
    obtain i where i: "k \<le> i" "i < nshards s" "atag (shards x ! i) \<or> b i < acount (shards x ! i)"
      using \<open>disturbed k s a b\<close> x by (auto simp: disturbed_def)
    show ?thesis
    proof (cases "i = k")
      case True
      then show ?thesis using i untagged by simp
    next
      case False
      then show ?thesis using i x by (auto simp: disturbed_def)
    qed
  qed
  then show ?thesis using d ge b(2) by (auto simp: psum_Suc)
qed

lemma safe_check:
  assumes inv: "res_inv s" and gc: "gc_inv s"
  shows "safe_outcome (check_step s)"
proof (cases "at_cpc s")
  case (CCheck a k acc)
  then obtain b where p: "tracked s a = Some RequiresReChecking" "a \<notin> set (todo s)" "k \<le> nshards s"
    and b: "baseline s a b" "psum b k \<le> acc"
    and d: "weak_route s a \<or> psum b k < acc \<or> disturbed k s a b \<or> unreachable s a"
    using gc_invD(9) [OF gc] by auto
  obtain x where x: "obj_at s a = Some x" using alive_tracked [OF gc p(1)] by blast
  have default: "safe_outcome (Next (set_state a DefaultState s))"
    by (rule state_step [OF inv gc _ p(2,1)]) (simp_all add: CCheck)
  show ?thesis
  proof (cases "k < nshards s")
    case k: True
    let ?c = "CCheck a (Suc k) (acc + acount (shards x ! k))"
    have "safe_outcome (Next (s\<lparr>at_cpc := ?c\<rparr>))" if "\<not> atag (shards x ! k)"
    proof (rule position_step [OF inv gc])
      have "same_world s (s\<lparr>at_cpc := ?c\<rparr>)" by auto
      then show "phase_ok ?c (s\<lparr>at_cpc := ?c\<rparr>)"
        using check_advances [OF b x k that d] b(1) p k by (simp add: world) blast
    qed (simp_all add: CCheck)
    then show ?thesis using default x k CCheck by (simp add: check_step_def deref_def)
  next
    case False
    then have k: "k = nshards s" using p(3) by simp
    then have "0 \<le> acc" using b by (simp add: baseline_def)
    moreover have "safe_outcome (Next (s\<lparr>at_cpc := CWeak a\<rparr>))" if "acc = 0"
    proof (rule position_step [OF inv gc])
      have "weak_route s a \<or> unreachable s a"
        using d that k b(1) by (auto simp: baseline_def disturbed_def)
      moreover have "same_world s (s\<lparr>at_cpc := CWeak a\<rparr>)" by auto
      ultimately show "phase_ok (CWeak a) (s\<lparr>at_cpc := CWeak a\<rparr>)" using p by (simp add: world)
    qed (simp_all add: CCheck)
    ultimately show ?thesis using default k CCheck by (simp add: check_step_def)
  qed
qed (simp_all add: check_step_def)

section \<open>Clearing the tags\<close>

lemma put_other:
  assumes x: "obj_at s a = Some x" and y: "weak_ref y = weak_ref x" "back_ref y = back_ref x"
    and s': "heap s' = heap (put a y s)" "handles s' = handles s" "cells s' = cells s" "thrs s' = thrs s"
      "nshards s' = nshards s"
  shows "tokens s' c = tokens s c" "weak_route s' c = weak_route s c" "unreachable s' c = unreachable s c"
    "obj_at s' c = (if c = a then Some y else obj_at s c)"
    "c \<noteq> a \<Longrightarrow> baseline s' c = baseline s c" "c \<noteq> a \<Longrightarrow> disturbed k s' c b = disturbed k s c b"
proof -
  have o: "obj_at s' c = (if c = a then Some y else obj_at s c)" for c
    using obj_at_put [OF obj_at_less [OF x], of y c] obj_at_cong [OF s'(1), of c] by simp
  have t: "tokens s' c = tokens s c" for c
  proof -
    have "tokens s' c = tokens (put a y s) c" using s' by (intro tokens_cong) simp_all
    then show ?thesis using tokens_put [OF x y(1), of c] by simp
  qed
  have old: "\<exists>z0. obj_at s d = Some z0 \<and> weak_ref z0 = weak_ref z \<and> back_ref z0 = back_ref z"
    if "obj_at s' d = Some z" for d z using that o [of d] x y by (auto split: if_splits)
  have new: "\<exists>z0. obj_at s' d = Some z0 \<and> weak_ref z0 = weak_ref z \<and> back_ref z0 = back_ref z"
    if "obj_at s d = Some z" for d z using that o [of d] x y by (auto split: if_splits)
  have w1: "weak_route s c" if "weak_route s' c" for c
    using that old unfolding weak_route_def by metis
  have w2: "weak_route s' c" if "weak_route s c" for c
    using that new unfolding weak_route_def by metis
  have w: "weak_route s' c = weak_route s c" for c using w1 w2 by blast
  show "obj_at s' c = (if c = a then Some y else obj_at s c)" "tokens s' c = tokens s c"
    "weak_route s' c = weak_route s c" by (fact o t w)+
  show "unreachable s' c = unreachable s c"
    by (simp add: unreachable_def t w guard_on_def loading_def s')
  show "baseline s' c = baseline s c" "disturbed k s' c b = disturbed k s c b" if "c \<noteq> a"
    using that by (simp_all add: baseline_def above_def disturbed_def o s' fun_eq_iff)
qed

lemma put_keeps_res_inv:
  assumes inv: "res_inv s" and x: "obj_at s a = Some x" and y: "weak_ref y = weak_ref x" "back_ref y = back_ref x"
    "length (shards y) = length (shards x)" "total y = total x"
    and s': "heap s' = heap (put a y s)" "handles s' = handles s" "cells s' = cells s" "thrs s' = thrs s"
      "nshards s' = nshards s" "length (pending s') = length (pending s)"
  shows "res_inv s'"
proof -
  note o = put_other [OF x y(1,2) s'(1-5)]
  have live: "length (shards z) = nshards s' \<and> total z = int (tokens s' c)" if "obj_at s' c = Some z" for c z
    using that res_invD(2) [OF inv] x y by (auto simp: o(1,4) s' split: if_splits)
  have dead: "tokens s' c = 0 \<and> (\<forall>t j. \<not> guard_on s' t j c) \<and> (\<forall>t. \<not> loading s' t c)"
    if "obj_at s' c = None" for c
    using that res_invD(3-5) [OF inv, of c]
    by (auto simp: o(1,4) guard_on_def loading_def s' split: if_splits)
  have old: "\<exists>z0. obj_at s c = Some z0 \<and> weak_ref z0 = weak_ref z \<and> back_ref z0 = back_ref z"
    if "obj_at s' c = Some z" for c z using that x y by (auto simp: o(4) split: if_splits)
  have new: "\<exists>z0. obj_at s' c = Some z0 \<and> weak_ref z0 = weak_ref z"
    if "obj_at s c = Some z" for c z using that x y by (auto simp: o(4))
  have backs: "\<exists>z. obj_at s' c = Some z \<and> weak_ref z = Some w" if v: "obj_at s' w = Some v" "back_ref v = Some c" for w v c
  proof -
    obtain v0 where "obj_at s w = Some v0" "back_ref v0 = Some c" using old [OF v(1)] v(2) by auto
    then obtain z where "obj_at s c = Some z" "weak_ref z = Some w" using res_invD(6) [OF inv] by blast
    then show ?thesis using new by metis
  qed
  have uniq: "back_ref v = None \<or> back_ref v = Some c"
    if z: "obj_at s' c = Some z" "weak_ref z = Some w" "obj_at s' w = Some v" for c z w v
    using old [OF z(1)] old [OF z(3)] z(2) res_invD(8) [OF inv] by metis
  show ?thesis
    unfolding res_inv_def using live dead backs uniq s'(4-6) res_invD(1) [OF inv] inv
    by (auto simp: res_inv_def)
qed

lemma total_clear_tag: "k < length (shards x) \<Longrightarrow> total (on_shard k a_clear_tag x) = total x"
  by (simp add: total_on_shard)

lemma safe_clear_tags:
  assumes inv: "res_inv s" and gc: "gc_inv s"
  shows "safe_outcome (clear_tags_step s)"
proof (cases "at_cpc s")
  case (CClear a k acc)
  then obtain b where p: "tracked s a = Some DefaultState" "a \<notin> set (todo s)" "k \<le> nshards s"
    and b: "psum b k = acc" "above s a b k"
    using gc_invD(9) [OF gc] by auto
  obtain x where x: "obj_at s a = Some x" using alive_tracked [OF gc p(1)] by blast
  have len: "length (shards x) = nshards s" using res_invD(2) [OF inv x] by simp
  show ?thesis
  proof (cases "k < nshards s")
    case k: True
    let ?y = "on_shard k a_clear_tag x" and ?c = "CClear a (Suc k) (acc + acount (shards x ! k))"
    let ?s = "put a ?y (s\<lparr>at_cpc := ?c\<rparr>)"
    have h: "heap ?s = heap (put a ?y s)" by (simp add: put_def)
    have res: "res_inv ?s"
      by (rule put_keeps_res_inv [OF inv x _ _ _ _ h]) (use k len in \<open>simp_all add: total_clear_tag\<close>)
    note o = put_other [OF x _ _ h, simplified]
    let ?b = "b(k := acount (shards x ! k))"
    have "above ?s a ?b (Suc k)"
      using b(2) x k len by (auto simp: above_def o(4) nth_on_shard less_Suc_eq)
    moreover have "psum ?b (Suc k) = acc + acount (shards x ! k)"
      using psum_cong [of k ?b b] b(1) by (simp add: psum_Suc)
    ultimately have phase: "phase_ok ?c ?s" using p k by simp blast
    have cov: "covered ?s c" if "covered s c" "c \<noteq> a" for c
      using that by (auto simp: covered_def o CClear sheltered_visiting)
    have "tracking_inv ?s"
      using gc_invD(1) [OF gc] x unfolding tracking_inv_def by (auto simp: o(4))
    moreover have "(\<exists>b. baseline ?s c b) \<and> (c \<in> set (todo s) \<longrightarrow> covered ?s c)"
      if "tracked s c = Some RequiresReChecking" for c
    proof -
      have "c \<noteq> a" using that p(1) by auto
      then show ?thesis using gc_invD(2,3) [OF gc that] cov o(5) by auto
    qed
    ultimately have "gc_inv ?s"
      unfolding gc_inv_def using gc_invD(4-8) [OF gc] phase by (simp add: o(3) del: phase_ok.simps)
    then show ?thesis using res x k CClear by (simp add: clear_tags_step_def deref_def)
  next
    case False
    then have k: "k = nshards s" using p(3) by simp
    have "safe_outcome (Next (set_state a RequiresReChecking s))" if "acc = 0"
      by (rule state_step [OF inv gc _ p(2,1)]) (use b that k in \<open>auto simp: CClear baseline_def\<close>)
    moreover have "safe_outcome (Next (set_state a DefaultState s))"
      by (rule state_step [OF inv gc _ p(2,1)]) (simp_all add: CClear)
    ultimately show ?thesis using k CClear by (simp add: clear_tags_step_def)
  qed
qed (simp_all add: clear_tags_step_def)

end
