(* ===== verification/Freeing.thy ===== *)
theory Freeing
  imports CounterReads
begin

text \<open>
  The last two steps for an object: clearing the back reference of its weak object, after which
  it waits one more iteration, and the free. Then the two invariants hold in every reachable
  state.
\<close>

section \<open>Clearing the weak back reference\<close>

lemma safe_ready:
  assumes inv: "res_inv s" and gc: "gc_inv s" and c: "at_cpc s = CWeak a"
    and u: "unreachable s a"
  shows "safe_outcome (Next (ready_to_free a s))"
proof -
  let ?s = "ready_to_free a s"
  note I = gc_invD [OF gc]
  have p: "tracked s a = Some RequiresReChecking" "a \<notin> set (todo s)" using I(9) c by simp_all
  have nf: "a \<notin> set (tofree s)" using I(4) [of a] p(1) by auto
  have w: "same_world s ?s" by (auto simp: ready_to_free_def set_state_def)
  show ?thesis
  proof (rule control_step [OF inv gc w])
    fix d
    show "tracked ?s d = None \<longleftrightarrow> tracked s d = None" using p by (simp add: ready_to_free_def set_state_def)
    show "tracked ?s d = Some ReadyToFree \<longleftrightarrow> d \<in> set (tofree ?s)"
      using I(4) [of d] by (auto simp: ready_to_free_def set_state_def)
    show "covered ?s d" if "tracked ?s d = Some RequiresReChecking" "d \<in> set (todo ?s)"
    proof (rule covered_weaken [OF w])
      show "covered s d" using that I(3) [of d] by (auto simp: ready_to_free_def set_state_def split: if_splits)
    qed (auto simp: c sheltered_visiting ready_to_free_def set_state_def)
    show "\<exists>b. baseline s d b" if "tracked ?s d = Some RequiresReChecking"
      using that I(2) [of d] by (auto simp: ready_to_free_def set_state_def split: if_splits)
    show "unreachable s d" if "d \<in> set (tofree ?s)"
      using that u I(6) by (auto simp: ready_to_free_def set_state_def)
  qed (use I p nf in \<open>auto simp: ready_to_free_def set_state_def\<close>)
qed

lemma safe_clear_weak:
  assumes inv: "res_inv s" and gc: "gc_inv s"
  shows "safe_outcome (clear_weak_backref s)"
proof (cases "at_cpc s")
  case (CWeak a)
  note I = gc_invD [OF gc]
  have p: "tracked s a = Some RequiresReChecking" "a \<notin> set (todo s)" "weak_route s a \<or> unreachable s a"
    using I(9) CWeak by simp_all
  obtain x where x: "obj_at s a = Some x" using alive_tracked [OF gc p(1)] by blast
  have ready: "safe_outcome (Next (ready_to_free a s))" if "\<not> weak_route s a"
    using safe_ready [OF inv gc CWeak] p(3) that by blast
  show ?thesis
  proof (cases "weak_ref x")
    case None
    then have "\<not> weak_route s a" using x by (auto simp: weak_route_def)
    then show ?thesis using ready x None CWeak by (simp add: clear_weak_backref_def deref_def)
  next
    case (Some w)
    obtain y where y: "obj_at s w = Some y" using weak_ref_alive(2) [OF inv x Some] by blast
    show ?thesis
    proof (cases "back_ref y")
      case None
      then have "\<not> weak_route s a" using x y Some by (auto simp: weak_route_def)
      then show ?thesis using ready x y Some None CWeak by (simp add: clear_weak_backref_def deref_def)
    next
      case bs: (Some a')
      then have a': "back_ref y = Some a" using res_invD(8) [OF inv x Some y] by simp
      let ?y = "y\<lparr>back_ref := None\<rparr>"
      let ?s = "set_state a RequiresReChecking (put w ?y s)"
      have o: "obj_at ?s c = (if c = w then Some ?y else obj_at s c)" for c
        using obj_at_put [OF obj_at_less [OF y], of ?y c] by (simp add: set_state_def)
      have t: "tokens ?s c = tokens s c" for c
        using tokens_put [OF y, of ?y c] by (simp add: set_state_def tokens_def)
      have th: "thrs ?s = thrs s" "nshards ?s = nshards s" "pending ?s = pending s" "todo ?s = todo s"
        "tofree ?s = tofree s" "hz ?s = hz s" "at_cpc ?s = CVisit"
        "tracked ?s = (tracked s)(a := Some RequiresReChecking)"
        by (simp_all add: set_state_def)
      have g: "guard_on ?s u j c = guard_on s u j c" "loading ?s u c = loading s u c" for u j c
        by (simp_all add: guard_on_def loading_def th)
      have b: "baseline ?s c = baseline s c" "disturbed k ?s c e = disturbed k s c e" for c e k
        by (auto simp: baseline_def above_def disturbed_def o th y fun_eq_iff)
      have wr: "weak_route ?s c \<longleftrightarrow> weak_route s c" if "c \<noteq> a" for c
      proof -
        have old: "obj_at s d = Some z \<Longrightarrow> \<exists>z'. obj_at ?s d = Some z' \<and> weak_ref z' = weak_ref z
            \<and> (back_ref z = Some c \<longrightarrow> back_ref z' = Some c)" for d z
          using a' y that by (auto simp: o)
        have new: "obj_at ?s d = Some z \<Longrightarrow> \<exists>z'. obj_at s d = Some z' \<and> weak_ref z' = weak_ref z
            \<and> (back_ref z = Some c \<longrightarrow> back_ref z' = Some c)" for d z
          using y by (auto simp: o split: if_splits)
        have "weak_route ?s c" if "weak_route s c" using that old unfolding weak_route_def by metis
        moreover have "weak_route s c" if "weak_route ?s c" using that new unfolding weak_route_def by metis
        ultimately show ?thesis by blast
      qed
      have nwr: "\<not> weak_route ?s a"
      proof
        assume "weak_route ?s a"
        then obtain v z z' where z: "obj_at ?s a = Some z" "weak_ref z = Some v" "obj_at ?s v = Some z'"
          "back_ref z' = Some a" unfolding weak_route_def by blast
        have "weak_ref z = Some w" using z(1) Some x y unfolding o by (auto split: if_splits)
        then show False using z(2-4) unfolding o by (auto split: if_splits)
      qed
      have u: "unreachable s c \<Longrightarrow> unreachable ?s c" for c
        using wr nwr by (cases "c = a") (simp_all add: unreachable_def t g)
      have res: "res_inv ?s"
      proof -
        have bks: "\<exists>z. obj_at ?s c = Some z \<and> weak_ref z = Some v" if bv: "obj_at ?s v = Some z'" "back_ref z' = Some c" for v z' c
        proof -
          have "v \<noteq> w" "obj_at s v = Some z'" using bv by (auto simp: o split: if_splits)
          then obtain z where "obj_at s c = Some z" "weak_ref z = Some v" using res_invD(6) [OF inv _ bv(2)] by blast
          then show ?thesis using y unfolding o by (cases "c = w") auto
        qed
        have unq: "back_ref z' = None \<or> back_ref z' = Some c"
          if bv: "obj_at ?s c = Some z" "weak_ref z = Some v" "obj_at ?s v = Some z'" for c z v z'
        proof -
          obtain z0 where "obj_at s c = Some z0" "weak_ref z0 = Some v" using bv y by (auto simp: o split: if_splits)
          then show ?thesis using bv(3) res_invD(8) [OF inv] by (auto simp: o split: if_splits)
        qed
        have lv: "length (shards z) = nshards s \<and> total z = int (tokens s c)" if "obj_at ?s c = Some z" for c z
          using that res_invD(2) [OF inv] y by (auto simp: o total_def split: if_splits)
        have "obj_at s c = None" if "obj_at ?s c = None" for c using that by (simp add: o split: if_splits)
        then have dd: "tokens s c = 0 \<and> (\<forall>t j. \<not> guard_on s t j c) \<and> (\<forall>t. \<not> loading s t c)"
          if "obj_at ?s c = None" for c using that res_invD(3-5) [OF inv] by blast
        have "\<forall>th\<in>set (thrs s). thr_ok th" using inv by (simp add: res_inv_def)
        then show ?thesis
          unfolding res_inv_def th t g using res_invD(1) [OF inv] bks unq lv dd by blast
      qed
      have cov: "covered ?s c" if "covered s c" "c \<noteq> a" for c
        using that wr u by (auto simp: covered_def b th CWeak sheltered_visiting)
      have "tracking_inv ?s"
        using I(1) y p(1) unfolding tracking_inv_def th by (auto simp: o)
      moreover have "(\<exists>e. baseline ?s c e) \<and> (c \<in> set (todo s) \<longrightarrow> covered ?s c)"
        if "tracked ?s c = Some RequiresReChecking" for c
        using that I(2,3) [of c] cov [of c] p b by (cases "c = a") (auto simp: th)
      moreover have "tracked ?s c = Some ReadyToFree \<longleftrightarrow> c \<in> set (tofree s)" for c
        using I(4) [of c] p(1) by (auto simp: th)
      ultimately have "gc_inv ?s"
        unfolding gc_inv_def using I(5-8) u by (simp add: th)
      then show ?thesis
        using res x y Some bs CWeak by (simp add: clear_weak_backref_def deref_def)
    qed
  qed
qed (simp_all add: clear_weak_backref_def)

section \<open>The free\<close>

lemma safe_free:
  assumes inv: "res_inv s" and gc: "gc_inv s"
  shows "safe_outcome (free_step i s)"
proof (cases "at_cpc s = CFreeing \<and> i < nshards s")
  case True
  note I = gc_invD [OF gc]
  have td: "todo s = []" using I(9) True by simp
  show ?thesis
  proof (cases "tofree s")
    case Nil
    have "safe_outcome (Next (s\<lparr>at_cpc := CIdle\<rparr>))"
      using I td Nil by (intro control_step [OF inv gc]) auto
    then show ?thesis using True Nil by (simp add: free_step_def)
  next
    case (Cons a rest)
    have ta: "tracked s a = Some ReadyToFree" and u: "unreachable s a" using I(4,6) [of a] Cons by simp_all
    have ar: "a \<notin> set rest" "distinct rest" using I(5) Cons by simp_all
    obtain x where x: "obj_at s a = Some x" using alive_tracked [OF gc ta] by blast
    have z: "tokens s a = 0" using u by (simp add: unreachable_def)
    have noref: "weak_ref v \<noteq> Some a" if "obj_at s c = Some v" for c v
      using weak_ref_alive(1) [OF inv that, of a] z by auto
    have nb: "back_ref x = None"
    proof (cases "back_ref x")
      case (Some c)
      then obtain v where "obj_at s c = Some v" "weak_ref v = Some a" using res_invD(6) [OF inv x] by blast
      then show ?thesis using noref by blast
    qed simp
    let ?f = "s\<lparr>tracked := (tracked s)(a := None), tofree := rest, heap := (heap s)[a := None]\<rparr>"
    have len: "a < length (heap s)" using obj_at_less [OF x] .
    have oF: "obj_at ?f c = (if c = a then None else obj_at s c)" for c
      using len by (auto simp: obj_at_def)
    have tf: "tokens ?f c + (if weak_ref x = Some c then 1 else 0) = tokens s c" for c
      using count_where_update [OF len, of "holds_weak c" None] heap_obj_at [OF x]
      by (simp add: tokens_def holds_weak_def)
    have finish: ?thesis if s': "drop_weak_inner_ref (weak_ref x) i ?f = Next s'"
      and fields: "nshards s' = nshards s" "handles s' = handles s" "cells s' = cells s" "thrs s' = thrs s"
        "pending s' = pending s" "tracked s' = (tracked s)(a := None)" "at_cpc s' = CFreeing" "todo s' = []"
        "tofree s' = rest"
      and o: "\<And>c v. c \<noteq> a \<Longrightarrow> obj_at s c = Some v \<Longrightarrow> \<exists>v'. obj_at s' c = Some v' \<and> grows v v' \<and> weak_ref v' = weak_ref v
            \<and> total v' - total v = int (tokens s' c) - int (tokens s c)"
      and gone: "obj_at s' a = None" "\<And>c. obj_at s c = None \<Longrightarrow> obj_at s' c = None"
      and le: "\<And>c. tokens s' c \<le> tokens s c" for s'
    proof -
      have g: "guard_on s' t j c = guard_on s t j c" "loading s' t c = loading s t c" for t j c
        by (simp_all add: guard_on_def loading_def fields)
      have bk: "\<exists>v. obj_at s c = Some v \<and> weak_ref v' = weak_ref v \<and> back_ref v' = back_ref v \<and> c \<noteq> a"
        if v': "obj_at s' c = Some v'" for c v'
        using v' gone o [of c] by (cases "obj_at s c"; cases "c = a") (auto simp: grows_def)
      have live: "length (shards v') = nshards s' \<and> total v' = int (tokens s' c)" if v': "obj_at s' c = Some v'" for c v'
      proof -
        obtain v where v: "obj_at s c = Some v" "c \<noteq> a" using bk [OF v'] by blast
        show ?thesis using o [OF v(2,1)] v' res_invD(2) [OF inv v(1)] fields by (auto simp: grows_def)
      qed
      have dead: "tokens s' c = 0 \<and> (\<forall>t j. \<not> guard_on s t j c) \<and> (\<forall>t. \<not> loading s t c)"
        if d: "obj_at s' c = None" for c
      proof (cases "c = a")
        case True
        then show ?thesis using u le [of a] by (simp add: unreachable_def)
      next
        case False
        then have "obj_at s c = None" using o [OF False] d by (cases "obj_at s c") auto
        then show ?thesis using res_invD(3-5) [OF inv] le [of c] by (metis le_zero_eq)
      qed
      have backs: "\<exists>v. obj_at s' c = Some v \<and> weak_ref v = Some w"
        if y: "obj_at s' w = Some y" "back_ref y = Some c" for w y c
      proof -
        obtain y0 where y0: "obj_at s w = Some y0" "back_ref y0 = Some c" using bk [OF y(1)] y(2) by auto
        then obtain v where v: "obj_at s c = Some v" "weak_ref v = Some w" using res_invD(6) [OF inv] by blast
        then have "c \<noteq> a" using u y0 by (auto simp: unreachable_def weak_route_def)
        then show ?thesis using o [OF _ v(1)] v(2) by auto
      qed
      have uniq: "back_ref y = None \<or> back_ref y = Some c"
        if v: "obj_at s' c = Some v" "weak_ref v = Some w" "obj_at s' w = Some y" for c v w y
        using bk [OF v(1)] bk [OF v(3)] v(2) res_invD(8) [OF inv] by metis
      have res: "res_inv s'"
        unfolding res_inv_def g using live dead backs uniq fields inv by (auto simp: res_inv_def)
      have ab: "above s' c b k" if abv: "above s c b k" "c \<noteq> a" "k \<le> nshards s" for c b k
      proof -
        obtain v where v: "obj_at s c = Some v" "\<And>i. i < k \<Longrightarrow> atag (shards v ! i) \<or> b i \<le> acount (shards v ! i)"
          using abv(1) by (auto simp: above_def)
        obtain v' where v': "obj_at s' c = Some v'" "grows v v'" using o [OF abv(2) v(1)] by blast
        have "atag (shards v' ! i) \<or> b i \<le> acount (shards v' ! i)" if i: "i < k" for i
        proof -
          have "i < length (shards v)" using res_invD(2) [OF inv v(1)] i \<open>k \<le> nshards s\<close> by simp
          then show ?thesis using v'(2) v(2) [OF i] by (fastforce simp: grows_def)
        qed
        then show ?thesis using v'(1) by (auto simp: above_def)
      qed
      have bl: "\<exists>b. baseline s' c b" if "tracked s' c = Some RequiresReChecking" for c
        using that I(2) [of c] ab [of c] fields by (auto simp: baseline_def split: if_splits)
      have nwr: "\<not> weak_route s' c" if "\<not> weak_route s c" for c
        using that bk unfolding weak_route_def by metis
      have un: "unreachable s' c" if "c \<in> set rest" for c
      proof -
        have "unreachable s c" using I(6) [of c] Cons that by simp
        then show ?thesis using nwr le [of c] by (simp add: unreachable_def g)
      qed
      have al: "obj_at s c \<noteq> None \<longleftrightarrow> c \<in> set (concat (pending s)) \<or> tracked s c \<noteq> None"
        and pn: "c \<in> set (concat (pending s)) \<Longrightarrow> tracked s c = None" for c
        using I(1) unfolding tracking_inv_def by blast+
      have "obj_at s' c \<noteq> None \<longleftrightarrow> c \<in> set (concat (pending s')) \<or> tracked s' c \<noteq> None" for c
      proof (cases "c = a")
        case True
        then show ?thesis using gone ta pn [of a] by (auto simp: fields simp del: set_concat)
      next
        case False
        have "obj_at s' c \<noteq> None \<longleftrightarrow> obj_at s c \<noteq> None"
          using o [OF False] gone(2) [of c] by (cases "obj_at s c") auto
        then show ?thesis using al [of c] False by (simp add: fields del: set_concat)
      qed
      then have "tracking_inv s'"
        using I(1) unfolding tracking_inv_def by (simp add: fields)
      moreover have "tracked s' c = Some ReadyToFree \<longleftrightarrow> c \<in> set (tofree s')" for c
        using I(4) [of c] Cons ar by (auto simp: fields)
      ultimately have "gc_inv s'"
        unfolding gc_inv_def using bl un ar by (simp add: fields)
      then show ?thesis
        using res s' True Cons ta x nb by (simp add: free_step_def deref_def)
    qed
    show ?thesis
    proof (cases "weak_ref x")
      case None
      show ?thesis
        by (rule finish [of ?f]) (use None tf oF td True in \<open>auto simp: drop_weak_inner_ref_def\<close>)
    next
      case (Some w)
      have wa: "w \<noteq> a" using noref [OF x] Some by auto
      obtain y where y: "obj_at s w = Some y" using weak_ref_alive(2) [OF inv x Some] by blast
      then have yf: "obj_at ?f w = Some y" using oF wa by simp
      let ?y = "on_shard i a_decremented y"
      have ol: "obj_at (put w ?y ?f) c = (if c = w then Some ?y else obj_at ?f c)" for c
        by (rule obj_at_put [OF obj_at_less [OF yf]])
      have tl: "tokens (put w ?y ?f) c = tokens ?f c" for c by (rule tokens_put [OF yf]) simp
      have tot: "total ?y = total y - 1"
        using total_on_shard [of i y a_decremented] res_invD(2) [OF inv y] True by simp
      show ?thesis
      proof (rule finish [of "put w ?y ?f"])
        show "drop_weak_inner_ref (weak_ref x) i ?f = Next (put w ?y ?f)"
          using yf Some by (simp add: drop_weak_inner_ref_def deref_def)
        show "tokens (put w ?y ?f) c \<le> tokens s c" for c using tl [of c] tf [of c] by simp
        show "\<exists>v'. obj_at (put w ?y ?f) c = Some v' \<and> grows v v' \<and> weak_ref v' = weak_ref v
            \<and> total v' - total v = int (tokens (put w ?y ?f) c) - int (tokens s c)"
          if c: "c \<noteq> a" "obj_at s c = Some v" for c v
        proof (cases "c = w")
          case True
          then have "v = y" "obj_at (put w ?y ?f) c = Some ?y" using c y ol [of c] by simp_all
          then show ?thesis
            using True tl [of c] tf [of c] Some tot grows_on_shard(2) [of y i]
            by (intro exI [of _ ?y]) simp
        next
          case False
          then have "obj_at (put w ?y ?f) c = Some v" using c ol [of c] oF [of c] by simp
          then show ?thesis using False tl [of c] tf [of c] Some by (intro exI [of _ v]) simp
        qed
        show "obj_at (put w ?y ?f) a = None" using wa by (simp add: ol oF)
        show "obj_at (put w ?y ?f) c = None" if "obj_at s c = None" for c
          using that y by (auto simp: ol oF)
      qed (use td True in simp_all)
    qed
  qed
next
  case False
  then show ?thesis by (auto simp: free_step_def)
qed

end
