(* ===== verification/Safety.thy ===== *)
theory Safety
  imports Freeing
begin

text \<open>
  Memory safety of the whole machine: both invariants hold in every reachable state, so no step
  of any thread or of the collector touches freed memory or fails an assertion. The consequences
  users rely on, and the one operation that breaks the argument when it is interrupted.
\<close>

section \<open>Every reachable state has the invariants\<close>

lemma start_invariants:
  assumes "n > 0"
  shows "res_inv (start n addrs cs) \<and> gc_inv (start n addrs cs)"
proof
  have o: "obj_at (start n addrs cs) a = None" for a by (simp add: obj_at_def start_def)
  have "tokens (start n addrs cs) a = 0" for a
    by (simp add: tokens_def start_def count_where_replicate holds_weak_def)
  then show "res_inv (start n addrs cs)"
    using assms unfolding res_inv_def o by (simp add: guard_on_def loading_def start_def)
  show "gc_inv (start n addrs cs)"
    unfolding gc_inv_def tracking_inv_def o by (simp add: start_def)
qed

lemma good_safe:
  assumes "res_inv s" and "gc_inv s" and "good s r"
  shows "safe_outcome r"
  using assms effect_keeps_gc_inv by (cases r) auto

definition release_with_guard :: "label \<Rightarrow> sys \<Rightarrow> bool" where
  "release_with_guard l s \<longleftrightarrow> (\<exists>t j a. l = LRelease t \<and> j < HZ_PTR_SLOT_COUNT \<and> guard_on s t j a)"

lemma step_safe:
  assumes inv: "res_inv s" and gc: "gc_inv s"
  shows "safe_outcome (step l s) \<or> step l s = Panic \<and> release_with_guard l s"
proof (cases "\<exists>t. l = LRelease t")
  case True
  then obtain t where l: "l = LRelease t" by blast
  show ?thesis
    using release_outcome [OF inv, of t] good_safe [OF inv gc] by (auto simp: l release_with_guard_def)
next
  case False
  note g = good_steps [OF inv, THEN good_safe [OF inv gc]]
  note c = safe_take [OF inv gc] safe_begin [OF inv gc] safe_traverse_begin [OF inv gc]
    safe_traverse_step [OF inv gc] safe_visit_next [OF inv gc] safe_read_relaxed [OF inv gc]
    safe_clear_tags [OF inv gc] safe_check [OF inv gc] safe_clear_weak [OF inv gc] safe_free [OF inv gc]
  show ?thesis using False by (cases l) (simp_all only: step.simps g c simp_thms, blast)
qed

lemma reach_invariants: "reach s \<Longrightarrow> res_inv s \<and> gc_inv s"
proof (induction rule: reach.induct)
  case (reach_start n addrs cs)
  then show ?case by (rule start_invariants)
next
  case (reach_step s l s')
  then show ?case using step_safe [of s l] by (auto)
qed

lemma start_reach [intro]: "n > 0 \<Longrightarrow> run ls (start n addrs cs) = Next s \<Longrightarrow> reach s"
  by (rule run_reach [OF reach_start])

section \<open>Properties\<close>


text \<open>A thread borrows an object, it is swapped out and dropped, the collector visits it twice.\<close>

definition borrowed_trace :: "label list" where
  "borrowed_trace = [LNew 0 0 0, LSwap 0 (Some 0), LPush, LBorrowPreload 0 (Cell 0), LPublish 0,
     LBorrowReload 0, LSwap 0 None, LDrop 0 1, CTake 0,
     CBegin [0], CTraverseBegin] @ replicate 16 CTraverse @ [CTraverse, CVisitNext, CVisitNext, CFree 0]"


text \<open>
  C10: whoever can still reach an object finds it alive. In every reachable state an object with a
  strong handle, in an atomic pointer, behind a borrow guard, loaded by a reader inside the
  critical section, or named by the back reference of a live weak object has not been freed.
\<close>

lemma reach_alive:
  assumes "reach s"
    and "handles s a > 0 \<or> Some a \<in> set (cells s) \<or> guard_on s t j a \<or> loading s t a
      \<or> (\<exists>w y. obj_at s w = Some y \<and> back_ref y = Some a)"
  shows "obj_at s a \<noteq> None"
proof
  assume none: "obj_at s a = None"
  have inv: "res_inv s" using reach_invariants [OF assms(1)] by simp
  have "tokens s a = 0" using res_invD(3) [OF inv none] .
  then have "handles s a = 0" "count_where (\<lambda>c. c = Some a) (cells s) = 0" by (simp_all add: tokens_def)
  then have "handles s a = 0" "Some a \<notin> set (cells s)" using count_where_pos [of "\<lambda>c. c = Some a" "cells s"] by auto
  then show False
    using assms(2) res_invD(4,5) [OF inv none] res_invD(6) [OF inv] none by fastforce
qed




definition moved_trace :: "label list" where
  "moved_trace = [LNew 0 0 0, LClone 0 0, LDrop 0 1, LSwap 0 (Some 0)]"



definition free_trace :: "label list" where
  "free_trace = [LNew 0 0 0, LDrop 0 1, CTake 0, CBegin [0], CTraverseBegin, CTraverse, CVisitNext]
     @ replicate 3 CReadRelaxed @ replicate 3 CClearTags @ [CVisitNext, CFree 0]
     @ [CBegin [0], CTraverseBegin, CTraverse, CVisitNext] @ replicate 3 CCheckTags
     @ [CClearWeak, CVisitNext]"


lemma put_back_ref:
  "\<lbrakk>obj_at (put v z s) w = Some y'; obj_at s v = Some z0; back_ref z = back_ref z0 \<or> back_ref z = None;
    obj_at s w = Some y; back_ref y = None\<rbrakk> \<Longrightarrow> back_ref y' = None"
  using obj_at_put [OF obj_at_less, of s v z0 z w] by (auto split: if_splits)

lemma good_back_ref:
  assumes "good s (step l s)" and "step l s = Next s'" and "obj_at s w = Some y" and "obj_at s' w = Some y'"
  shows "back_ref y' = back_ref y"
proof -
  have "heap_effect s s'" using assms(1,2) by (simp add: effect_def)
  then show ?thesis using effect_grows [of s s' w y] assms(3,4) by (metis grows_def option.inject)
qed

lemma weak_clear_final:
  assumes inv: "res_inv s" and y: "obj_at s w = Some y" "back_ref y = None" and st: "step l s = Next s'"
    and y': "obj_at s' w = Some y'"
  shows "back_ref y' = None"
proof (cases "good s (step l s)")
  case True
  then show ?thesis using good_back_ref [OF True st y(1) y'] y(2) by simp
next
  case bad: False
  show ?thesis
  proof (cases l)
    case (LRelease t)
    then show ?thesis using release_outcome [OF inv, of t] st bad by auto
  next
    case (CTake j)
    then show ?thesis using st y y'
      by (auto simp: take_new_counters_to_track_def split: if_splits option.splits)
  next
    case CClearTags
    then show ?thesis using st y y' put_back_ref
      by (fastforce simp: clear_tags_step_def set_state_def deref_def split: if_splits option.splits cpc.splits)
  next
    case CClearWeak
    then show ?thesis using st y y' put_back_ref
      by (fastforce simp: clear_weak_backref_def set_state_def ready_to_free_def deref_def
          split: if_splits option.splits cpc.splits)
  next
    case (CFree i)
    then show ?thesis using st y y'
      by (fastforce simp: free_step_def deref_def drop_weak_inner_ref_def obj_at_def put_def nth_list_update
          split: if_splits option.splits list.splits)
  next
    case (CBegin visit)
    then show ?thesis using st y y' by (auto simp: begin_iteration_def split: if_splits)
  next
    case CTraverseBegin
    then show ?thesis using st y y' by (auto simp: traverse_begin_def split: if_splits)
  next
    case CTraverse
    then show ?thesis using st y y' by (auto simp: traverse_step_def split: if_splits cpc.splits option.splits)
  next
    case CVisitNext
    then show ?thesis using st y y'
      by (auto simp: visit_next_def set_state_def split: if_splits list.splits option.splits tstate.splits)
  next
    case CReadRelaxed
    then show ?thesis using st y y'
      by (auto simp: read_relaxed_step_def set_state_def deref_def split: if_splits cpc.splits option.splits)
  next
    case CCheckTags
    then show ?thesis using st y y'
      by (auto simp: check_step_def set_state_def deref_def split: if_splits cpc.splits option.splits)
  qed (use bad good_steps [OF inv] in \<open>simp_all only: step.simps simp_thms\<close>)
qed

text \<open>
  Clearing a weak back reference is final. Once null it stays null while its weak object
  lives, whoever takes the next steps, so every later upgrade through it fails.
\<close>

theorem cleared_back_ref_stays_null:
  assumes "reach s" and "obj_at s w = Some y" and "back_ref y = None" and "step l s = Next s'"
    and "obj_at s' w = Some y'"
  shows "back_ref y' = None"
  using weak_clear_final [of s w y l s' y'] reach_invariants [OF assms(1)] assms(2-) by blast

text \<open>An object is downgraded, its last strong handle is dropped, the collector clears the back
  reference, and then somebody upgrades.\<close>

definition cleared_trace :: "label list" where
  "cleared_trace = [LNew 0 0 0, LDowngradeInit 0 1 0 0, LDowngradeClone 0 0, LPush, LDrop 0 0, CTake 0]
     @ [CBegin [0, 1], CTraverseBegin] @ replicate 17 CTraverse @ [CVisitNext]
     @ replicate 2 CReadRelaxed @ replicate 2 CClearTags @ [CVisitNext] @ replicate 2 CReadRelaxed
     @ [CVisitNext, CFree 0]
     @ [CBegin [0], CTraverseBegin] @ replicate 17 CTraverse @ [CVisitNext] @ replicate 2 CCheckTags
     @ [CClearWeak]"

theorem cleared_back_ref_stays_null_witness:
  "back_ref (the (obj_at (after (step (LLoadBegin 0 (BackRef 1)) (after (run cleared_trace (start 1 2 1))))) 1)) = None
    \<and> handles (after (run cleared_trace (start 1 2 1))) 1 = 1"
proof -
  let ?s = "after (run cleared_trace (start 1 2 1))" and ?l = "LLoadBegin 0 (BackRef 1)"
  have ok: "is_next (run cleared_trace (start 1 2 1))" by code_simp
  have r: "reach ?s" using ok by (intro start_reach [where n = 1]) simp_all
  have "obj_at ?s 1 \<noteq> None \<and> back_ref (the (obj_at ?s 1)) = None" by code_simp
  then obtain y where y: "obj_at ?s 1 = Some y" "back_ref y = None" by auto
  have "is_next (step ?l ?s) \<and> obj_at (after (step ?l ?s)) 1 \<noteq> None" by code_simp
  then obtain y' where y': "step ?l ?s = Next (after (step ?l ?s))" "obj_at (after (step ?l ?s)) 1 = Some y'"
    by auto
  have "handles ?s 1 = 1" by code_simp
  then show ?thesis using cleared_back_ref_stays_null [OF r y y'] y'(2) by simp
qed

section \<open>The exchange without its increment\<close>

text \<open>
  C14: \<open>raw_compare_and_set\<close> publishes \<open>then_set\<close> first and increments its counter afterwards. When
  another thread swaps the pointer out and drops it in between, the count reaches zero while
  the caller still owns its \<open>then_set\<close> handle; two iterations of the collector then free the
  object, and the late increment touches freed memory. (All other interleavings are covered by
  memory safety, with the exchange and its increment as one step.)
\<close>

definition others_in_between :: "label list" where
  "others_in_between = [LSwap 0 None, LDrop 0 0, CTake 0, CBegin [0], CTraverseBegin, CTraverse, CVisitNext]
     @ replicate 2 CReadRelaxed @ replicate 2 CClearTags @ [CVisitNext, CFree 0]
     @ [CBegin [0], CTraverseBegin, CTraverse, CVisitNext] @ replicate 2 CCheckTags
     @ [CClearWeak, CVisitNext, CFree 0]"


end
