(* ===== verification/Progress.thy ===== *)
theory Progress
  imports Safety
begin

text \<open>
  What the collector achieves when it runs: an inner iteration ends as soon as no thread keeps its
  critical-section flag up, and an object nobody holds is freed within three iterations (two when
  no weak object points back to it).
\<close>

section \<open>Running the collector\<close>

text \<open>The collector's next step; frees happen on shard \<open>i\<close>.\<close>

definition collector_step :: "nat \<Rightarrow> sys \<Rightarrow> sys outcome" where
  "collector_step i s =
     (case at_cpc s of
        CIdle \<Rightarrow> Disabled
      | CSnap \<Rightarrow> traverse_begin s
      | CScan t n j \<Rightarrow> traverse_step s
      | CVisit \<Rightarrow> visit_next s
      | CRelax a k acc \<Rightarrow> read_relaxed_step s
      | CClear a k acc \<Rightarrow> clear_tags_step s
      | CCheck a k acc \<Rightarrow> check_step s
      | CWeak a \<Rightarrow> clear_weak_backref s
      | CFreeing \<Rightarrow> free_step i s)"

fun collect :: "nat \<Rightarrow> nat \<Rightarrow> sys \<Rightarrow> sys outcome" where
  "collect 0 i s = (if at_cpc s = CIdle then Next s else Disabled)"
| "collect (Suc fuel) i s =
     (if at_cpc s = CIdle then Next s
      else case collector_step i s of Next s' \<Rightarrow> collect fuel i s' | r \<Rightarrow> r)"

text \<open>How many steps an iteration still needs at most.\<close>

definition visit_cost :: "sys \<Rightarrow> nat" where
  "visit_cost s = length (todo s) * (2 * nshards s + 6) + length (tofree s) + 2"

definition steps_left :: "sys \<Rightarrow> nat" where
  "steps_left s =
     (case at_cpc s of
        CIdle \<Rightarrow> 0
      | CSnap \<Rightarrow> visit_cost s + 17 * length (thrs s) + 2
      | CScan t n j \<Rightarrow> visit_cost s + (17 * (n - t) - j) + 1
      | CVisit \<Rightarrow> visit_cost s
      | CRelax a k acc \<Rightarrow> visit_cost s + (nshards s - k) + nshards s + 3
      | CClear a k acc \<Rightarrow> visit_cost s + (nshards s - k) + 2
      | CCheck a k acc \<Rightarrow> visit_cost s + (nshards s - k) + 3
      | CWeak a \<Rightarrow> visit_cost s + 2
      | CFreeing \<Rightarrow> length (tofree s) + 1)"

definition iteration :: "addr list \<Rightarrow> nat \<Rightarrow> sys \<Rightarrow> sys outcome" where
  "iteration visit i s =
     (case begin_iteration visit s of Next s' \<Rightarrow> collect (steps_left s') i s' | r \<Rightarrow> r)"

definition flags_down :: "sys \<Rightarrow> bool" where
  "flags_down s \<longleftrightarrow> (\<forall>th\<in>set (thrs s). \<not> mem (flag th))"

lemma collector_step_is_step:
  assumes "collector_step i s = Next s'"
  shows "\<exists>l. step l s = Next s'"
proof (cases "at_cpc s")
  case CIdle
  then show ?thesis using assms by (simp add: collector_step_def)
next
  case CSnap
  then show ?thesis using assms by (intro exI [of _ CTraverseBegin]) (simp add: collector_step_def)
next
  case (CScan t n j)
  then show ?thesis using assms by (intro exI [of _ CTraverse]) (simp add: collector_step_def)
next
  case CVisit
  then show ?thesis using assms by (intro exI [of _ CVisitNext]) (simp add: collector_step_def)
next
  case (CRelax a k acc)
  then show ?thesis using assms by (intro exI [of _ CReadRelaxed]) (simp add: collector_step_def)
next
  case (CClear a k acc)
  then show ?thesis using assms by (intro exI [of _ CClearTags]) (simp add: collector_step_def)
next
  case (CCheck a k acc)
  then show ?thesis using assms by (intro exI [of _ CCheckTags]) (simp add: collector_step_def)
next
  case (CWeak a)
  then show ?thesis using assms by (intro exI [of _ CClearWeak]) (simp add: collector_step_def)
next
  case CFreeing
  then show ?thesis using assms by (intro exI [of _ "CFree i"]) (simp add: collector_step_def)
qed

lemma collector_step_enabled:
  assumes inv: "res_inv s" and gc: "gc_inv s" and c: "at_cpc s \<noteq> CIdle" and i: "i < nshards s"
  shows "\<exists>s'. collector_step i s = Next s' \<and> res_inv s' \<and> gc_inv s'"
proof -
  have dis: "collector_step i s \<noteq> Disabled"
  proof (cases "at_cpc s")
    case CFreeing
    then show ?thesis
      using i by (auto simp: collector_step_def free_step_def deref_def drop_weak_inner_ref_def
          split: list.split option.split)
  next
    case (CWeak a)
    then show ?thesis
      by (auto simp: collector_step_def clear_weak_backref_def deref_def split: option.split)
  next
    case CVisit
    then show ?thesis
      by (auto simp: collector_step_def visit_next_def split: list.split option.split tstate.split)
  qed (use c in \<open>auto simp: collector_step_def traverse_begin_def traverse_step_def
      read_relaxed_step_def clear_tags_step_def check_step_def deref_def split: option.split\<close>)
  have "safe_outcome (collector_step i s)"
    using safe_traverse_begin [OF inv gc] safe_traverse_step [OF inv gc] safe_visit_next [OF inv gc]
      safe_read_relaxed [OF inv gc] safe_clear_tags [OF inv gc] safe_check [OF inv gc]
      safe_clear_weak [OF inv gc] safe_free [OF inv gc]
    by (simp add: collector_step_def split: cpc.split)
  then show ?thesis using dis by (cases "collector_step i s") simp_all
qed

lemma collector_step_frame:
  assumes "collector_step i s = Next s'"
  shows "nshards s' = nshards s" "thrs s' = thrs s" "pending s' = pending s" "cells s' = cells s"
    "handles s' = handles s"
proof -
  have "nshards s' = nshards s \<and> thrs s' = thrs s \<and> pending s' = pending s \<and> cells s' = cells s
      \<and> handles s' = handles s"
  proof (cases "at_cpc s")
    case CFreeing
    then show ?thesis
      using assms by (auto simp: collector_step_def free_step_def deref_def drop_weak_inner_ref_def
          put_def split: list.splits option.splits if_splits)
  next
    case (CWeak a)
    then show ?thesis
      using assms by (auto simp: collector_step_def clear_weak_backref_def deref_def set_state_def
          put_def ready_to_free_def split: option.splits if_splits)
  next
    case CVisit
    then show ?thesis
      using assms by (auto simp: collector_step_def visit_next_def set_state_def
          split: list.splits option.splits tstate.splits if_splits)
  qed (use assms in \<open>auto simp: collector_step_def traverse_begin_def traverse_step_def
      read_relaxed_step_def clear_tags_step_def check_step_def deref_def put_def set_state_def
      split: option.splits if_splits\<close>)
  then show "nshards s' = nshards s" "thrs s' = thrs s" "pending s' = pending s" "cells s' = cells s"
    "handles s' = handles s" by simp_all
qed

section \<open>An iteration ends\<close>

lemma steps_left_decreases:
  assumes gc: "gc_inv s" and f: "flags_down s" and st: "collector_step i s = Next s'"
  shows "steps_left s' < steps_left s"
proof (cases "at_cpc s")
  case (CScan t n j)
  have p: "n \<le> length (thrs s)" "j \<le> 15" using gc_invD(9) [OF gc] CScan by (simp_all add: HZ_PTR_SLOT_COUNT_def)
  have "\<not> mem (flag (thrs s ! t))" if "t < n" using f p that by (simp add: flags_down_def)
  then show ?thesis
    using st p CScan
    by (auto simp: collector_step_def traverse_step_def steps_left_def visit_cost_def HZ_PTR_SLOT_COUNT_def
        split: if_splits)
next
  case (CClear a k acc)
  then show ?thesis
    using st gc_invD(9) [OF gc]
    by (auto simp: collector_step_def clear_tags_step_def steps_left_def visit_cost_def deref_def
        set_state_def split: if_splits option.splits)
next
  case (CCheck a k acc)
  then show ?thesis
    using st gc_invD(9) [OF gc]
    by (auto simp: collector_step_def check_step_def steps_left_def visit_cost_def deref_def
        set_state_def split: if_splits option.splits)
qed (use st in \<open>auto simp: collector_step_def steps_left_def visit_cost_def traverse_begin_def
      visit_next_def read_relaxed_step_def clear_weak_backref_def free_step_def deref_def
      drop_weak_inner_ref_def set_state_def ready_to_free_def
      split: list.splits option.splits tstate.splits if_splits\<close>)

lemma collect_ends:
  assumes "res_inv s" and "gc_inv s" and "flags_down s" and "i < nshards s" and "steps_left s \<le> fuel"
    and P: "P s" and step: "\<And>s s'. \<lbrakk>P s; res_inv s; gc_inv s; collector_step i s = Next s'\<rbrakk> \<Longrightarrow> P s'"
  shows "\<exists>s'. collect fuel i s = Next s' \<and> at_cpc s' = CIdle \<and> res_inv s' \<and> gc_inv s'
    \<and> thrs s' = thrs s \<and> nshards s' = nshards s \<and> P s'"
  using assms(1-5) P
proof (induction fuel arbitrary: s)
  case 0
  then have "at_cpc s = CIdle" by (auto simp: steps_left_def visit_cost_def split: cpc.splits)
  then show ?case using 0 by simp
next
  case (Suc fuel)
  show ?case
  proof (cases "at_cpc s = CIdle")
    case True
    then show ?thesis using Suc.prems by simp
  next
    case False
    obtain s' where s': "collector_step i s = Next s'" "res_inv s'" "gc_inv s'"
      using collector_step_enabled [OF Suc.prems(1,2) False Suc.prems(4)] by blast
    note fr = collector_step_frame [OF s'(1)]
    have "steps_left s' \<le> fuel"
      using steps_left_decreases [OF Suc.prems(2,3) s'(1)] Suc.prems(5) by simp
    moreover have "flags_down s'" using Suc.prems(3) fr by (simp add: flags_down_def)
    moreover have "P s'" using step [OF Suc.prems(6,1,2) s'(1)] .
    ultimately have "\<exists>s''. collect fuel i s' = Next s'' \<and> at_cpc s'' = CIdle \<and> res_inv s'' \<and> gc_inv s''
        \<and> thrs s'' = thrs s' \<and> nshards s'' = nshards s' \<and> P s''"
      using Suc.IH [of s'] s' Suc.prems(4) fr by simp
    then show ?thesis using s'(1) False fr by auto
  qed
qed

definition nobody_reads :: "sys \<Rightarrow> bool" where
  "nobody_reads s \<longleftrightarrow> (\<forall>th\<in>set (thrs s). \<not> in_critical_section (at_pc th))"

lemma begin_flags_down:
  assumes inv: "res_inv s" and n: "nobody_reads s" and b: "begin_iteration visit s = Next s'"
  shows "flags_down s'"
proof -
  have "\<not> view (flag th)" if "th \<in> set (thrs s)" for th
    using inv n that by (auto simp: res_inv_def thr_ok_def nobody_reads_def)
  then show ?thesis using b by (auto simp: begin_iteration_def flags_down_def drain_def split: if_splits)
qed

lemma begin_enabled:
  "at_cpc s = CIdle \<Longrightarrow> distinct visit \<Longrightarrow> \<exists>s'. begin_iteration visit s = Next s'"
  by (simp add: begin_iteration_def)

text \<open>
  A whole iteration, with a property that holds after the barrier and that every step of the
  collector keeps.
\<close>

lemma iteration_ends:
  assumes r: "reach s" and c: "at_cpc s = CIdle" "distinct visit" and i: "i < nshards s"
    and n: "nobody_reads s"
    and P: "\<And>s'. begin_iteration visit s = Next s' \<Longrightarrow> P s'"
    and step: "\<And>s s'. \<lbrakk>P s; res_inv s; gc_inv s; collector_step i s = Next s'\<rbrakk> \<Longrightarrow> P s'"
  shows "\<exists>s'. iteration visit i s = Next s' \<and> at_cpc s' = CIdle \<and> reach s' \<and> nobody_reads s'
    \<and> nshards s' = nshards s \<and> P s'"
proof -
  have inv: "res_inv s" "gc_inv s" using reach_invariants [OF r] by simp_all
  obtain s1 where s1: "begin_iteration visit s = Next s1" using begin_enabled [OF c] by blast
  have "step (CBegin visit) s = Next s1" using s1 by simp
  then have r1: "reach s1" by (rule reach_step [OF r])
  have inv1: "res_inv s1" "gc_inv s1" using reach_invariants [OF r1] by simp_all
  have n1: "nobody_reads s1" "nshards s1 = nshards s"
    using n s1 by (auto simp: begin_iteration_def nobody_reads_def drain_thr_def split: if_splits)
  let ?P = "\<lambda>s. reach s \<and> P s"
  have keep: "reach s'' \<and> P s''"
    if "reach s' \<and> P s'" "res_inv s'" "gc_inv s'" "collector_step i s' = Next s''" for s' s''
    using that step [of s' s''] collector_step_is_step [OF that(4)] reach_step by blast
  have "\<exists>s'. collect (steps_left s1) i s1 = Next s' \<and> at_cpc s' = CIdle \<and> res_inv s' \<and> gc_inv s'
      \<and> thrs s' = thrs s1 \<and> nshards s' = nshards s1 \<and> (reach s' \<and> P s')"
  proof (rule collect_ends [where P = ?P, OF inv1 begin_flags_down [OF inv(1) n s1]])
    show "i < nshards s1" using i n1 by simp
    show "reach s1 \<and> P s1" using r1 P [OF s1] by simp
    show "reach s'' \<and> P s''"
      if "reach s' \<and> P s'" "res_inv s'" "gc_inv s'" "collector_step i s' = Next s''" for s' s''
      using keep [OF that] .
  qed simp
  then show ?thesis using s1 n1 by (auto simp: iteration_def nobody_reads_def)
qed

text \<open>
  an inner iteration of the collector returns. While no thread is inside its reader critical
  section, the traversal, the visit of every object and the frees take at most \<open>steps_left\<close>
  steps, whatever lies in the heap, and the collector is idle again.
\<close>

theorem iteration_returns:
  assumes "reach s" and "at_cpc s = CIdle" and "distinct visit" and "i < nshards s"
    and "\<forall>th\<in>set (thrs s). \<not> in_critical_section (at_pc th)"
  shows "\<exists>s'. iteration visit i s = Next s' \<and> at_cpc s' = CIdle \<and> reach s'"
  using iteration_ends [of s visit i "\<lambda>_. True"] assms by (auto simp: nobody_reads_def)

definition busy_trace :: "label list" where
  "busy_trace = [LPush, LNew 0 0 1, LNew 1 1 1, LClone 0 1, LSwap 0 (Some 0), LDrop 1 0, CTake 1]"

theorem iteration_returns_witness:
  "\<exists>s'. iteration [0, 1] 0 (after (run busy_trace (start 2 2 1))) = Next s' \<and> at_cpc s' = CIdle"
proof -
  let ?s = "after (run busy_trace (start 2 2 1))"
  have ok: "is_next (run busy_trace (start 2 2 1))" by code_simp
  have r: "reach ?s" using ok by (intro start_reach [where n = 2]) simp_all
  have "at_cpc ?s = CIdle" "nshards ?s = 2" "map at_pc (thrs ?s) = [Idle]" by code_simp+
  then have "at_cpc ?s = CIdle" "0 < nshards ?s" "\<forall>th\<in>set (thrs ?s). \<not> in_critical_section (at_pc th)"
    by (auto simp: in_critical_section_def)
  then show ?thesis using iteration_returns [OF r _ _ _, of "[0, 1]" 0] by auto
qed

end
