(* ===== verification/Liveness.thy ===== *)
theory Liveness
  imports Progress
begin

text \<open>
  An object that nobody holds is freed: one iteration takes it to re-checking with all its tags
  cleared, the next frees it or clears the back reference of its weak object, and then one more
  frees it.
\<close>

section \<open>What a step of the collector leaves of other objects\<close>

fun at_object :: "cpc \<Rightarrow> addr \<Rightarrow> bool" where
  "at_object (CRelax b k acc) a = (b = a)"
| "at_object (CClear b k acc) a = (b = a)"
| "at_object (CCheck b k acc) a = (b = a)"
| "at_object (CWeak b) a = (b = a)"
| "at_object _ a = False"

definition no_weak_owner :: "sys \<Rightarrow> addr \<Rightarrow> bool" where
  "no_weak_owner s a \<longleftrightarrow> (\<forall>c x. obj_at s c = Some x \<longrightarrow> weak_ref x \<noteq> Some a)"

definition unlisted :: "sys \<Rightarrow> addr \<Rightarrow> bool" where
  "unlisted s a \<longleftrightarrow> a \<notin> set (hz s) \<and> (\<forall>th\<in>set (thrs s). \<forall>j. mem (slots th j) \<noteq> Some a)"

text \<open>Objects never gain pointers, and nothing is created.\<close>

definition pointers_kept :: "sys \<Rightarrow> sys \<Rightarrow> bool" where
  "pointers_kept s s' \<longleftrightarrow> (\<forall>c z. obj_at s' c = Some z \<longrightarrow> (\<exists>y. obj_at s c = Some y
     \<and> weak_ref z = weak_ref y \<and> (back_ref z = back_ref y \<or> back_ref z = None)))"

lemma pointers_kept_same: "heap s' = heap s \<Longrightarrow> pointers_kept s s'"
  by (simp add: pointers_kept_def obj_at_def)

lemma pointers_kept_put:
  "\<lbrakk>obj_at s a = Some x; weak_ref y = weak_ref x; back_ref y = back_ref x \<or> back_ref y = None\<rbrakk>
    \<Longrightarrow> pointers_kept s (put a y s)"
  using obj_at_put [OF obj_at_less, of s a x y] by (auto simp: pointers_kept_def)

lemma pointers_kept_heap: "pointers_kept s s1 \<Longrightarrow> heap s2 = heap s1 \<Longrightarrow> pointers_kept s s2"
  by (simp add: pointers_kept_def obj_at_def)

lemma pointers_kept_step:
  assumes st: "collector_step i s = Next s'"
  shows "pointers_kept s s'"
proof (cases "at_cpc s")
  case CFreeing
  then show ?thesis
  proof (cases "tofree s")
    case Nil
    then show ?thesis using st CFreeing
      by (intro pointers_kept_same) (auto simp: collector_step_def free_step_def split: if_splits)
  next
    case (Cons a rest)
    then show ?thesis using st CFreeing
      by (auto simp: collector_step_def free_step_def deref_def drop_weak_inner_ref_def
          pointers_kept_def obj_at_def put_def nth_list_update split: if_splits option.splits)
  qed
next
  case (CClear a k acc)
  show ?thesis
  proof (cases "k < nshards s")
    case True
    then obtain x where x: "obj_at s a = Some x"
      using st CClear by (auto simp: collector_step_def clear_tags_step_def deref_def split: option.splits)
    have "pointers_kept s (put a (on_shard k a_clear_tag x) s)"
      by (rule pointers_kept_put [OF x]) simp_all
    then show ?thesis
      by (rule pointers_kept_heap)
        (use st CClear x True in \<open>auto simp: collector_step_def clear_tags_step_def deref_def put_def\<close>)
  next
    case False
    then show ?thesis using st CClear
      by (intro pointers_kept_same)
        (auto simp: collector_step_def clear_tags_step_def set_state_def split: if_splits)
  qed
next
  case (CWeak a)
  then obtain x where x: "obj_at s a = Some x"
    using st by (auto simp: collector_step_def clear_weak_backref_def deref_def split: option.splits)
  show ?thesis
  proof (cases "heap s' = heap s")
    case False
    then obtain w y where w: "obj_at s w = Some y"
      "s' = set_state a RequiresReChecking (put w (y\<lparr>back_ref := None\<rparr>) s)"
      using st CWeak x
      by (auto simp: collector_step_def clear_weak_backref_def deref_def ready_to_free_def set_state_def
          split: option.splits if_splits)
    show ?thesis
      by (rule pointers_kept_heap [OF pointers_kept_put [OF w(1), of "y\<lparr>back_ref := None\<rparr>"]])
        (simp_all add: w(2) set_state_def)
  qed (rule pointers_kept_same)
next
  case CVisit
  then show ?thesis using st
    by (intro pointers_kept_same) (auto simp: collector_step_def visit_next_def set_state_def
        split: list.splits option.splits tstate.splits if_splits)
next
  case (CCheck a k acc)
  then show ?thesis using st
    by (intro pointers_kept_same)
      (auto simp: collector_step_def check_step_def deref_def set_state_def split: option.splits if_splits)
qed (use st in \<open>auto intro!: pointers_kept_same simp: collector_step_def traverse_begin_def
      traverse_step_def read_relaxed_step_def deref_def set_state_def split: option.splits if_splits\<close>)

lemma pointers_keptD:
  assumes "pointers_kept s s'"
  shows "no_weak_owner s a \<Longrightarrow> no_weak_owner s' a" "\<not> weak_route s a \<Longrightarrow> \<not> weak_route s' a"
    "obj_at s a = None \<Longrightarrow> obj_at s' a = None"
proof -
  show "no_weak_owner s a \<Longrightarrow> no_weak_owner s' a"
    using assms unfolding pointers_kept_def no_weak_owner_def by metis
  show "\<not> weak_route s a \<Longrightarrow> \<not> weak_route s' a"
    using assms unfolding pointers_kept_def weak_route_def by (metis option.distinct(1))
  show "obj_at s a = None \<Longrightarrow> obj_at s' a = None"
    using assms unfolding pointers_kept_def by (metis not_None_eq)
qed

definition shards_of :: "sys \<Rightarrow> addr \<Rightarrow> acounter list" where
  "shards_of s a = (case obj_at s a of None \<Rightarrow> [] | Some x \<Rightarrow> shards x)"

lemma shards_of_same: "heap s' = heap s \<Longrightarrow> shards_of s' a = shards_of s a"
  by (simp add: shards_of_def obj_at_def)

lemma shards_of_put:
  "obj_at s b = Some y \<Longrightarrow> b = a \<longrightarrow> shards z = shards y \<Longrightarrow> shards_of (put b z s) a = shards_of s a"
  using obj_at_put [OF obj_at_less, of s b y z a] by (auto simp: shards_of_def)

text \<open>The counters of an object change only when its tags are cleared or it is freed.\<close>

lemma shards_of_step:
  assumes st: "collector_step i s = Next s'" and no: "at_cpc s = CFreeing \<Longrightarrow> no_weak_owner s a"
    and nc: "\<And>k acc. at_cpc s \<noteq> CClear a k acc"
    and nf: "at_cpc s = CFreeing \<Longrightarrow> tofree s = [] \<or> hd (tofree s) \<noteq> a"
  shows "shards_of s' a = shards_of s a"
proof (cases "at_cpc s")
  case CFreeing
  show ?thesis
  proof (cases "tofree s")
    case Nil
    then show ?thesis using st CFreeing
      by (intro shards_of_same) (auto simp: collector_step_def free_step_def split: if_splits)
  next
    case (Cons b rest)
    then have "b \<noteq> a" using nf CFreeing by auto
    moreover have "w \<noteq> a" if "obj_at s b = Some y" "weak_ref y = Some w" for w y
      using no CFreeing that by (auto simp: no_weak_owner_def)
    ultimately show ?thesis using st CFreeing Cons
      by (auto simp: collector_step_def free_step_def deref_def drop_weak_inner_ref_def shards_of_def
          obj_at_def put_def nth_list_update split: if_splits option.splits)
  qed
next
  case (CClear b k acc)
  then have b: "b \<noteq> a" using nc by auto
  show ?thesis
  proof (cases "k < nshards s")
    case True
    then obtain x where x: "obj_at s b = Some x"
      using st CClear by (auto simp: collector_step_def clear_tags_step_def deref_def split: option.splits)
    have "heap s' = heap (put b (on_shard k a_clear_tag x) s)"
      using st CClear x True by (auto simp: collector_step_def clear_tags_step_def deref_def put_def)
    then show ?thesis using shards_of_put [OF x, of a] b shards_of_same by metis
  next
    case False
    then show ?thesis using st CClear
      by (intro shards_of_same)
        (auto simp: collector_step_def clear_tags_step_def set_state_def split: if_splits)
  qed
next
  case (CWeak b)
  then obtain x where x: "obj_at s b = Some x"
    using st by (auto simp: collector_step_def clear_weak_backref_def deref_def split: option.splits)
  show ?thesis
  proof (cases "heap s' = heap s")
    case False
    then obtain w y where w: "obj_at s w = Some y"
      "s' = set_state b RequiresReChecking (put w (y\<lparr>back_ref := None\<rparr>) s)"
      using st CWeak x
      by (auto simp: collector_step_def clear_weak_backref_def deref_def ready_to_free_def set_state_def
          split: option.splits if_splits)
    have "shards_of s' a = shards_of (put w (y\<lparr>back_ref := None\<rparr>) s) a"
      by (rule shards_of_same) (simp add: w(2) set_state_def)
    then show ?thesis using shards_of_put [OF w(1), of a "y\<lparr>back_ref := None\<rparr>"] by simp
  qed (rule shards_of_same)
next
  case CVisit
  then show ?thesis using st
    by (intro shards_of_same) (auto simp: collector_step_def visit_next_def set_state_def
        split: list.splits option.splits tstate.splits if_splits)
next
  case (CCheck b k acc)
  then show ?thesis using st
    by (intro shards_of_same)
      (auto simp: collector_step_def check_step_def deref_def set_state_def split: option.splits if_splits)
qed (use st in \<open>auto intro!: shards_of_same simp: collector_step_def traverse_begin_def
      traverse_step_def read_relaxed_step_def deref_def set_state_def split: option.splits if_splits\<close>)

lemma unlisted_step:
  assumes st: "collector_step i s = Next s'" and gc: "gc_inv s" and u: "unlisted s a"
  shows "unlisted s' a"
proof -
  have "a \<notin> set (hz s')"
  proof (cases "at_cpc s")
    case (CScan t n j)
    have "mem (slots (thrs s ! t) j) \<noteq> Some a" if "t < n"
      using u gc_invD(9) [OF gc] CScan that by (auto simp: unlisted_def)
    then show ?thesis using st CScan u
      by (auto simp: collector_step_def traverse_step_def unlisted_def split: option.splits if_splits)
  next
    case CFreeing
    then show ?thesis using st u by (auto simp: collector_step_def free_step_def deref_def put_def
          drop_weak_inner_ref_def unlisted_def split: list.splits option.splits if_splits)
  next
    case (CWeak b)
    then show ?thesis using st u
      by (auto simp: collector_step_def clear_weak_backref_def deref_def put_def ready_to_free_def
          set_state_def unlisted_def split: option.splits if_splits)
  next
    case CVisit
    then show ?thesis using st u
      by (auto simp: collector_step_def visit_next_def set_state_def unlisted_def
          split: list.splits option.splits tstate.splits if_splits)
  qed (use st u in \<open>auto simp: collector_step_def traverse_begin_def unlisted_def put_def
      read_relaxed_step_def clear_tags_step_def check_step_def deref_def set_state_def
      split: option.splits if_splits\<close>)
  then show ?thesis using u collector_step_frame(2) [OF st] by (simp add: unlisted_def)
qed

text \<open>While the collector is not at an object, nothing changes in its tracking.\<close>

lemma elsewhere_step:
  assumes st: "collector_step i s = Next s'" and c: "\<not> at_object (at_cpc s) a"
    and v: "at_cpc s = CVisit \<Longrightarrow> todo s = [] \<or> hd (todo s) \<noteq> a"
    and f: "at_cpc s = CFreeing \<Longrightarrow> tofree s = [] \<or> hd (tofree s) \<noteq> a"
  shows "tracked s' a = tracked s a \<and> (a \<in> set (todo s') \<longleftrightarrow> a \<in> set (todo s))
    \<and> (a \<in> set (tofree s') \<longleftrightarrow> a \<in> set (tofree s)) \<and> \<not> at_object (at_cpc s') a"
proof (cases "at_cpc s")
  case CFreeing
  then show ?thesis using st f by (auto simp: collector_step_def free_step_def deref_def put_def
        drop_weak_inner_ref_def split: list.splits option.splits if_splits)
next
  case (CWeak b)
  then show ?thesis using st c
    by (auto simp: collector_step_def clear_weak_backref_def deref_def put_def ready_to_free_def
        set_state_def split: option.splits if_splits)
next
  case CVisit
  then show ?thesis using st v
    by (auto simp: collector_step_def visit_next_def set_state_def
        split: list.splits option.splits tstate.splits if_splits)
qed (use st c in \<open>auto simp: collector_step_def traverse_begin_def put_def traverse_step_def
    read_relaxed_step_def clear_tags_step_def check_step_def deref_def set_state_def
    split: option.splits if_splits\<close>)

section \<open>The first iteration\<close>

definition calm :: "sys \<Rightarrow> addr \<Rightarrow> bool" where
  "calm s a \<longleftrightarrow> length (shards_of s a) = nshards s \<and> sum_list (map acount (shards_of s a)) = 0
     \<and> no_weak_owner s a \<and> unlisted s a"

definition part :: "sys \<Rightarrow> addr \<Rightarrow> nat \<Rightarrow> int" where
  "part s a k = psum (\<lambda>i. acount (shards_of s a ! i)) k"

definition untagged :: "sys \<Rightarrow> addr \<Rightarrow> nat \<Rightarrow> bool" where
  "untagged s a k \<longleftrightarrow> (\<forall>i<k. \<not> atag (shards_of s a ! i))"

lemma part_all: "calm s a \<Longrightarrow> part s a (nshards s) = 0"
proof -
  assume c: "calm s a"
  then have "map (\<lambda>i. acount (shards_of s a ! i)) [0..<nshards s] = map acount (shards_of s a)"
    by (intro nth_equalityI) (simp_all add: calm_def)
  then show ?thesis using c by (simp add: part_def psum_def calm_def)
qed

lemma part_simps [simp]: "part s a 0 = 0" "part s a (Suc k) = part s a k + acount (shards_of s a ! k)"
  by (simp_all add: part_def psum_def)

lemma part_cong: "shards_of s' a = shards_of s a \<Longrightarrow> part s' a k = part s a k \<and> untagged s' a k = untagged s a k"
  by (simp add: part_def untagged_def)

lemma calm_alive: "\<lbrakk>res_inv s; calm s a\<rbrakk> \<Longrightarrow> \<exists>x. obj_at s a = Some x \<and> shards_of s a = shards x"
  using res_invD(1) [of s] by (auto simp: calm_def shards_of_def split: option.splits)

lemma calm_step:
  assumes st: "collector_step i s = Next s'" and gc: "gc_inv s" and c: "calm s a"
    and sh: "length (shards_of s' a) = length (shards_of s a)"
      "sum_list (map acount (shards_of s' a)) = sum_list (map acount (shards_of s a))"
  shows "calm s' a"
  using unlisted_step [OF st gc] pointers_keptD(1) [OF pointers_kept_step [OF st]] c sh
    collector_step_frame(1) [OF st]
  by (simp add: calm_def)

definition settling :: "addr \<Rightarrow> sys \<Rightarrow> bool" where
  "settling a s \<longleftrightarrow> calm s a \<and> a \<notin> set (tofree s)
     \<and> (\<not> at_object (at_cpc s) a \<and> a \<in> set (todo s) \<and> tracked s a = Some DefaultState
        \<or> (\<exists>k. at_cpc s = CRelax a k (part s a k) \<and> k \<le> nshards s \<and> a \<notin> set (todo s))
        \<or> (\<exists>k. at_cpc s = CClear a k (part s a k) \<and> k \<le> nshards s \<and> untagged s a k \<and> a \<notin> set (todo s))
        \<or> \<not> at_object (at_cpc s) a \<and> a \<notin> set (todo s) \<and> tracked s a = Some RequiresReChecking
          \<and> untagged s a (nshards s))"

lemma settling_step:
  assumes st: "collector_step i s = Next s'" and inv: "res_inv s" and gc: "gc_inv s" and p: "settling a s"
  shows "settling a s'"
proof -
  note fr = collector_step_frame(1) [OF st]
  have c: "calm s a" and nf: "a \<notin> set (tofree s)" using p by (simp_all add: settling_def)
  have no: "no_weak_owner s a" using c by (simp add: calm_def)
  obtain x where x: "obj_at s a = Some x" "shards_of s a = shards x" using calm_alive [OF inv c] by blast
  have nf': "tofree s = [] \<or> hd (tofree s) \<noteq> a" using nf by (cases "tofree s") auto
  have same: "calm s' a \<and> part s' a k = part s a k \<and> untagged s' a k = untagged s a k"
    if "\<And>k acc. at_cpc s \<noteq> CClear a k acc" for k
    using shards_of_step [OF st no that nf'] calm_step [OF st gc c] part_cong [of s' a s k] by simp
  have nc: "at_cpc s \<noteq> CClear a k acc" if "\<not> at_object (at_cpc s) a" for k acc using that by auto
  consider (wait) "\<not> at_object (at_cpc s) a" "a \<in> set (todo s)" "tracked s a = Some DefaultState"
    | (relax) k where "at_cpc s = CRelax a k (part s a k)" "k \<le> nshards s" "a \<notin> set (todo s)"
    | (clear) k where "at_cpc s = CClear a k (part s a k)" "k \<le> nshards s" "untagged s a k" "a \<notin> set (todo s)"
    | (fin) "\<not> at_object (at_cpc s) a" "a \<notin> set (todo s)" "tracked s a = Some RequiresReChecking"
        "untagged s a (nshards s)"
    using p by (auto simp: settling_def)
  then show ?thesis
  proof cases
    case wait
    have k: "calm s' a" using same [OF nc [OF wait(1)]] by blast
    show ?thesis
    proof (cases "at_cpc s = CVisit \<and> hd (todo s) = a")
      case True
      then obtain rest where td: "todo s = a # rest" using wait(2) by (cases "todo s") auto
      then have "a \<notin> set rest" using gc_invD(7) [OF gc] by simp
      moreover have "a \<notin> set (hz s)" using c by (simp add: calm_def unlisted_def)
      ultimately show ?thesis
        using st True td wait k nf by (auto simp: collector_step_def visit_next_def settling_def)
    next
      case False
      then show ?thesis
        using elsewhere_step [OF st wait(1)] wait k nf nf' by (auto simp: settling_def)
    qed
  next
    case (relax k)
    have k: "calm s' a" "part s' a j = part s a j" for j using same [of j] relax by auto
    then show ?thesis
      using st relax x nf part_all [OF c] fr
      by (cases "k < nshards s")
        (auto simp: collector_step_def read_relaxed_step_def deref_def settling_def untagged_def)
  next
    case (clear k)
    show ?thesis
    proof (cases "k < nshards s")
      case True
      let ?y = "on_shard k a_clear_tag x"
      have s': "s' = put a ?y (s\<lparr>at_cpc := CClear a (Suc k) (part s a (Suc k))\<rparr>)"
        using st clear(1) True x by (simp add: collector_step_def clear_tags_step_def deref_def)
      have len: "k < length (shards x)" using c x True by (simp add: calm_def)
      have sh: "shards_of s' a = (shards x)[k := a_clear_tag (shards x ! k)]"
        using obj_at_less [OF x(1)]
        by (simp add: s' shards_of_def on_shard_def obj_at_def put_def)
      have cnt: "acount (shards_of s' a ! j) = acount (shards_of s a ! j)" for j
        using x(2) by (cases "j = k") (simp_all add: sh len)
      have "calm s' a"
      proof (rule calm_step [OF st gc c])
        show "sum_list (map acount (shards_of s' a)) = sum_list (map acount (shards_of s a))"
          using sum_list_update_int [OF len, of acount] by (simp add: sh x(2))
      qed (simp add: sh x(2))
      moreover have "part s' a j = part s a j" for j using cnt by (simp add: part_def)
      moreover have "untagged s' a (Suc k)"
        using clear(3) len by (auto simp: untagged_def sh x(2) less_Suc_eq nth_list_update)
      ultimately show ?thesis using clear True nf by (auto simp: settling_def s' simp del: part_simps)
    next
      case False
      then have s': "s' = set_state a RequiresReChecking s"
        using st clear part_all [OF c] by (simp add: collector_step_def clear_tags_step_def)
      have "shards_of s' a = shards_of s a" by (rule shards_of_same) (simp add: s' set_state_def)
      then have "calm s' a \<and> untagged s' a (nshards s)"
        using calm_step [OF st gc c] part_cong [of s' a s "nshards s"] clear False by simp
      then show ?thesis using clear nf by (simp add: settling_def s' set_state_def)
    qed
  next
    case fin
    have "calm s' a \<and> untagged s' a (nshards s)" using same [OF nc [OF fin(1)], of "nshards s"] fin(4) by blast
    moreover have "todo s = [] \<or> hd (todo s) \<noteq> a" using fin(2) by (cases "todo s") auto
    ultimately show ?thesis
      using elsewhere_step [OF st fin(1)] fin nf nf' fr by (auto simp: settling_def)
  qed
qed

section \<open>The next iterations\<close>

definition condemned :: "bool \<Rightarrow> addr \<Rightarrow> sys \<Rightarrow> bool" where
  "condemned b a s \<longleftrightarrow> obj_at s a = None
     \<or> calm s a \<and> (b \<or> \<not> weak_route s a) \<and> untagged s a (nshards s)
       \<and> (\<not> at_object (at_cpc s) a \<and> a \<in> set (todo s) \<and> a \<notin> set (tofree s)
            \<and> tracked s a = Some RequiresReChecking
          \<or> (\<exists>k. at_cpc s = CCheck a k (part s a k) \<and> k \<le> nshards s \<and> a \<notin> set (todo s) \<and> a \<notin> set (tofree s))
          \<or> at_cpc s = CWeak a \<and> a \<notin> set (todo s) \<and> a \<notin> set (tofree s)
          \<or> \<not> at_object (at_cpc s) a \<and> a \<notin> set (todo s) \<and> a \<in> set (tofree s)
          \<or> \<not> at_object (at_cpc s) a \<and> a \<notin> set (todo s) \<and> a \<notin> set (tofree s) \<and> b
            \<and> \<not> weak_route s a \<and> tracked s a = Some RequiresReChecking)"

lemma weak_step_outcome:
  assumes st: "collector_step i s = Next s'" and inv: "res_inv s" and c: "at_cpc s = CWeak a"
    and no: "no_weak_owner s a"
  shows "s' = ready_to_free a s \<or> weak_route s a \<and> \<not> weak_route s' a \<and> tofree s' = tofree s
    \<and> todo s' = todo s \<and> at_cpc s' = CVisit \<and> tracked s' a = Some RequiresReChecking"
proof -
  obtain x where x: "obj_at s a = Some x"
    using st c by (auto simp: collector_step_def clear_weak_backref_def deref_def split: option.splits)
  show ?thesis
  proof (cases "weak_ref x")
    case None
    then show ?thesis using st c x by (simp add: collector_step_def clear_weak_backref_def deref_def)
  next
    case (Some w)
    obtain y where y: "obj_at s w = Some y"
      using st c x Some by (auto simp: collector_step_def clear_weak_backref_def deref_def split: option.splits)
    show ?thesis
    proof (cases "back_ref y")
      case None
      then show ?thesis using st c x Some y by (simp add: collector_step_def clear_weak_backref_def deref_def)
    next
      case (Some a')
      then have "weak_route s a"
        using res_invD(8) [OF inv x \<open>weak_ref x = Some w\<close> y] x y \<open>weak_ref x = Some w\<close>
        by (auto simp: weak_route_def)
      moreover have s': "s' = set_state a RequiresReChecking (put w (y\<lparr>back_ref := None\<rparr>) s)"
        using st c x \<open>weak_ref x = Some w\<close> y Some
        by (simp add: collector_step_def clear_weak_backref_def deref_def)
      moreover have "\<not> weak_route s' a"
      proof -
        have wa: "w \<noteq> a" using no x \<open>weak_ref x = Some w\<close> by (auto simp: no_weak_owner_def)
        have o: "obj_at s' d = (if d = w then Some (y\<lparr>back_ref := None\<rparr>) else obj_at s d)" for d
          using obj_at_put [OF obj_at_less [OF y], of "y\<lparr>back_ref := None\<rparr>" d] by (simp add: s' set_state_def)
        show ?thesis using x \<open>weak_ref x = Some w\<close> wa by (auto simp: weak_route_def o)
      qed
      ultimately show ?thesis by (simp add: set_state_def)
    qed
  qed
qed

lemma free_head:
  assumes st: "collector_step i s = Next s'" and c: "at_cpc s = CFreeing" and a: "tofree s = a # rest"
    and no: "no_weak_owner s a"
  shows "obj_at s' a = None"
proof -
  have "w \<noteq> a" if "obj_at s a = Some x" "weak_ref x = Some w" for w x
    using no that by (auto simp: no_weak_owner_def)
  then show ?thesis
    using st c a by (auto simp: collector_step_def free_step_def deref_def drop_weak_inner_ref_def
        obj_at_def put_def nth_list_update split: if_splits option.splits)
qed

lemma condemned_step:
  assumes st: "collector_step i s = Next s'" and inv: "res_inv s" and gc: "gc_inv s" and p: "condemned b a s"
  shows "condemned b a s'"
proof (cases "obj_at s a = None")
  case True
  then show ?thesis using pointers_keptD(3) [OF pointers_kept_step [OF st]] by (simp add: condemned_def)
next
  case False
  note fr = collector_step_frame(1) [OF st]
  have c: "calm s a" and wr: "b \<or> \<not> weak_route s a" and u: "untagged s a (nshards s)"
    using p False by (auto simp: condemned_def)
  have no: "no_weak_owner s a" using c by (simp add: calm_def)
  have wr': "b \<or> \<not> weak_route s' a" using wr pointers_keptD(2) [OF pointers_kept_step [OF st]] by blast
  obtain x where x: "obj_at s a = Some x" "shards_of s a = shards x" using calm_alive [OF inv c] by blast
  have same: "calm s' a \<and> part s' a k = part s a k \<and> untagged s' a (nshards s')"
    if "\<And>k acc. at_cpc s \<noteq> CClear a k acc" "at_cpc s = CFreeing \<Longrightarrow> tofree s = [] \<or> hd (tofree s) \<noteq> a" for k
    using shards_of_step [OF st no that] calm_step [OF st gc c] part_cong [of s' a s] u fr by simp
  have nc: "at_cpc s \<noteq> CClear a k acc" if "\<not> at_object (at_cpc s) a" for k acc using that by auto
  consider (wait) "\<not> at_object (at_cpc s) a" "a \<in> set (todo s)" "a \<notin> set (tofree s)"
      "tracked s a = Some RequiresReChecking"
    | (check) k where "at_cpc s = CCheck a k (part s a k)" "k \<le> nshards s" "a \<notin> set (todo s)" "a \<notin> set (tofree s)"
    | (weak) "at_cpc s = CWeak a" "a \<notin> set (todo s)" "a \<notin> set (tofree s)"
    | (ready) "\<not> at_object (at_cpc s) a" "a \<notin> set (todo s)" "a \<in> set (tofree s)"
    | (fin) "\<not> at_object (at_cpc s) a" "a \<notin> set (todo s)" "a \<notin> set (tofree s)" "b" "\<not> weak_route s a"
        "tracked s a = Some RequiresReChecking"
    using p False by (auto simp: condemned_def)
  then show ?thesis
  proof cases
    case wait
    have nh: "tofree s = [] \<or> hd (tofree s) \<noteq> a" using wait(3) by (cases "tofree s") auto
    note k = same [OF nc [OF wait(1)] nh]
    show ?thesis
    proof (cases "at_cpc s = CVisit \<and> hd (todo s) = a")
      case True
      then obtain rest where td: "todo s = a # rest" using wait(2) by (cases "todo s") auto
      then have "a \<notin> set rest" using gc_invD(7) [OF gc] by simp
      moreover have "a \<notin> set (hz s)" using c by (simp add: calm_def unlisted_def)
      ultimately have "s' = s\<lparr>todo := rest, at_cpc := CCheck a 0 0\<rparr>"
        using st True td wait by (simp add: collector_step_def visit_next_def)
      then show ?thesis using k wr' wait \<open>a \<notin> set rest\<close> by (auto simp: condemned_def)
    next
      case False
      have e: "tracked s' a = tracked s a \<and> (a \<in> set (todo s') \<longleftrightarrow> a \<in> set (todo s))
          \<and> (a \<in> set (tofree s') \<longleftrightarrow> a \<in> set (tofree s)) \<and> \<not> at_object (at_cpc s') a"
        by (rule elsewhere_step [OF st wait(1)]) (use nh False in auto)
      show ?thesis using e k [of 0] wait wr' by (simp add: condemned_def)
    qed
  next
    case (check k)
    have k: "calm s' a" "part s' a j = part s a j" "untagged s' a (nshards s')" for j
      using same [of j] check by auto
    show ?thesis
    proof (cases "k < nshards s")
      case True
      have "\<not> atag (shards x ! k)" using u True x by (simp add: untagged_def)
      then have "s' = s\<lparr>at_cpc := CCheck a (Suc k) (part s a (Suc k))\<rparr>"
        using st check(1) True x by (simp add: collector_step_def check_step_def deref_def)
      then show ?thesis using k check True wr' by (auto simp: condemned_def simp del: part_simps)
    next
      case False
      then have "s' = s\<lparr>at_cpc := CWeak a\<rparr>"
        using st check part_all [OF c] by (simp add: collector_step_def check_step_def)
      then show ?thesis using k check wr' by (auto simp: condemned_def)
    qed
  next
    case weak
    have k: "calm s' a" "untagged s' a (nshards s')" using same weak by auto
    from weak_step_outcome [OF st inv weak(1) no] show ?thesis
    proof
      assume "s' = ready_to_free a s"
      then have "at_cpc s' = CVisit" "a \<notin> set (todo s')" "a \<in> set (tofree s')"
        using weak(2) by (simp_all add: ready_to_free_def set_state_def)
      then show ?thesis using k wr' by (simp add: condemned_def)
    next
      assume *: "weak_route s a \<and> \<not> weak_route s' a \<and> tofree s' = tofree s
        \<and> todo s' = todo s \<and> at_cpc s' = CVisit \<and> tracked s' a = Some RequiresReChecking"
      then have b using wr by blast
      then show ?thesis using * k weak(2,3) by (simp add: condemned_def)
    qed
  next
    case ready
    show ?thesis
    proof (cases "at_cpc s = CFreeing \<and> hd (tofree s) = a")
      case True
      obtain rest where "tofree s = a # rest" using True ready(3) by (cases "tofree s") auto
      then have "obj_at s' a = None" using free_head [OF st conjunct1 [OF True] _ no] by simp
      then show ?thesis by (simp add: condemned_def)
    next
      case False
      have k: "calm s' a \<and> part s' a j = part s a j \<and> untagged s' a (nshards s')" for j
        by (rule same [OF nc [OF ready(1)]]) (use False in simp)
      have "todo s = [] \<or> hd (todo s) \<noteq> a" using ready(2) by (cases "todo s") auto
      then have e: "tracked s' a = tracked s a \<and> (a \<in> set (todo s') \<longleftrightarrow> a \<in> set (todo s))
          \<and> (a \<in> set (tofree s') \<longleftrightarrow> a \<in> set (tofree s)) \<and> \<not> at_object (at_cpc s') a"
        by (rule elsewhere_step [OF st ready(1)]) (use False in auto)
      show ?thesis using e k [of 0] ready wr' by (simp add: condemned_def)
    qed
  next
    case fin
    have nh: "tofree s = [] \<or> hd (tofree s) \<noteq> a" using fin(3) by (cases "tofree s") auto
    note k = same [OF nc [OF fin(1)] nh]
    have "todo s = [] \<or> hd (todo s) \<noteq> a" using fin(2) by (cases "todo s") auto
    then have e: "tracked s' a = tracked s a \<and> (a \<in> set (todo s') \<longleftrightarrow> a \<in> set (todo s))
          \<and> (a \<in> set (tofree s') \<longleftrightarrow> a \<in> set (tofree s)) \<and> \<not> at_object (at_cpc s') a"
        by (rule elsewhere_step [OF st fin(1)]) (use nh in auto)
    show ?thesis using e k [of 0] fin pointers_keptD(2) [OF pointers_kept_step [OF st] fin(5)]
      by (simp add: condemned_def)
  qed
qed

section \<open>Three iterations free the object\<close>

text \<open>Nobody holds the object and no thread is in the middle of reading a pointer.\<close>

definition abandoned :: "sys \<Rightarrow> addr \<Rightarrow> bool" where
  "abandoned s a \<longleftrightarrow> tokens s a = 0
     \<and> (\<forall>th\<in>set (thrs s). at_pc th = Idle \<and> (\<forall>j. guards th j \<noteq> Some a))"

fun iterations :: "addr list list \<Rightarrow> nat \<Rightarrow> sys \<Rightarrow> sys outcome" where
  "iterations [] i s = Next s"
| "iterations (visit # visits) i s =
     (case iteration visit i s of Next s' \<Rightarrow> iterations visits i s' | r \<Rightarrow> r)"

lemma begin_unlisted:
  assumes inv: "res_inv s" and ab: "\<forall>th\<in>set (thrs s). at_pc th = Idle \<and> (\<forall>j. guards th j \<noteq> Some a)"
    and b: "begin_iteration visit s = Next s'"
  shows "unlisted s' a"
proof -
  have "view (slots th j) \<noteq> Some a" if "th \<in> set (thrs s)" for th j
    using inv ab that by (auto simp: res_inv_def thr_ok_def slot_value_def)
  then show ?thesis
    using b by (auto simp: begin_iteration_def unlisted_def drain_def split: if_splits)
qed

text \<open>What the collector never touches.\<close>

definition world_idle :: "addr \<Rightarrow> sys \<Rightarrow> bool" where
  "world_idle a s \<longleftrightarrow> (\<forall>th\<in>set (thrs s). at_pc th = Idle \<and> (\<forall>j. guards th j \<noteq> Some a))"

lemma world_idle_step: "collector_step i s = Next s' \<Longrightarrow> world_idle a s \<Longrightarrow> world_idle a s'"
  using collector_step_frame(2) [of i s s'] by (simp add: world_idle_def)

lemma world_idle_begin: "begin_iteration visit s = Next s' \<Longrightarrow> world_idle a s \<Longrightarrow> world_idle a s'"
  by (auto simp: begin_iteration_def world_idle_def split: if_splits)

lemma begin_same:
  assumes "begin_iteration visit s = Next s'"
  shows "heap s' = heap s" "tracked s' = tracked s" "todo s' = visit" "tofree s' = []" "at_cpc s' = CSnap"
    "nshards s' = nshards s" "hz s' = []"
  using assms by (auto simp: begin_iteration_def split: if_splits)

lemma begin_objects:
  assumes "begin_iteration visit s = Next s'"
  shows "obj_at s' d = obj_at s d" "shards_of s' d = shards_of s d" "weak_route s' d = weak_route s d"
    "no_weak_owner s' d = no_weak_owner s d"
  using begin_same(1) [OF assms] by (simp_all add: obj_at_def shards_of_def weak_route_def no_weak_owner_def)

lemma settled:
  assumes "at_cpc s = CIdle" and "settling a s" and "gc_inv s"
  shows "calm s a" "tracked s a = Some RequiresReChecking" "untagged s a (nshards s)"
  using gc_invD(9) [OF assms(3)] assms(1,2) by (auto simp: settling_def)

lemma first_iteration:
  assumes r: "reach s" and c: "at_cpc s = CIdle" "distinct visit" "i < nshards s" "a \<in> set visit"
    and t: "tracked s a = Some DefaultState" and z: "tokens s a = 0" and w: "world_idle a s"
    and wr: "b \<or> \<not> weak_route s a"
  shows "\<exists>s'. iteration visit i s = Next s' \<and> reach s' \<and> at_cpc s' = CIdle \<and> nshards s' = nshards s
    \<and> world_idle a s' \<and> settling a s' \<and> (b \<or> \<not> weak_route s' a)"
proof -
  have inv: "res_inv s" "gc_inv s" using reach_invariants [OF r] by simp_all
  let ?P = "\<lambda>s. world_idle a s \<and> settling a s \<and> (b \<or> \<not> weak_route s a)"
  have n: "nobody_reads s" using w by (simp add: world_idle_def nobody_reads_def in_critical_section_def)
  have "?P s'" if b: "begin_iteration visit s = Next s'" for s'
  proof -
    note bs = begin_same [OF b] begin_objects [OF b]
    obtain x where x: "obj_at s a = Some x" using tracked_alive [OF gc_invD(1) [OF inv(2)]] t by blast
    have ow: "no_weak_owner s a" unfolding no_weak_owner_def
      using weak_ref_alive(1) [OF inv(1), of _ _ a] z by (metis less_irrefl)
    have "unlisted s' a" using begin_unlisted [OF inv(1) _ b] w by (simp add: world_idle_def)
    moreover have "shards_of s a = shards x" using x by (simp add: shards_of_def)
    ultimately have "calm s' a"
      using ow res_invD(2) [OF inv(1) x] z by (simp add: calm_def bs total_def)
    then show ?thesis using world_idle_begin [OF b w] c t wr by (simp add: settling_def bs)
  qed
  moreover have "?P s''" if "?P s'" "res_inv s'" "gc_inv s'" "collector_step i s' = Next s''" for s' s''
    using that world_idle_step settling_step pointers_keptD(2) [OF pointers_kept_step] by blast
  ultimately show ?thesis
    using iteration_ends [OF r c(1-3) n, of ?P] by blast
qed

lemma later_iteration:
  assumes r: "reach s" and c: "at_cpc s = CIdle" "distinct visit" "i < nshards s" "a \<in> set visit"
    and w: "world_idle a s"
    and dead: "obj_at s a = None \<or> calm s a \<and> tracked s a = Some RequiresReChecking
      \<and> untagged s a (nshards s) \<and> (b \<or> \<not> weak_route s a)"
  shows "\<exists>s'. iteration visit i s = Next s' \<and> reach s' \<and> at_cpc s' = CIdle \<and> nshards s' = nshards s
    \<and> world_idle a s' \<and> condemned b a s'"
proof -
  have inv: "res_inv s" "gc_inv s" using reach_invariants [OF r] by simp_all
  let ?P = "\<lambda>s. world_idle a s \<and> condemned b a s"
  have n: "nobody_reads s" using w by (simp add: world_idle_def nobody_reads_def in_critical_section_def)
  have "?P s'" if b: "begin_iteration visit s = Next s'" for s'
  proof -
    note bs = begin_same [OF b] begin_objects [OF b]
    have "unlisted s' a" using begin_unlisted [OF inv(1) _ b] w by (simp add: world_idle_def)
    then have "obj_at s' a = None \<or> calm s' a \<and> untagged s' a (nshards s')"
      using dead by (auto simp: calm_def untagged_def bs)
    then show ?thesis using world_idle_begin [OF b w] c dead by (auto simp: condemned_def bs)
  qed
  moreover have "?P s''" if "?P s'" "res_inv s'" "gc_inv s'" "collector_step i s' = Next s''" for s' s''
    using that world_idle_step condemned_step by blast
  ultimately show ?thesis
    using iteration_ends [OF r c(1-3) n, of ?P] by blast
qed

lemma condemned_end:
  assumes "at_cpc s = CIdle" and "condemned b a s" and "gc_inv s"
  shows "obj_at s a = None \<or> b \<and> calm s a \<and> tracked s a = Some RequiresReChecking
    \<and> untagged s a (nshards s) \<and> \<not> weak_route s a"
  using gc_invD(9) [OF assms(3)] assms(1,2) by (auto simp: condemned_def)

lemma first_two:
  assumes "reach s" and "at_cpc s = CIdle" and "i < nshards s" and "tracked s a = Some DefaultState"
    and "abandoned s a" and "distinct v1" and "a \<in> set v1" and "distinct v2" and "a \<in> set v2"
    and "b \<or> \<not> weak_route s a"
  shows "\<exists>s'. iterations [v1, v2] i s = Next s' \<and> reach s' \<and> at_cpc s' = CIdle \<and> nshards s' = nshards s
    \<and> world_idle a s' \<and> condemned b a s'"
proof -
  have w: "world_idle a s" and z: "tokens s a = 0"
    using assms(5) by (simp_all add: abandoned_def world_idle_def)
  obtain s1 where s1: "iteration v1 i s = Next s1" "reach s1" "at_cpc s1 = CIdle" "nshards s1 = nshards s"
    "world_idle a s1" "settling a s1" "b \<or> \<not> weak_route s1 a"
    using first_iteration [OF assms(1,2,6,3,7,4) z w assms(10)] by blast
  have "calm s1 a" "tracked s1 a = Some RequiresReChecking" "untagged s1 a (nshards s1)"
    using settled [OF s1(3,6)] reach_invariants [OF s1(2)] by simp_all
  then have "\<exists>s2. iteration v2 i s1 = Next s2 \<and> reach s2 \<and> at_cpc s2 = CIdle \<and> nshards s2 = nshards s1
      \<and> world_idle a s2 \<and> condemned b a s2"
    by (intro later_iteration [OF s1(2,3) assms(8) _ assms(9) s1(5)]) (use s1(4,7) assms(3) in auto)
  then show ?thesis using s1(1,4) by auto
qed

lemma iterations_append:
  "iterations (vs @ ws) i s = (case iterations vs i s of Next s' \<Rightarrow> iterations ws i s' | r \<Rightarrow> r)"
  by (induction vs arbitrary: s) (auto split: outcome.splits)

text \<open>
  An abandoned object does not stay. When no handle, atomic pointer, guard or reader has it,
  three consecutive iterations that visit it free it, and two are enough unless a weak object
  points back to it.
\<close>

theorem abandoned_object_freed:
  assumes "reach s" and "at_cpc s = CIdle" and "i < nshards s"
    and "tracked s a = Some DefaultState" and "abandoned s a"
    and "distinct v1" and "a \<in> set v1" and "distinct v2" and "a \<in> set v2" and "distinct v3" and "a \<in> set v3"
  shows "(\<exists>s'. iterations [v1, v2, v3] i s = Next s' \<and> at_cpc s' = CIdle \<and> obj_at s' a = None)
    \<and> (\<not> weak_route s a \<longrightarrow> (\<exists>s'. iterations [v1, v2] i s = Next s' \<and> at_cpc s' = CIdle \<and> obj_at s' a = None))"
proof -
  note two = first_two [OF assms(1-9)]
  obtain s2 where s2: "iterations [v1, v2] i s = Next s2" "reach s2" "at_cpc s2 = CIdle" "i < nshards s2"
    "world_idle a s2" "condemned True a s2" using two [of True] assms(3) by auto
  have e2: "obj_at s2 a = None \<or> calm s2 a \<and> tracked s2 a = Some RequiresReChecking
      \<and> untagged s2 a (nshards s2) \<and> (False \<or> \<not> weak_route s2 a)"
    using condemned_end [OF s2(3,6)] reach_invariants [OF s2(2)] by blast
  obtain s3 where s3: "iteration v3 i s2 = Next s3" "reach s3" "at_cpc s3 = CIdle" "condemned False a s3"
    using later_iteration [OF s2(2,3) assms(10) s2(4) assms(11) s2(5) e2] by blast
  have "obj_at s3 a = None" using condemned_end [OF s3(3,4)] reach_invariants [OF s3(2)] by blast
  moreover have "iterations [v1, v2, v3] i s = Next s3"
    using iterations_append [of "[v1, v2]" "[v3]" i s] s2(1) s3(1) by simp
  moreover have "\<exists>s'. iterations [v1, v2] i s = Next s' \<and> at_cpc s' = CIdle \<and> obj_at s' a = None"
    if "\<not> weak_route s a"
    using two [of False] that condemned_end reach_invariants by blast
  ultimately show ?thesis using s3(3) by blast
qed

definition abandoned_trace :: "label list" where
  "abandoned_trace = [LPush, LNew 0 0 1, LDowngradeInit 0 1 0 0, LDowngradeClone 0 1, LDrop 0 1, CTake 0, CTake 1]"

theorem abandoned_object_freed_witness:
  "\<exists>s'. iterations [[1, 0], [0], [0]] 1 (after (run abandoned_trace (start 2 2 1))) = Next s'
    \<and> at_cpc s' = CIdle \<and> obj_at s' 0 = None"
proof -
  let ?s = "after (run abandoned_trace (start 2 2 1))"
  have ok: "is_next (run abandoned_trace (start 2 2 1))" by code_simp
  have r: "reach ?s" using ok by (intro start_reach [where n = 2]) simp_all
  have st: "at_cpc ?s = CIdle" "1 < nshards ?s" "tracked ?s 0 = Some DefaultState" by code_simp+
  have "tokens ?s 0 = 0" by code_simp
  moreover have "map at_pc (thrs ?s) = [Idle]" "map (\<lambda>th. guards th j) (thrs ?s) = [None]" for j
    by code_simp+
  then have "\<forall>th\<in>set (thrs ?s). at_pc th = Idle \<and> (\<forall>j. guards th j \<noteq> Some 0)"
    by (cases "thrs ?s") auto
  ultimately have "abandoned ?s 0" by (simp add: abandoned_def)
  then show ?thesis
    using abandoned_object_freed [OF r st(1,2,3), of "[1, 0]" "[0]" "[0]"] by simp
qed

end
