(* ===== verification/CollectorThread.thy ===== *)
theory CollectorThread
  imports Liveness
begin

text \<open>
  The collector thread of \<open>src/src/collector.rs\<close>, function by function: reading the counters of an
  object, \<open>update_state\<close>, the two kinds of inner iteration, the frees with the handles they drop,
  the loop of a deep collection and the outer loop with its waiters. Then the refinement: the
  steps of \<open>Collecting\<close>, taken without interruption, compute these functions.
\<close>

section \<open>Reading the counters\<close>

fun read_ref_count_sum_relaxed :: "nat list \<Rightarrow> obj \<Rightarrow> int" where
  "read_ref_count_sum_relaxed [] x = 0"
| "read_ref_count_sum_relaxed (k # ks) x = acount (shards x ! k) + read_ref_count_sum_relaxed ks x"

fun clear_tags_and_read_ref_count_sum_acquire :: "nat list \<Rightarrow> obj \<Rightarrow> int \<times> obj" where
  "clear_tags_and_read_ref_count_sum_acquire [] x = (0, x)"
| "clear_tags_and_read_ref_count_sum_acquire (k # ks) x =
     (let (n, y) = clear_tags_and_read_ref_count_sum_acquire ks (on_shard k a_clear_tag x)
      in (acount (shards x ! k) + n, y))"

fun read_ref_count_sum_if_all_tags_unset_acquire :: "nat list \<Rightarrow> obj \<Rightarrow> int option" where
  "read_ref_count_sum_if_all_tags_unset_acquire [] x = Some 0"
| "read_ref_count_sum_if_all_tags_unset_acquire (k # ks) x =
     (if atag (shards x ! k) then None
      else case read_ref_count_sum_if_all_tags_unset_acquire ks x of
             None \<Rightarrow> None
           | Some n \<Rightarrow> Some (acount (shards x ! k) + n))"

section \<open>Clearing the back reference\<close>

datatype ClearWeakBackRefResult = WeakRefNotInvolved | WeakBackRefCleared | WeakBackRefWasAlreadyNull

definition clear_weak_backref_impl :: "addr \<Rightarrow> sys \<Rightarrow> (ClearWeakBackRefResult \<times> sys) outcome" where
  "clear_weak_backref_impl a s =
     (case obj_at s a of
        None \<Rightarrow> Fault
      | Some x \<Rightarrow>
          (case weak_ref x of
             None \<Rightarrow> Next (WeakRefNotInvolved, s)
           | Some w \<Rightarrow>
               (case obj_at s w of
                  None \<Rightarrow> Fault
                | Some y \<Rightarrow>
                    if back_ref y = None then Next (WeakBackRefWasAlreadyNull, s)
                    else Next (WeakBackRefCleared, put w (y\<lparr>back_ref := None\<rparr>) s))))"

section \<open>One tracked counter\<close>

definition set_tracked :: "addr \<Rightarrow> tstate \<Rightarrow> sys \<Rightarrow> sys" where
  "set_tracked a st s = s\<lparr>tracked := (tracked s)(a := Some st)\<rparr>"

definition update_state :: "addr \<Rightarrow> tstate \<Rightarrow> sys \<Rightarrow> sys outcome" where
  "update_state a st s =
     (case st of
        DefaultState \<Rightarrow> deref s a (\<lambda>x.
          if read_ref_count_sum_relaxed [0..<nshards s] x = 0
          then let (n, y) = clear_tags_and_read_ref_count_sum_acquire [0..<nshards s] x
               in Next (set_tracked a (if n = 0 then RequiresReChecking else DefaultState) (put a y s))
          else Next (set_tracked a DefaultState s))
      | RequiresReChecking \<Rightarrow> deref s a (\<lambda>x.
          case read_ref_count_sum_if_all_tags_unset_acquire [0..<nshards s] x of
            None \<Rightarrow> Next (set_tracked a DefaultState s)
          | Some n \<Rightarrow>
              if n = 0
              then bind_outcome (clear_weak_backref_impl a s) (\<lambda>(r, s').
                     Next (set_tracked a (if r = WeakBackRefCleared then RequiresReChecking else ReadyToFree) s'))
              else if n > 0 then Next (set_tracked a DefaultState s)
              else Panic)
      | ReadyToFree \<Rightarrow> Panic)"

text \<open>
  The body of the loops over tracked counters. A counter that is not tracked is skipped (it only
  occurs in \<open>update_specific\<dots>\<close>), one in the hazard pointer set goes back to the default state,
  one ready to be freed joins \<open>to_free\<close>.
\<close>

definition visit_counter :: "addr \<Rightarrow> sys \<Rightarrow> sys outcome" where
  "visit_counter a s =
     (case tracked s a of
        None \<Rightarrow> Next s
      | Some st \<Rightarrow>
          if a \<in> set (hz s) then Next (set_tracked a DefaultState s)
          else bind_outcome (update_state a st s) (\<lambda>s'.
                 Next (if tracked s' a = Some ReadyToFree then s'\<lparr>tofree := tofree s' @ [a]\<rparr> else s')))"

text \<open>A \<open>BTreeSet\<close> is its ascending list of elements.\<close>

fun update_each :: "addr list \<Rightarrow> addr list \<Rightarrow> sys \<Rightarrow> (addr list \<times> sys) outcome" where
  "update_each [] acc s = Next (acc, s)"
| "update_each (a # as) acc s = bind_outcome (visit_counter a s) (\<lambda>s'.
     update_each as (if tracked s' a = Some RequiresReChecking then insort_insert a acc else acc) s')"

section \<open>The hazard pointer set\<close>

definition scan_slot :: "thr \<Rightarrow> addr list \<Rightarrow> nat \<Rightarrow> addr list" where
  "scan_slot th h j = (case mem (slots th j) of None \<Rightarrow> h | Some a \<Rightarrow> a # h)"

definition scan_thread :: "addr list \<Rightarrow> thr \<Rightarrow> addr list" where
  "scan_thread h th = foldl (scan_slot th) h [0..<HZ_PTR_SLOT_COUNT]"

text \<open>The poll of a flag that is up spins: alone, the collector does not get past it.\<close>

definition traverse_atomic_reader_signals :: "sys \<Rightarrow> sys outcome" where
  "traverse_atomic_reader_signals s =
     (let ths = map drain_thr (thrs s)
      in if \<exists>th\<in>set ths. mem (flag th) then Disabled
         else Next (s\<lparr>thrs := ths, hz := foldl scan_thread [] ths\<rparr>))"

section \<open>Frees\<close>

text \<open>
  The collector thread with what it needs beside the machine: the handles each object's data
  holds (dropped one after the other by the drop glue when the object is freed), the thread
  local \<open>counters_to_recheck\<close>, and the waiters of \<open>collector_update_now_and_wait\<close>.
\<close>

record world =
  core :: sys
  data_handles :: "addr \<Rightarrow> addr list"
  counters_to_recheck :: "addr list"
  collection_waiting :: "nat list"
  notified :: "nat list"
  outer_iteration_counter :: nat

definition on_sdarc_drop :: "addr \<Rightarrow> world \<Rightarrow> world" where
  "on_sdarc_drop a w = w\<lparr>counters_to_recheck := insort_insert a (counters_to_recheck w)\<rparr>"

definition take_to_recheck :: "world \<Rightarrow> addr list \<times> world" where
  "take_to_recheck w = (counters_to_recheck w, w\<lparr>counters_to_recheck := []\<rparr>)"

text \<open>\<open>Drop for Sdarc\<close> in the collector thread.\<close>

definition drop_in_collector :: "nat \<Rightarrow> addr \<Rightarrow> world \<Rightarrow> world outcome" where
  "drop_in_collector i c w =
     bind_outcome (sdarc_drop c i (core w)) (\<lambda>s'. Next (on_sdarc_drop c w\<lparr>core := s'\<rparr>))"

fun drop_handles :: "nat \<Rightarrow> addr list \<Rightarrow> world \<Rightarrow> world outcome" where
  "drop_handles i [] w = Next w"
| "drop_handles i (c # cs) w = bind_outcome (drop_in_collector i c w) (drop_handles i cs)"

text \<open>
  The drop of a \<open>SdarcInner\<close>: the counters' box is given back, then the handle to the weak object
  is dropped, then the data.
\<close>

definition free_inner :: "nat \<Rightarrow> addr \<Rightarrow> world \<Rightarrow> world outcome" where
  "free_inner i a w =
     (case obj_at (core w) a of
        None \<Rightarrow> Fault
      | Some x \<Rightarrow>
          if back_ref x \<noteq> None then Panic
          else bind_outcome (drop_weak_inner_ref (weak_ref x) i ((core w)\<lparr>heap := (heap (core w))[a := None]\<rparr>))
                 (\<lambda>s'. let w' = (case weak_ref x of None \<Rightarrow> w | Some v \<Rightarrow> on_sdarc_drop v w)
                   in drop_handles i (data_handles w a)
                        (w'\<lparr>core := s', data_handles := (data_handles w)(a := [])\<rparr>)))"

fun free_pointers :: "nat \<Rightarrow> addr list \<Rightarrow> world \<Rightarrow> world outcome" where
  "free_pointers i [] w = Next w"
| "free_pointers i (a # as) w =
     (if tracked (core w) a \<noteq> Some ReadyToFree then Panic
      else bind_outcome
             (free_inner i a (w\<lparr>core := (core w)\<lparr>tracked := (tracked (core w))(a := None)\<rparr>\<rparr>))
             (free_pointers i as))"

section \<open>Inner iterations\<close>

definition set_extend :: "addr list \<Rightarrow> addr list \<Rightarrow> addr list" where
  "set_extend new s = foldl (\<lambda>s a. insort_insert a s) s new"

text \<open>
  What \<open>update_all\<dots>\<close> and \<open>update_specific\<dots>\<close> share: the hazard pointer set, the loop over the
  counters, the frees, and the counters dropped meanwhile.
\<close>

definition update_counters :: "addr list \<Rightarrow> nat \<Rightarrow> world \<Rightarrow> (addr list \<times> world) outcome" where
  "update_counters visit i w =
     bind_outcome (traverse_atomic_reader_signals (core w)) (\<lambda>s.
     bind_outcome (update_each visit [] s) (\<lambda>(new_to_recheck, s').
     bind_outcome (free_pointers i (tofree s') (w\<lparr>core := s'\<lparr>tofree := []\<rparr>\<rparr>)) (\<lambda>w'.
     let (dropped, w'') = take_to_recheck w' in Next (set_extend dropped new_to_recheck, w''))))"

definition tracked_keys :: "sys \<Rightarrow> addr list" where
  "tracked_keys s = filter (\<lambda>a. tracked s a \<noteq> None) [0..<length (heap s)]"

definition update_all :: "bool \<Rightarrow> nat \<Rightarrow> world \<Rightarrow> (addr list option \<times> world) outcome" where
  "update_all deep i w =
     bind_outcome (update_counters (tracked_keys (core w)) i w) (\<lambda>(to_recheck, w').
       Next (if deep then Some to_recheck else None, w'))"

definition update_specific :: "addr list \<Rightarrow> nat \<Rightarrow> world \<Rightarrow> (addr list \<times> world) outcome" where
  "update_specific old_to_recheck i w = update_counters old_to_recheck i w"

text \<open>The loop of a deep collection; \<open>n\<close> is what \<open>loop_counter\<close> still has to its limit.\<close>

fun recheck_loop :: "nat \<Rightarrow> addr list \<Rightarrow> nat \<Rightarrow> world \<Rightarrow> world outcome" where
  "recheck_loop 0 to_recheck i w = Next w"
| "recheck_loop (Suc n) to_recheck i w =
     (if to_recheck = [] then Next w
      else bind_outcome (update_specific to_recheck i w) (\<lambda>(to_recheck', w'). recheck_loop n to_recheck' i w'))"

definition LOOP_LIMIT :: nat where
  "LOOP_LIMIT = 100000"

definition do_collection_inner_iterations :: "bool \<Rightarrow> nat \<Rightarrow> world \<Rightarrow> world outcome" where
  "do_collection_inner_iterations deep i w =
     bind_outcome (update_all deep i w) (\<lambda>(to_recheck, w').
       case to_recheck of None \<Rightarrow> Next w' | Some l \<Rightarrow> recheck_loop LOOP_LIMIT l i w')"

section \<open>Outer iterations\<close>

fun take_from_shards :: "nat list \<Rightarrow> sys \<Rightarrow> sys outcome" where
  "take_from_shards [] s = Next s"
| "take_from_shards (j # js) s = bind_outcome (take_new_counters_to_track j s) (take_from_shards js)"

text \<open>\<open>update\<close>, but for the allocator's maintenance, which does not touch this state.\<close>

definition update :: "bool \<Rightarrow> nat \<Rightarrow> world \<Rightarrow> world outcome" where
  "update deep i w =
     bind_outcome (take_from_shards [0..<nshards (core w)] (core w)) (\<lambda>s.
       do_collection_inner_iterations deep i (w\<lparr>core := s\<rparr>))"

text \<open>
  One pass of the loop of \<open>collector_thread_main\<close>. A waiter is a number; \<open>notified\<close> lists those
  that received their message.
\<close>

definition collector_thread_main_pass :: "nat \<Rightarrow> world \<Rightarrow> world outcome" where
  "collector_thread_main_pass i w =
     (let to_notify = collection_waiting w;
          w' = w\<lparr>outer_iteration_counter := outer_iteration_counter w + 1, collection_waiting := []\<rparr>
      in bind_outcome (update (to_notify \<noteq> []) i w') (\<lambda>w''.
           Next (w''\<lparr>notified := notified w'' @ to_notify\<rparr>)))"

definition collector_update_now :: "nat \<Rightarrow> world \<Rightarrow> world" where
  "collector_update_now waiter w = w\<lparr>collection_waiting := collection_waiting w @ [waiter]\<rparr>"

end
