(* ===== verification/CollectorRefinement.thy ===== *)
theory CollectorRefinement
  imports CollectorThread
begin

text \<open>
  The collector's single steps, taken without interruption, compute the functions of
  \<open>CollectorThread\<close>: one visit is \<open>visit_counter\<close>, the scan is
  \<open>traverse_atomic_reader_signals\<close>, a free with the drops that follow it is \<open>free_inner\<close>. So every
  run of these functions is a run of the machine, and inherits its safety.
\<close>

section \<open>Runs of the collector alone\<close>

fun csteps :: "nat \<Rightarrow> nat \<Rightarrow> sys \<Rightarrow> sys outcome" where
  "csteps 0 i s = Next s"
| "csteps (Suc n) i s = bind_outcome (collector_step i s) (csteps n i)"

lemma csteps_add: "csteps (m + n) i s = bind_outcome (csteps m i s) (csteps n i)"
proof (induction m arbitrary: s)
  case (Suc m)
  then show ?case by (cases "collector_step i s") simp_all
qed simp

definition comes_to :: "nat \<Rightarrow> sys \<Rightarrow> sys outcome \<Rightarrow> bool" where
  "comes_to i s r \<longleftrightarrow> (\<exists>n. csteps n i s = r)"

lemma comes_to_refl [intro]: "comes_to i s (Next s)"
  unfolding comes_to_def by (rule exI [of _ 0]) simp

lemma comes_to_step: "comes_to i s (collector_step i s)"
  unfolding comes_to_def by (rule exI [of _ "Suc 0"]) (cases "collector_step i s", simp_all)

lemma comes_to_trans: "comes_to i s (Next s') \<Longrightarrow> comes_to i s' r \<Longrightarrow> comes_to i s r"
  unfolding comes_to_def using csteps_add by (metis bind_outcome_simps(1))

lemma comes_to_first: "collector_step i s = Next s' \<Longrightarrow> comes_to i s' r \<Longrightarrow> comes_to i s r"
  using comes_to_trans comes_to_step by metis

lemma comes_to_reach: "comes_to i s (Next s') \<Longrightarrow> reach s \<Longrightarrow> reach s'"
proof -
  have "csteps n i s = Next s' \<Longrightarrow> reach s \<Longrightarrow> reach s'" for n
  proof (induction n arbitrary: s)
    case (Suc n)
    then obtain s1 where s1: "collector_step i s = Next s1" "csteps n i s1 = Next s'"
      by (auto simp: bind_outcome_Next)
    obtain l where "step l s = Next s1" using collector_step_is_step [OF s1(1)] by blast
    then have "reach s1" by (rule reach_step [OF Suc.prems(2)])
    then show ?case by (rule Suc.IH [OF s1(2)])
  qed simp
  then show "comes_to i s (Next s') \<Longrightarrow> reach s \<Longrightarrow> reach s'" by (auto simp: comes_to_def)
qed

text \<open>The collector's position and its list of counters still to visit.\<close>

definition at :: "cpc \<Rightarrow> addr list \<Rightarrow> sys \<Rightarrow> sys" where
  "at c td s = s\<lparr>at_cpc := c, todo := td\<rparr>"

lemma at_simps [simp]:
  "at_cpc (at c td s) = c" "todo (at c td s) = td" "nshards (at c td s) = nshards s"
  "heap (at c td s) = heap s" "tracked (at c td s) = tracked s" "hz (at c td s) = hz s"
  "tofree (at c td s) = tofree s" "thrs (at c td s) = thrs s" "handles (at c td s) = handles s"
  "cells (at c td s) = cells s" "pending (at c td s) = pending s"
  "obj_at (at c td s) a = obj_at s a" "at c td (at c' td' s) = at c td s"
  "at c td s\<lparr>at_cpc := c'\<rparr> = at c' td s" "at c td s\<lparr>todo := td'\<rparr> = at c td' s"
  "put a x (at c td s) = at c td (put a x s)" "set_state a st (at c td s) = at CVisit td (set_tracked a st s)"
  by (simp_all add: at_def obj_at_def put_def set_state_def set_tracked_def)

lemma at_at_todo [simp]: "at c td s\<lparr>todo := td', at_cpc := c'\<rparr> = at c' td' s"
  by (simp add: at_def)

lemma at_same: "at (at_cpc s) (todo s) s = s"
  by (cases s) (simp add: at_def)

lemma deref_at [simp]: "deref (at c td s) a k = deref s a k"
  by (simp add: deref_def)

section \<open>The three reads of the counters\<close>

lemma upt_step: "k < n \<Longrightarrow> [k..<n] = k # [Suc k..<n]"
  by (rule upt_conv_Cons)

lemma run_relaxed:
  assumes "obj_at s a = Some x" and "k \<le> nshards s"
  shows "comes_to i (at (CRelax a k acc) td s)
    (Next (at (CRelax a (nshards s) (acc + read_ref_count_sum_relaxed [k..<nshards s] x)) td s))"
  using assms(2)
proof (induction "nshards s - k" arbitrary: k acc)
  case 0
  then show ?case by auto
next
  case (Suc d)
  then have k: "k < nshards s" by simp
  have "collector_step i (at (CRelax a k acc) td s)
      = Next (at (CRelax a (Suc k) (acc + acount (shards x ! k))) td s)"
    using k assms(1) by (simp add: collector_step_def read_relaxed_step_def deref_def)
  moreover have "comes_to i (at (CRelax a (Suc k) (acc + acount (shards x ! k))) td s)
      (Next (at (CRelax a (nshards s) (acc + acount (shards x ! k)
        + read_ref_count_sum_relaxed [Suc k..<nshards s] x)) td s))"
    using Suc.hyps(2) k by (intro Suc.hyps(1)) simp_all
  ultimately show ?case using comes_to_first by (simp add: upt_step [OF k] add.assoc)
qed

lemma put_same: "obj_at s a = Some x \<Longrightarrow> put a x s = s"
  using heap_obj_at [of s a x] list_update_id [of "heap s" a] by (simp add: put_def)

lemma put_put [simp]: "put a y (put a x s) = put a y s"
  by (simp add: put_def)

lemma run_clear_tags:
  assumes "obj_at s a = Some x" and "k \<le> nshards s"
    and "clear_tags_and_read_ref_count_sum_acquire [k..<nshards s] x = (n, y)"
  shows "comes_to i (at (CClear a k acc) td s) (Next (at (CClear a (nshards s) (acc + n)) td (put a y s)))"
  using assms
proof (induction "nshards s - k" arbitrary: k acc x s n)
  case 0
  then show ?case using put_same [of s a x] by auto
next
  case (Suc d)
  then have k: "k < nshards s" by simp
  let ?x = "on_shard k a_clear_tag x" and ?acc = "acc + acount (shards x ! k)"
  obtain m where m: "clear_tags_and_read_ref_count_sum_acquire [Suc k..<nshards s] ?x = (m, y)"
    "n = acount (shards x ! k) + m"
    using Suc.prems(3) by (auto simp: upt_step [OF k] split: prod.splits)
  have "collector_step i (at (CClear a k acc) td s) = Next (at (CClear a (Suc k) ?acc) td (put a ?x s))"
    using k Suc.prems(1) by (simp add: collector_step_def clear_tags_step_def deref_def)
  moreover have "comes_to i (at (CClear a (Suc k) ?acc) td (put a ?x s))
      (Next (at (CClear a (nshards (put a ?x s)) (?acc + m)) td (put a y (put a ?x s))))"
  proof (rule Suc.hyps(1))
    show "obj_at (put a ?x s) a = Some ?x" using obj_at_put [OF obj_at_less [OF Suc.prems(1)]] by simp
  qed (use Suc.hyps(2) k m in simp_all)
  ultimately show ?case using comes_to_first m(2) by (simp add: add.assoc)
qed

lemma run_check:
  assumes "obj_at s a = Some x" and "k \<le> nshards s"
  shows "comes_to i (at (CCheck a k acc) td s)
    (Next (case read_ref_count_sum_if_all_tags_unset_acquire [k..<nshards s] x of
       None \<Rightarrow> at CVisit td (set_tracked a DefaultState s)
     | Some n \<Rightarrow> at (CCheck a (nshards s) (acc + n)) td s))"
  using assms(2)
proof (induction "nshards s - k" arbitrary: k acc)
  case 0
  then show ?case by auto
next
  case (Suc d)
  then have k: "k < nshards s" by simp
  let ?acc = "acc + acount (shards x ! k)"
  show ?case
  proof (cases "atag (shards x ! k)")
    case True
    then have "collector_step i (at (CCheck a k acc) td s) = Next (at CVisit td (set_tracked a DefaultState s))"
      using k assms(1) by (simp add: collector_step_def check_step_def deref_def)
    then show ?thesis
      using comes_to_step [of i "at (CCheck a k acc) td s"] True by (simp add: upt_step [OF k])
  next
    case False
    then have "collector_step i (at (CCheck a k acc) td s) = Next (at (CCheck a (Suc k) ?acc) td s)"
      using k assms(1) by (simp add: collector_step_def check_step_def deref_def)
    moreover have "comes_to i (at (CCheck a (Suc k) ?acc) td s)
        (Next (case read_ref_count_sum_if_all_tags_unset_acquire [Suc k..<nshards s] x of
           None \<Rightarrow> at CVisit td (set_tracked a DefaultState s)
         | Some n \<Rightarrow> at (CCheck a (nshards s) (?acc + n)) td s))"
      using Suc.hyps(2) k by (intro Suc.hyps(1)) simp_all
    ultimately show ?thesis
      using comes_to_first False by (auto simp: upt_step [OF k] add.assoc split: option.splits)
  qed
qed


section \<open>One visit\<close>

lemma run_weak:
  "collector_step i (at (CWeak a) td s) = bind_outcome (clear_weak_backref_impl a s) (\<lambda>(r, s').
     Next (at CVisit td (if r = WeakBackRefCleared then set_tracked a RequiresReChecking s'
       else (set_tracked a ReadyToFree s')\<lparr>tofree := tofree s' @ [a]\<rparr>)))"
proof (cases "obj_at s a")
  case (Some x)
  have ready: "ready_to_free a (at (CWeak a) td s)
      = at CVisit td ((set_tracked a ReadyToFree s)\<lparr>tofree := tofree s @ [a]\<rparr>)"
    by (simp add: ready_to_free_def at_def set_state_def set_tracked_def)
  show ?thesis
  proof (cases "weak_ref x")
    case None
    then show ?thesis using Some ready
      by (simp add: collector_step_def clear_weak_backref_def clear_weak_backref_impl_def deref_def)
  next
    case w: (Some w)
    then show ?thesis using Some ready
      by (cases "obj_at s w") (simp_all add: collector_step_def clear_weak_backref_def
          clear_weak_backref_impl_def deref_def)
  qed
qed (simp add: collector_step_def clear_weak_backref_def clear_weak_backref_impl_def deref_def)

lemma run_update_state:
  assumes t: "tracked s a = Some st" and x: "obj_at s a = Some x" and h: "a \<notin> set (hz s)"
  shows "comes_to i (at CVisit (a # td) s)
    (bind_outcome (visit_counter a s) (\<lambda>s'. Next (at CVisit td s')))"
proof (cases st)
  case DefaultState
  have start: "collector_step i (at CVisit (a # td) s) = Next (at (CRelax a 0 0) td s)"
    using t h DefaultState by (simp add: collector_step_def visit_next_def)
  let ?n = "nshards s" and ?sum = "read_ref_count_sum_relaxed [0..<nshards s] x"
  have relax: "comes_to i (at CVisit (a # td) s) (Next (at (CRelax a ?n ?sum) td s))"
    using comes_to_first [OF start run_relaxed [OF x]] by simp
  show ?thesis
  proof (cases "?sum = 0")
    case False
    then have "collector_step i (at (CRelax a ?n ?sum) td s) = Next (at CVisit td (set_tracked a DefaultState s))"
      by (simp add: collector_step_def read_relaxed_step_def)
    then show ?thesis
      using comes_to_trans [OF relax comes_to_step] False DefaultState t x h
      by (simp add: visit_counter_def update_state_def deref_def set_tracked_def)
  next
    case True
    obtain n y where cl: "clear_tags_and_read_ref_count_sum_acquire [0..<?n] x = (n, y)" by fastforce
    let ?s = "put a y s"
    have "collector_step i (at (CRelax a ?n ?sum) td s) = Next (at (CClear a 0 0) td s)"
      using True by (simp add: collector_step_def read_relaxed_step_def)
    then have "comes_to i (at CVisit (a # td) s) (Next (at (CClear a 0 0) td s))"
      using comes_to_trans [OF relax] comes_to_step by metis
    then have read: "comes_to i (at CVisit (a # td) s) (Next (at (CClear a ?n n) td ?s))"
      using comes_to_trans run_clear_tags [OF x _ cl, of i 0 td] by fastforce
    have "collector_step i (at (CClear a ?n n) td ?s)
        = Next (at CVisit td (set_tracked a (if n = 0 then RequiresReChecking else DefaultState) ?s))"
      by (simp add: collector_step_def clear_tags_step_def)
    then show ?thesis
      using comes_to_trans [OF read comes_to_step] True cl DefaultState t x h
      by (simp add: visit_counter_def update_state_def deref_def set_tracked_def)
  qed
next
  case RequiresReChecking
  have start: "collector_step i (at CVisit (a # td) s) = Next (at (CCheck a 0 0) td s)"
    using t h RequiresReChecking by (simp add: collector_step_def visit_next_def)
  let ?n = "nshards s" and ?r = "read_ref_count_sum_if_all_tags_unset_acquire [0..<nshards s] x"
  have check: "comes_to i (at CVisit (a # td) s) (Next (case ?r of
      None \<Rightarrow> at CVisit td (set_tracked a DefaultState s) | Some n \<Rightarrow> at (CCheck a ?n n) td s))"
    using comes_to_first [OF start run_check [OF x, of 0 i 0 td]] unfolding add_0 by simp
  show ?thesis
  proof (cases ?r)
    case None
    then show ?thesis
      using check RequiresReChecking t x h
      by (simp add: visit_counter_def update_state_def deref_def set_tracked_def)
  next
    case (Some n)
    have read: "comes_to i (at CVisit (a # td) s) (Next (at (CCheck a ?n n) td s))"
      using check Some by simp
    consider (zero) "n = 0" | (pos) "n > 0" | (neg) "n < 0" by linarith
    then show ?thesis
    proof cases
      case zero
      then have "collector_step i (at (CCheck a ?n n) td s) = Next (at (CWeak a) td s)"
        by (simp add: collector_step_def check_step_def)
      then have "comes_to i (at CVisit (a # td) s) (Next (at (CWeak a) td s))"
        using comes_to_trans [OF read] comes_to_step by metis
      then have "comes_to i (at CVisit (a # td) s) (collector_step i (at (CWeak a) td s))"
        using comes_to_trans comes_to_step by blast
      moreover have "collector_step i (at (CWeak a) td s)
          = bind_outcome (visit_counter a s) (\<lambda>s'. Next (at CVisit td s'))"
        unfolding run_weak using RequiresReChecking t x h Some zero
        by (cases "clear_weak_backref_impl a s")
          (auto simp: visit_counter_def update_state_def deref_def set_tracked_def split: prod.split)
      ultimately show ?thesis by simp
    next
      case pos
      then have "collector_step i (at (CCheck a ?n n) td s) = Next (at CVisit td (set_tracked a DefaultState s))"
        by (simp add: collector_step_def check_step_def)
      then show ?thesis
        using comes_to_trans [OF read comes_to_step] pos Some RequiresReChecking t x h
        by (simp add: visit_counter_def update_state_def deref_def set_tracked_def)
    next
      case neg
      then have "collector_step i (at (CCheck a ?n n) td s) = Panic"
        by (simp add: collector_step_def check_step_def)
      then show ?thesis
        using comes_to_trans [OF read comes_to_step] neg Some RequiresReChecking t x h
        by (simp add: visit_counter_def update_state_def deref_def)
    qed
  qed
next
  case ReadyToFree
  then have "collector_step i (at CVisit (a # td) s) = Panic"
    using t h by (simp add: collector_step_def visit_next_def)
  then show ?thesis
    using comes_to_step [of i "at CVisit (a # td) s"] ReadyToFree t h
    by (simp add: visit_counter_def update_state_def)
qed

lemma run_visit:
  assumes "tracked s a \<noteq> None \<Longrightarrow> obj_at s a \<noteq> None"
  shows "comes_to i (at CVisit (a # td) s)
    (bind_outcome (visit_counter a s) (\<lambda>s'. Next (at CVisit td s')))"
proof (cases "tracked s a")
  case None
  then have "collector_step i (at CVisit (a # td) s) = Next (at CVisit td s)"
    by (simp add: collector_step_def visit_next_def)
  then show ?thesis using comes_to_step [of i "at CVisit (a # td) s"] None by (simp add: visit_counter_def)
next
  case (Some st)
  then obtain x where x: "obj_at s a = Some x" using assms by blast
  show ?thesis
  proof (cases "a \<in> set (hz s)")
    case True
    then have "collector_step i (at CVisit (a # td) s) = Next (at CVisit td (set_tracked a DefaultState s))"
      using Some by (simp add: collector_step_def visit_next_def)
    then show ?thesis
      using comes_to_step [of i "at CVisit (a # td) s"] Some True by (simp add: visit_counter_def)
  qed (rule run_update_state [OF Some x])
qed

section \<open>The loop over the counters\<close>

lemma collector_step_safe: "res_inv s \<Longrightarrow> gc_inv s \<Longrightarrow> safe_outcome (collector_step i s)"
  using collector_step_enabled [of s i] safe_traverse_begin safe_traverse_step safe_visit_next
    safe_read_relaxed safe_clear_tags safe_check safe_clear_weak safe_free
  by (simp add: collector_step_def split: cpc.split)

lemma comes_to_safe: "reach s \<Longrightarrow> comes_to i s r \<Longrightarrow> r = Disabled \<or> (\<exists>s'. r = Next s' \<and> reach s')"
proof -
  have "reach s \<Longrightarrow> csteps n i s = r \<Longrightarrow> r = Disabled \<or> (\<exists>s'. r = Next s' \<and> reach s')" for n
  proof (induction n arbitrary: s)
    case (Suc n)
    have "safe_outcome (collector_step i s)"
      using reach_invariants [OF Suc.prems(1)] collector_step_safe by blast
    then consider "collector_step i s = Disabled" | s1 where "collector_step i s = Next s1"
      by (cases "collector_step i s") simp_all
    then show ?case
    proof cases
      case 2
      have "reach s1" using comes_to_reach [OF _ Suc.prems(1)] comes_to_step 2 by metis
      then show ?thesis using Suc 2 by simp
    qed (use Suc in simp)
  qed auto
  then show "reach s \<Longrightarrow> comes_to i s r \<Longrightarrow> r = Disabled \<or> (\<exists>s'. r = Next s' \<and> reach s')"
    by (auto simp: comes_to_def)
qed

lemma clear_weak_not_disabled: "clear_weak_backref_impl a s \<noteq> Disabled"
  by (auto simp: clear_weak_backref_impl_def split: option.split)

lemma visit_not_disabled: "visit_counter a s \<noteq> Disabled"
proof -
  have "update_state a st s \<noteq> Disabled" for st
  proof (cases st)
    case RequiresReChecking
    then show ?thesis
      using clear_weak_not_disabled [of a s]
      by (cases "clear_weak_backref_impl a s")
        (auto simp: update_state_def deref_def split: option.split prod.split)
  qed (auto simp: update_state_def deref_def split: option.split prod.split)
  then have "bind_outcome (update_state a st s) (\<lambda>s'. Next (f s')) \<noteq> Disabled" for st and f :: "sys \<Rightarrow> sys"
    by (metis bind_outcome_simps outcome.exhaust outcome.distinct(3,5,1))
  then show ?thesis by (simp add: visit_counter_def split: option.split)
qed

lemma reach_tracked_alive: "reach s \<Longrightarrow> tracked s a \<noteq> None \<Longrightarrow> obj_at s a \<noteq> None"
  using tracked_alive [of s a] reach_invariants [of s] gc_invD(1) [of s] by auto

lemma run_each:
  assumes "reach (at CVisit as s)"
  shows "\<exists>acc' s'. update_each as acc s = Next (acc', s')
    \<and> comes_to i (at CVisit as s) (Next (at CVisit [] s'))"
  using assms
proof (induction as arbitrary: acc s)
  case Nil
  then show ?case by auto
next
  case (Cons a as)
  have run: "comes_to i (at CVisit (a # as) s) (bind_outcome (visit_counter a s) (\<lambda>s'. Next (at CVisit as s')))"
    using reach_tracked_alive [OF Cons.prems] by (intro run_visit) auto
  obtain s1 where s1: "visit_counter a s = Next s1"
    using comes_to_safe [OF Cons.prems run] visit_not_disabled [of a s]
    by (cases "visit_counter a s") auto
  then have "comes_to i (at CVisit (a # as) s) (Next (at CVisit as s1))" using run by simp
  moreover from comes_to_reach [OF this Cons.prems] have "reach (at CVisit as s1)" .
  ultimately show ?case
    using Cons.IH [of s1] comes_to_trans s1 by (fastforce simp del: at_simps)
qed

section \<open>The scan\<close>

lemma run_slots:
  assumes "t < n" and "j \<le> HZ_PTR_SLOT_COUNT"
  shows "comes_to i (at (CScan t n j) td (s\<lparr>hz := h\<rparr>)) (Next (at (CScan t n HZ_PTR_SLOT_COUNT) td
    (s\<lparr>hz := foldl (scan_slot (thrs s ! t)) h [j..<HZ_PTR_SLOT_COUNT]\<rparr>)))"
  using assms(2)
proof (induction "HZ_PTR_SLOT_COUNT - j" arbitrary: j h)
  case 0
  then show ?case by auto
next
  case (Suc d)
  then have j: "j < HZ_PTR_SLOT_COUNT" by simp
  have "collector_step i (at (CScan t n j) td (s\<lparr>hz := h\<rparr>))
      = Next (at (CScan t n (Suc j)) td (s\<lparr>hz := scan_slot (thrs s ! t) h j\<rparr>))"
    using j assms(1) by (cases "mem (slots (thrs s ! t) j)")
      (simp_all add: collector_step_def traverse_step_def scan_slot_def at_def)
  moreover have "comes_to i (at (CScan t n (Suc j)) td (s\<lparr>hz := scan_slot (thrs s ! t) h j\<rparr>))
      (Next (at (CScan t n HZ_PTR_SLOT_COUNT) td
        (s\<lparr>hz := foldl (scan_slot (thrs s ! t)) (scan_slot (thrs s ! t) h j) [Suc j..<HZ_PTR_SLOT_COUNT]\<rparr>)))"
    using Suc.hyps(2) j by (intro Suc.hyps(1)) simp_all
  ultimately show ?case using comes_to_first by (simp add: upt_step [OF j])
qed

lemma run_threads:
  assumes f: "flags_down s" and "t \<le> length (thrs s)"
  shows "comes_to i (at (CScan t (length (thrs s)) 0) td (s\<lparr>hz := h\<rparr>))
    (Next (at CVisit td (s\<lparr>hz := foldl scan_thread h (drop t (thrs s))\<rparr>)))"
  using assms(2)
proof (induction "length (thrs s) - t" arbitrary: t h)
  case 0
  then have "collector_step i (at (CScan t (length (thrs s)) 0) td (s\<lparr>hz := h\<rparr>))
      = Next (at CVisit td (s\<lparr>hz := h\<rparr>))"
    by (simp add: collector_step_def traverse_step_def)
  then show ?case using comes_to_step 0 by (metis diff_is_0_eq drop_all foldl_Nil)
next
  case (Suc d)
  then have t: "t < length (thrs s)" by simp
  let ?n = "length (thrs s)" and ?th = "thrs s ! t"
  have "\<not> mem (flag ?th)" using f t by (simp add: flags_down_def)
  then have "collector_step i (at (CScan t ?n HZ_PTR_SLOT_COUNT) td (s\<lparr>hz := scan_thread h ?th\<rparr>))
      = Next (at (CScan (Suc t) ?n 0) td (s\<lparr>hz := scan_thread h ?th\<rparr>))"
    using t by (simp add: collector_step_def traverse_step_def)
  moreover have "comes_to i (at (CScan (Suc t) ?n 0) td (s\<lparr>hz := scan_thread h ?th\<rparr>))
      (Next (at CVisit td (s\<lparr>hz := foldl scan_thread (scan_thread h ?th) (drop (Suc t) (thrs s))\<rparr>)))"
    using Suc.hyps(2) t by (intro Suc.hyps(1)) simp_all
  ultimately have "comes_to i (at (CScan t ?n HZ_PTR_SLOT_COUNT) td (s\<lparr>hz := scan_thread h ?th\<rparr>))
      (Next (at CVisit td (s\<lparr>hz := foldl scan_thread h (drop t (thrs s))\<rparr>)))"
    using comes_to_first t by (simp add: Cons_nth_drop_Suc [symmetric])
  then show ?case
    using comes_to_trans [OF run_slots [where t = t and n = ?n and j = 0 and s = s and h = h and i = i and td = td]] t by (simp add: scan_thread_def)
qed

lemma run_traverse:
  assumes b: "begin_iteration visit s = Next s1" and tr: "traverse_atomic_reader_signals s = Next s2"
  shows "comes_to i s1 (Next (at CVisit visit (s2\<lparr>tofree := []\<rparr>)))"
proof -
  let ?s = "s\<lparr>thrs := map drain_thr (thrs s), tofree := []\<rparr>"
  have s1: "s1 = at CSnap visit (?s\<lparr>hz := []\<rparr>)"
    using b by (auto simp: begin_iteration_def at_def split: if_splits)
  have f: "flags_down ?s" and s2: "s2\<lparr>tofree := []\<rparr> = ?s\<lparr>hz := foldl scan_thread [] (thrs ?s)\<rparr>"
    using tr by (auto simp: traverse_atomic_reader_signals_def flags_down_def Let_def split: if_splits)
  have "collector_step i s1 = Next (at (CScan 0 (length (thrs ?s)) 0) visit (?s\<lparr>hz := []\<rparr>))"
    by (simp add: collector_step_def traverse_begin_def s1)
  then show ?thesis
    using comes_to_first run_threads [OF f, of 0 i visit "[]"] by (simp add: s2)
qed

text \<open>
  C11: the single steps refine the loop. From any reachable state in which the collector is about
  to visit the counters of its list, its own steps without interruption do exactly what
  \<open>update_state\<close> and the loops around it do, counter by counter, and stop at the end of the list.
\<close>

theorem uninterrupted_visits_are_the_loop:
  assumes "reach s" and "at_cpc s = CVisit"
  shows "\<exists>to_recheck s' n. update_each (todo s) [] s = Next (to_recheck, s')
    \<and> csteps n i s = Next (s'\<lparr>at_cpc := CVisit, todo := []\<rparr>)"
proof -
  have s: "at CVisit (todo s) s = s" using at_same [of s] assms(2) by simp
  then obtain acc' s' where "update_each (todo s) [] s = Next (acc', s')" "comes_to i s (Next (at CVisit [] s'))"
    using run_each [of "todo s" s "[]" i] assms(1) by auto
  then show ?thesis by (auto simp: comes_to_def at_def)
qed

definition visiting_trace :: "label list" where
  "visiting_trace = [LNew 0 0 0, LNew 1 1 0, LDrop 0 1, CTake 0, CBegin [0, 1], CTraverseBegin, CTraverse]"

theorem uninterrupted_visits_are_the_loop_witness:
  "\<exists>s' n. update_each [0, 1] [] (after (run visiting_trace (start 2 2 1))) = Next ([0], s')
    \<and> csteps n 0 (after (run visiting_trace (start 2 2 1))) = Next (s'\<lparr>at_cpc := CVisit, todo := []\<rparr>)"
proof -
  let ?s = "after (run visiting_trace (start 2 2 1))"
  have ok: "is_next (run visiting_trace (start 2 2 1))" by code_simp
  have r: "reach ?s" using ok by (intro start_reach [where n = 2]) simp_all
  have c: "at_cpc ?s = CVisit" "todo ?s = [0, 1]" by code_simp+
  have "fst (after (update_each [0, 1] [] ?s)) = [0]" by code_simp
  then show ?thesis using uninterrupted_visits_are_the_loop [OF r c(1), of 0] c(2) by auto
qed

section \<open>Frees\<close>

definition emb :: "addr list \<Rightarrow> sys \<Rightarrow> sys" where
  "emb as s = at CFreeing [] (s\<lparr>tofree := as\<rparr>)"

lemma emb_simps [simp]:
  "at_cpc (emb as s) = CFreeing" "todo (emb as s) = []" "nshards (emb as s) = nshards s"
  "heap (emb as s) = heap s" "tracked (emb as s) = tracked s" "hz (emb as s) = hz s"
  "tofree (emb as s) = as" "thrs (emb as s) = thrs s" "handles (emb as s) = handles s"
  "cells (emb as s) = cells s" "pending (emb as s) = pending s" "obj_at (emb as s) a = obj_at s a"
  "shards_of (emb as s) a = shards_of s a" "tokens (emb as s) a = tokens s a"
  by (simp_all add: emb_def obj_at_def shards_of_def tokens_def)

lemma emb_drop: "sdarc_drop c i (emb as s) = bind_outcome (sdarc_drop c i s) (\<lambda>s'. Next (emb as s'))"
  by (simp add: sdarc_drop_def deref_def emb_def at_def put_def take_handle_def split: option.split)

lemma emb_weak:
  "drop_weak_inner_ref v i (emb as s) = bind_outcome (drop_weak_inner_ref v i s) (\<lambda>s'. Next (emb as s'))"
  by (simp add: drop_weak_inner_ref_def deref_def emb_def at_def put_def split: option.split)

text \<open>The handles in the data of live objects, and those still to be dropped, are the program's.\<close>

definition holds :: "addr list \<Rightarrow> world \<Rightarrow> bool" where
  "holds cs w \<longleftrightarrow> (\<forall>c. count_list cs c
     + sum_list (map (\<lambda>a. count_list (data_handles w a) c) [0..<length (heap (core w))]) \<le> handles (core w) c)"

definition total_at :: "sys \<Rightarrow> addr \<Rightarrow> int" where
  "total_at s a = sum_list (map acount (shards_of s a))"

text \<open>
  What freeing the objects of \<open>R\<close> does to the rest: a counter that changes had a positive sum
  before, and its object is in \<open>counters_to_recheck\<close> after.
\<close>

definition freeing :: "addr set \<Rightarrow> world \<Rightarrow> world \<Rightarrow> bool" where
  "freeing R w w' \<longleftrightarrow> nshards (core w') = nshards (core w) \<and> thrs (core w') = thrs (core w)
     \<and> pending (core w') = pending (core w) \<and> length (heap (core w')) = length (heap (core w))
     \<and> cells (core w') = cells (core w) \<and> at_cpc (core w') = at_cpc (core w)
     \<and> todo (core w') = todo (core w) \<and> tofree (core w') = tofree (core w) \<and> hz (core w') = hz (core w)
     \<and> collection_waiting w' = collection_waiting w \<and> notified w' = notified w
     \<and> outer_iteration_counter w' = outer_iteration_counter w
     \<and> set (counters_to_recheck w) \<subseteq> set (counters_to_recheck w')
     \<and> (\<forall>d\<in>R. obj_at (core w') d = None \<and> tracked (core w') d = None)
     \<and> (\<forall>d. obj_at (core w) d = None \<longrightarrow> obj_at (core w') d = None)
     \<and> (\<forall>d x. d \<notin> R \<longrightarrow> obj_at (core w) d = Some x \<longrightarrow>
          (\<exists>y. obj_at (core w') d = Some y \<and> weak_ref y = weak_ref x \<and> back_ref y = back_ref x))
     \<and> (\<forall>d. d \<notin> R \<longrightarrow> tracked (core w') d = tracked (core w) d
          \<and> total_at (core w') d \<le> total_at (core w) d
          \<and> (shards_of (core w') d = shards_of (core w) d
             \<or> d \<in> set (counters_to_recheck w') \<and> total_at (core w) d > 0))"

lemma freeing_refl: "freeing {} w w"
  by (simp add: freeing_def)

lemma freeing_trans:
  assumes 1: "freeing R w w'" and 2: "freeing Q w' w''"
  shows "freeing (R \<union> Q) w w''"
proof -
  have gone: "obj_at (core w'') d = None \<and> tracked (core w'') d = None" if "d \<in> R \<union> Q" for d
  proof (cases "d \<in> Q")
    case False
    then have "d \<in> R" using that by blast
    then show ?thesis using 1 2 False by (simp add: freeing_def)
  qed (use 2 in \<open>simp add: freeing_def\<close>)
  have keep: "\<exists>y. obj_at (core w'') d = Some y \<and> weak_ref y = weak_ref x \<and> back_ref y = back_ref x"
    if d: "d \<notin> R \<union> Q" "obj_at (core w) d = Some x" for d x
  proof -
    obtain y where "obj_at (core w') d = Some y" "weak_ref y = weak_ref x" "back_ref y = back_ref x"
      using 1 d unfolding freeing_def by blast
    moreover from this obtain z where "obj_at (core w'') d = Some z" "weak_ref z = weak_ref y" "back_ref z = back_ref y"
      using 2 d unfolding freeing_def by blast
    ultimately show ?thesis by simp
  qed
  have cnt: "tracked (core w'') d = tracked (core w) d \<and> total_at (core w'') d \<le> total_at (core w) d
      \<and> (shards_of (core w'') d = shards_of (core w) d
         \<or> d \<in> set (counters_to_recheck w'') \<and> total_at (core w) d > 0)" if d: "d \<notin> R \<union> Q" for d
  proof -
    have a: "tracked (core w') d = tracked (core w) d" "total_at (core w') d \<le> total_at (core w) d"
      "shards_of (core w') d = shards_of (core w) d
         \<or> d \<in> set (counters_to_recheck w') \<and> total_at (core w) d > 0"
      using 1 d unfolding freeing_def by blast+
    have b: "tracked (core w'') d = tracked (core w') d" "total_at (core w'') d \<le> total_at (core w') d"
      "shards_of (core w'') d = shards_of (core w') d
         \<or> d \<in> set (counters_to_recheck w'') \<and> total_at (core w') d > 0"
      "set (counters_to_recheck w') \<subseteq> set (counters_to_recheck w'')"
      using 2 d unfolding freeing_def by blast+
    show ?thesis using a b by auto
  qed
  have "nshards (core w'') = nshards (core w)" "thrs (core w'') = thrs (core w)"
    "pending (core w'') = pending (core w)" "length (heap (core w'')) = length (heap (core w))"
    "cells (core w'') = cells (core w)" "at_cpc (core w'') = at_cpc (core w)"
    "todo (core w'') = todo (core w)" "tofree (core w'') = tofree (core w)" "hz (core w'') = hz (core w)"
    "collection_waiting w'' = collection_waiting w"
    "notified w'' = notified w" "outer_iteration_counter w'' = outer_iteration_counter w" "set (counters_to_recheck w) \<subseteq> set (counters_to_recheck w'')"
    "\<forall>d. obj_at (core w) d = None \<longrightarrow> obj_at (core w'') d = None"
    using 1 2 unfolding freeing_def by auto
  then show ?thesis using gone keep cnt unfolding freeing_def by blast
qed

lemma drop_one:
  assumes r: "reach (emb as (core w))" and i: "i < nshards (core w)" and h: "holds (c # cs) w"
  shows "\<exists>w'. drop_in_collector i c w = Next w' \<and> reach (emb as (core w')) \<and> holds cs w'
    \<and> freeing {} w w' \<and> data_handles w' = data_handles w"
proof -
  let ?s = "core w"
  have inv: "res_inv (emb as ?s)" using reach_invariants [OF r] by simp
  have "count_list (c # cs) c \<le> handles ?s c" using h unfolding holds_def by (meson add_leD1)
  then have hc: "handles ?s c > 0" by simp
  then obtain x where x: "obj_at ?s c = Some x" using handle_alive [OF inv, of c] by auto
  let ?y = "on_shard i a_decremented x"
  let ?s' = "take_handle c (put c ?y ?s)"
  let ?w' = "on_sdarc_drop c w\<lparr>core := ?s'\<rparr>"
  have d: "sdarc_drop c i ?s = Next ?s'" using hc i x by (simp add: sdarc_drop_def deref_def)
  have "step (LDrop c i) (emb as ?s) = Next (emb as ?s')" by (simp add: emb_drop d)
  then have r': "reach (emb as ?s')" by (rule reach_step [OF r])
  have o: "obj_at ?s' d = (if d = c then Some ?y else obj_at ?s d)" for d
    using obj_at_put [OF obj_at_less [OF x], of ?y d] by simp
  have tot: "total_at ?s c > 0" "total_at ?s' c = total_at ?s c - 1"
  proof -
    have "total x = int (tokens ?s c)" "length (shards x) = nshards ?s"
      using res_invD(2) [OF inv, of c x] x by simp_all
    moreover have "tokens ?s c > 0" using hc by (simp add: tokens_def)
    ultimately show "total_at ?s c > 0" by (simp add: total_at_def shards_of_def x total_def)
    have "total ?y = total x - 1"
      using total_on_shard [of i x a_decremented] i \<open>length (shards x) = nshards ?s\<close> by simp
    then show "total_at ?s' c = total_at ?s c - 1"
      using o [of c] x by (simp add: total_at_def shards_of_def total_def)
  qed
  have sh: "shards_of ?s' d = shards_of ?s d" if "d \<noteq> c" for d
    using that o [of d] by (simp add: shards_of_def)
  have rest: "d \<in> set (insort_insert c (counters_to_recheck w))" if "d = c \<or> d \<in> set (counters_to_recheck w)" for d
    using that by (simp add: set_insort_insert)
  have "total_at ?s' d \<le> total_at ?s d \<and> (shards_of ?s' d = shards_of ?s d
      \<or> d \<in> set (insort_insert c (counters_to_recheck w)) \<and> total_at ?s d > 0)" for d
    using tot sh [of d] rest [of d] by (cases "d = c") (simp_all add: total_at_def)
  moreover have "nshards ?s' = nshards ?s" "thrs ?s' = thrs ?s" "pending ?s' = pending ?s"
    "length (heap ?s') = length (heap ?s)" "cells ?s' = cells ?s" "tracked ?s' = tracked ?s"
    "at_cpc ?s' = at_cpc ?s" "todo ?s' = todo ?s" "tofree ?s' = tofree ?s" "hz ?s' = hz ?s"
    by (simp_all add: take_handle_def put_def)
  moreover have "\<forall>d y. obj_at ?s d = Some y \<longrightarrow>
      (\<exists>z. obj_at ?s' d = Some z \<and> weak_ref z = weak_ref y \<and> back_ref z = back_ref y)"
    "\<forall>d. obj_at ?s d = None \<longrightarrow> obj_at ?s' d = None"
    unfolding o using x by auto
  ultimately have "freeing {} w ?w'"
    using rest by (simp add: freeing_def on_sdarc_drop_def subset_iff del: take_handle_simps sys_update_simps)
  moreover have "holds cs ?w'"
  proof -
    have "count_list cs e + sum_list (map (\<lambda>a. count_list (data_handles w a) e) [0..<length (heap ?s)])
        \<le> handles ?s' e" for e
    proof -
      have "count_list (c # cs) e + sum_list (map (\<lambda>a. count_list (data_handles w a) e) [0..<length (heap ?s)])
          \<le> handles ?s e" using h by (simp add: holds_def)
      then show ?thesis by (cases "e = c") (simp_all add: take_handle_def put_def)
    qed
    then show ?thesis by (simp add: holds_def on_sdarc_drop_def put_def take_handle_def)
  qed
  ultimately show ?thesis
    using r' d by (simp add: drop_in_collector_def on_sdarc_drop_def)
qed

lemma drop_all_handles:
  assumes "reach (emb as (core w))" and "i < nshards (core w)" and "holds cs w"
  shows "\<exists>w'. drop_handles i cs w = Next w' \<and> reach (emb as (core w')) \<and> holds [] w'
    \<and> freeing {} w w' \<and> data_handles w' = data_handles w"
  using assms
proof (induction cs arbitrary: w)
  case Nil
  then show ?case using freeing_refl by auto
next
  case (Cons c cs)
  obtain w1 where w1: "drop_in_collector i c w = Next w1" "reach (emb as (core w1))" "holds cs w1"
    "freeing {} w w1" "data_handles w1 = data_handles w"
    using drop_one [OF Cons.prems] by blast
  moreover have "i < nshards (core w1)" using w1(4) Cons.prems(2) by (simp add: freeing_def)
  ultimately obtain w2 where "drop_handles i cs w1 = Next w2" "reach (emb as (core w2))" "holds [] w2"
    "freeing {} w1 w2" "data_handles w2 = data_handles w1"
    using Cons.IH [of w1] by blast
  then show ?case using w1 freeing_trans [of "{}" w w1 "{}" w2] by auto
qed

lemma sum_list_clear_entry:
  fixes f :: "nat \<Rightarrow> 'b list"
  assumes "a < n"
  shows "sum_list (map (\<lambda>b. count_list ((f(a := [])) b) c) [0..<n]) + count_list (f a) c
    = sum_list (map (\<lambda>b. count_list (f b) c) [0..<n])"
proof -
  have "(\<Sum>b\<in>{0..<n} - {a}. count_list ((f(a := [])) b) c) = (\<Sum>b\<in>{0..<n} - {a}. count_list (f b) c)"
    by (rule sum.cong) auto
  then show ?thesis
    using assms by (simp add: interv_sum_list_conv_sum_set_nat sum.remove [of "{0..<n}" a])
qed

lemma free_object_step:
  assumes r: "reach (emb (a # as) s)" and i: "i < nshards s"
  obtains x s1 where "obj_at s a = Some x" and "tracked s a = Some ReadyToFree" and "back_ref x = None"
    and "drop_weak_inner_ref (weak_ref x) i
      (s\<lparr>tracked := (tracked s)(a := None)\<rparr>\<lparr>heap := (heap s)[a := None]\<rparr>) = Next s1"
    and "reach (emb as s1)"
proof -
  let ?f = "s\<lparr>tracked := (tracked s)(a := None)\<rparr>\<lparr>heap := (heap s)[a := None]\<rparr>"
  have inv: "res_inv (emb (a # as) s)" "gc_inv (emb (a # as) s)" using reach_invariants [OF r] by simp_all
  have ready: "tracked s a = Some ReadyToFree" using gc_invD(4) [OF inv(2), of a] by simp
  obtain x where x: "obj_at s a = Some x" using reach_tracked_alive [OF r, of a] ready by auto
  have emb: "emb (a # as) s\<lparr>tracked := (tracked s)(a := None), tofree := as, heap := (heap s)[a := None]\<rparr>
      = emb as ?f" by (simp add: emb_def at_def)
  have safe: "safe_outcome (step (CFree i) (emb (a # as) s))" using safe_free [OF inv] by simp
  have st: "step (CFree i) (emb (a # as) s) = (if back_ref x \<noteq> None then Panic
      else bind_outcome (drop_weak_inner_ref (weak_ref x) i ?f) (\<lambda>s'. Next (emb as s')))"
    using ready x i by (simp add: free_step_def deref_def emb emb_weak)
  have nb: "back_ref x = None" using safe st by (auto split: if_splits)
  have nd: "drop_weak_inner_ref (weak_ref x) i ?f \<noteq> Disabled"
    by (auto simp: drop_weak_inner_ref_def deref_def split: option.split)
  have "safe_outcome (bind_outcome (drop_weak_inner_ref (weak_ref x) i ?f) (\<lambda>s'. Next (emb as s')))"
    using safe unfolding st by (simp add: nb)
  then obtain s1 where s1: "drop_weak_inner_ref (weak_ref x) i ?f = Next s1"
    using nd by (cases "drop_weak_inner_ref (weak_ref x) i ?f") simp_all
  then have "step (CFree i) (emb (a # as) s) = Next (emb as s1)" unfolding st by (simp add: nb)
  then have r1: "reach (emb as s1)" by (rule reach_step [OF r])
  show thesis using that [OF x ready nb s1 r1] .
qed

lemma free_one:
  assumes r: "reach (emb (a # as) (core w))" and i: "i < nshards (core w)" and h: "holds [] w"
  shows "tracked (core w) a = Some ReadyToFree
    \<and> (\<exists>w'. free_inner i a (w\<lparr>core := (core w)\<lparr>tracked := (tracked (core w))(a := None)\<rparr>\<rparr>) = Next w'
         \<and> reach (emb as (core w')) \<and> holds [] w' \<and> freeing {a} w w')"
proof -
  let ?s = "core w"
  let ?t = "?s\<lparr>tracked := (tracked ?s)(a := None)\<rparr>"
  let ?f = "?t\<lparr>heap := (heap ?s)[a := None]\<rparr>"
  have inv: "res_inv (emb (a # as) ?s)" "gc_inv (emb (a # as) ?s)" using reach_invariants [OF r] by simp_all
  obtain x s1 where x: "obj_at ?s a = Some x" and ready: "tracked ?s a = Some ReadyToFree" and nb: "back_ref x = None"
    and s1: "drop_weak_inner_ref (weak_ref x) i ?f = Next s1" and r1: "reach (emb as s1)"
    by (rule free_object_step [OF r i])
  let ?w0 = "case weak_ref x of None \<Rightarrow> w | Some v \<Rightarrow> on_sdarc_drop v w"
  let ?w1 = "?w0\<lparr>core := s1, data_handles := (data_handles w)(a := [])\<rparr>"
  have al: "a < length (heap ?s)" using obj_at_less [OF x] .
  have fields: "nshards s1 = nshards ?s" "thrs s1 = thrs ?s" "pending s1 = pending ?s"
      "length (heap s1) = length (heap ?s)" "tracked s1 = (tracked ?s)(a := None)" "handles s1 = handles ?s"
      "cells s1 = cells ?s" "at_cpc s1 = at_cpc ?s" "todo s1 = todo ?s" "tofree s1 = tofree ?s" "hz s1 = hz ?s"
    using s1 by (auto simp: drop_weak_inner_ref_def deref_def put_def split: option.splits)
  have w0: "collection_waiting ?w0 = collection_waiting w" "notified ?w0 = notified w"
      "outer_iteration_counter ?w0 = outer_iteration_counter w" "data_handles ?w0 = data_handles w"
      "set (counters_to_recheck w) \<subseteq> set (counters_to_recheck ?w0)"
      "\<And>v. weak_ref x = Some v \<Longrightarrow> v \<in> set (counters_to_recheck ?w0)"
    by (auto simp: on_sdarc_drop_def set_insort_insert split: option.split)
  have of: "obj_at ?f d = (if d = a then None else obj_at ?s d)" for d
    using al by (auto simp: obj_at_def)
  have fr: "freeing {a} w ?w1"
  proof (cases "weak_ref x")
    case None
    then have e: "s1 = ?f" using s1 by (simp add: drop_weak_inner_ref_def)
    have "obj_at s1 d = (if d = a then None else obj_at ?s d)" for d using of e by simp
    then show ?thesis
      unfolding freeing_def using fields w0 by (simp add: shards_of_def total_at_def)
  next
    case (Some v)
    have va: "v \<noteq> a"
    proof
      assume "v = a"
      then have "tokens (emb (a # as) ?s) a > 0" using weak_ref_alive(1) [OF inv(1), of a x v] x Some by simp
      then show False using gc_invD(6) [OF inv(2), of a] by (simp add: unreachable_def)
    qed
    obtain y where y: "obj_at ?s v = Some y" using weak_ref_alive(2) [OF inv(1), of a x v] x Some by auto
    have tv: "total_at ?s v > 0" "length (shards y) = nshards ?s"
      using weak_ref_alive(1) [OF inv(1), of a x v] x Some res_invD(2) [OF inv(1), of v y] y
      by (simp_all add: total_at_def shards_of_def total_def)
    let ?y = "on_shard i a_decremented y"
    have yf: "obj_at ?f v = Some y" using of va y by simp
    then have e: "s1 = put v ?y ?f" using s1 Some by (simp add: drop_weak_inner_ref_def deref_def)
    have o: "obj_at s1 d = (if d = v then Some ?y else if d = a then None else obj_at ?s d)" for d
      using obj_at_put [OF obj_at_less [OF yf], of ?y d] of [of d] unfolding e by auto
    have "total_at s1 v \<le> total_at ?s v"
      using total_on_shard [of i y a_decremented] tv(2) i o [of v] y
      by (simp add: total_at_def shards_of_def total_def)
    moreover have "shards_of s1 d = shards_of ?s d" if "d \<noteq> v" "d \<noteq> a" for d
      using that o [of d] by (simp add: shards_of_def)
    ultimately have cnt: "total_at s1 d \<le> total_at ?s d \<and> (shards_of s1 d = shards_of ?s d
        \<or> d \<in> set (counters_to_recheck ?w0) \<and> total_at ?s d > 0)" if "d \<noteq> a" for d
      using that tv(1) w0(6) [OF Some] by (cases "d = v") (simp_all add: total_at_def)
    show ?thesis
      unfolding freeing_def using fields w0 cnt va y by (auto simp: o)
  qed
  have "holds (data_handles w a) ?w1"
  proof -
    have "count_list (data_handles w a) c
        + sum_list (map (\<lambda>b. count_list (((data_handles w)(a := [])) b) c) [0..<length (heap ?s)]) \<le> handles ?s c" for c
    proof -
      have "sum_list (map (\<lambda>b. count_list (data_handles w b) c) [0..<length (heap ?s)]) \<le> handles ?s c"
        using h by (simp add: holds_def)
      then show ?thesis using sum_list_clear_entry [OF al, of "data_handles w" c] by linarith
    qed
    then show ?thesis using fields by (simp add: holds_def)
  qed
  then obtain w2 where w2: "drop_handles i (data_handles w a) ?w1 = Next w2" "reach (emb as (core w2))"
    "holds [] w2" "freeing {} ?w1 w2"
    using drop_all_handles [of as ?w1 i "data_handles w a"] r1 i fields by auto
  have ob: "obj_at ?t a = Some x" using al heap_obj_at [OF x] by (simp add: obj_at_def)
  have "free_inner i a (w\<lparr>core := ?t\<rparr>) = Next w2"
    using w2(1) s1 ob nb by (cases "weak_ref x") (simp_all add: free_inner_def on_sdarc_drop_def)
  then show ?thesis using ready w2 freeing_trans [OF fr w2(4)] by simp
qed

lemma free_all:
  assumes "reach (emb as (core w))" and "i < nshards (core w)" and "holds [] w"
  shows "\<exists>w'. free_pointers i as w = Next w' \<and> reach (emb [] (core w')) \<and> holds [] w'
    \<and> freeing (set as) w w'"
  using assms
proof (induction as arbitrary: w)
  case Nil
  then show ?case using freeing_refl by auto
next
  case (Cons a as)
  obtain w1 where w1: "tracked (core w) a = Some ReadyToFree"
    "free_inner i a (w\<lparr>core := (core w)\<lparr>tracked := (tracked (core w))(a := None)\<rparr>\<rparr>) = Next w1"
    "reach (emb as (core w1))" "holds [] w1" "freeing {a} w w1"
    using free_one [OF Cons.prems] by blast
  moreover have "i < nshards (core w1)" using w1(5) Cons.prems(2) by (simp add: freeing_def)
  ultimately obtain w2 where "free_pointers i as w1 = Next w2" "reach (emb [] (core w2))" "holds [] w2"
    "freeing (set as) w1 w2"
    using Cons.IH [of w1] by blast
  then show ?case using w1 freeing_trans [of "{a}" w w1 "set as" w2] by auto
qed

end
