(* ===== verification/InnerIteration.thy ===== *)
theory InnerIteration
  imports CollectorRefinement
begin

text \<open>
  What one inner iteration does to every object when the threads are at rest: the verdict on each
  visited counter, the loop over the counters, and the frees after it.
\<close>

section \<open>The effect of one visit\<close>

lemma sum_relaxed: "length (shards x) = n \<Longrightarrow> read_ref_count_sum_relaxed [0..<n] x = total x"
proof -
  have "read_ref_count_sum_relaxed ks x = sum_list (map (\<lambda>k. acount (shards x ! k)) ks)" for ks
    by (induction ks) simp_all
  moreover assume "length (shards x) = n"
  moreover from this have "map (\<lambda>k. acount (shards x ! k)) [0..<n] = map acount (shards x)"
    by (intro nth_equalityI) simp_all
  ultimately show ?thesis by (simp add: total_def)
qed

lemma clear_tags_list:
  assumes "distinct ks" and "\<And>k. k \<in> set ks \<Longrightarrow> k < length (shards x)"
    and "clear_tags_and_read_ref_count_sum_acquire ks x = (n, y)"
  shows "n = sum_list (map (\<lambda>k. acount (shards x ! k)) ks)
    \<and> weak_ref y = weak_ref x \<and> back_ref y = back_ref x \<and> length (shards y) = length (shards x)
    \<and> (\<forall>k<length (shards x). shards y ! k = (if k \<in> set ks then a_clear_tag (shards x ! k) else shards x ! k))"
  using assms
proof (induction ks arbitrary: x n)
  case (Cons k ks)
  let ?x = "on_shard k a_clear_tag x"
  obtain m where m: "clear_tags_and_read_ref_count_sum_acquire ks ?x = (m, y)" "n = acount (shards x ! k) + m"
    using Cons.prems(3) by (auto split: prod.splits)
  have "acount (shards ?x ! j) = acount (shards x ! j)" for j
    using Cons.prems(2) [of k] by (cases "j = k") (simp_all add: on_shard_def)
  moreover have "m = sum_list (map (\<lambda>j. acount (shards ?x ! j)) ks) \<and> weak_ref y = weak_ref ?x \<and> back_ref y = back_ref ?x
      \<and> length (shards y) = length (shards ?x)
      \<and> (\<forall>j<length (shards ?x). shards y ! j = (if j \<in> set ks then a_clear_tag (shards ?x ! j) else shards ?x ! j))"
    by (rule Cons.IH [OF _ _ m(1)]) (use Cons.prems(1,2) in auto)
  ultimately show ?case
    using m(2) Cons.prems(1,2) by (auto simp: on_shard_def nth_list_update)
qed simp

lemma clear_tags_all:
  assumes "length (shards x) = n" and "clear_tags_and_read_ref_count_sum_acquire [0..<n] x = (m, y)"
  shows "m = total x" "shards y = map a_clear_tag (shards x)" "weak_ref y = weak_ref x" "back_ref y = back_ref x"
proof -
  note c = clear_tags_list [OF _ _ assms(2)]
  show "shards y = map a_clear_tag (shards x)" using c assms(1) by (intro nth_equalityI) simp_all
  have "map (\<lambda>k. acount (shards x ! k)) [0..<n] = map acount (shards x)"
    using assms(1) by (intro nth_equalityI) simp_all
  then show "m = total x" using c assms(1) by (simp add: total_def)
  show "weak_ref y = weak_ref x" "back_ref y = back_ref x" using c assms(1) by simp_all
qed

lemma read_untagged:
  assumes "length (shards x) = n"
  shows "read_ref_count_sum_if_all_tags_unset_acquire [0..<n] x
    = (if \<forall>k<n. \<not> atag (shards x ! k) then Some (total x) else None)"
proof -
  have "read_ref_count_sum_if_all_tags_unset_acquire ks x = (if \<forall>k\<in>set ks. \<not> atag (shards x ! k)
      then Some (sum_list (map (\<lambda>k. acount (shards x ! k)) ks)) else None)" for ks
    by (induction ks) auto
  moreover have "map (\<lambda>k. acount (shards x ! k)) [0..<n] = map acount (shards x)"
    using assms by (intro nth_equalityI) simp_all
  ultimately show ?thesis by (simp add: total_def)
qed

text \<open>What the collector finds out about an object, and what it decides.\<close>

fun verdict :: "tstate \<Rightarrow> int \<Rightarrow> bool \<Rightarrow> bool \<Rightarrow> tstate" where
  "verdict DefaultState n c r = (if n = 0 then RequiresReChecking else DefaultState)"
| "verdict RequiresReChecking n c r =
     (if \<not> c \<or> n \<noteq> 0 then DefaultState else if r then RequiresReChecking else ReadyToFree)"
| "verdict ReadyToFree n c r = ReadyToFree"

definition clean :: "sys \<Rightarrow> addr \<Rightarrow> bool" where
  "clean s a \<longleftrightarrow> untagged s a (nshards s)"

definition moved_on :: "sys \<Rightarrow> sys \<Rightarrow> addr \<Rightarrow> bool" where
  "moved_on s s' a \<longleftrightarrow> total_at s' a = total_at s a \<and> (obj_at s' a = None \<longleftrightarrow> obj_at s a = None)
     \<and> (case tracked s a of
          None \<Rightarrow> tracked s' a = None
        | Some st \<Rightarrow> tracked s' a = Some (verdict st (total_at s a) (clean s a) (weak_route s a))
            \<and> (tracked s' a = Some RequiresReChecking \<longrightarrow> clean s' a)
            \<and> (tracked s' a = Some RequiresReChecking \<longrightarrow> st = RequiresReChecking \<longrightarrow> \<not> weak_route s' a)
            \<and> (weak_route s' a \<longrightarrow> weak_route s a))"

definition untouched :: "sys \<Rightarrow> sys \<Rightarrow> addr \<Rightarrow> bool" where
  "untouched s s' a \<longleftrightarrow> tracked s' a = tracked s a \<and> shards_of s' a = shards_of s a
     \<and> (weak_route s' a \<longleftrightarrow> weak_route s a) \<and> (obj_at s' a = None \<longleftrightarrow> obj_at s a = None)"

definition same_frame :: "sys \<Rightarrow> sys \<Rightarrow> bool" where
  "same_frame s s' \<longleftrightarrow> nshards s' = nshards s \<and> length (heap s') = length (heap s) \<and> thrs s' = thrs s
     \<and> handles s' = handles s \<and> cells s' = cells s \<and> pending s' = pending s \<and> at_cpc s' = at_cpc s
     \<and> todo s' = todo s \<and> hz s' = hz s"

lemma same_frame_trans: "same_frame s s' \<Longrightarrow> same_frame s' s'' \<Longrightarrow> same_frame s s''"
  by (simp add: same_frame_def)

lemma untouched_trans: "untouched s s' a \<Longrightarrow> untouched s' s'' a \<Longrightarrow> untouched s s'' a"
  by (simp add: untouched_def)

lemma res_inv_at: "res_inv (at c td s) = res_inv s"
  by (rule same_world_res_inv) (auto intro: same_worldI)

lemma total_at_alive: "obj_at s a = Some x \<Longrightarrow> total_at s a = total x"
  by (simp add: total_at_def shards_of_def total_def)

lemma total_at_tokens: "res_inv s \<Longrightarrow> obj_at s a \<noteq> None \<Longrightarrow> total_at s a = int (tokens s a)"
  using res_invD(2) [of s a] by (auto simp: total_at_alive)

text \<open>An object whose counters are replaced, all else being equal.\<close>

lemma put_counters:
  assumes x: "obj_at s a = Some x" and y: "weak_ref y = weak_ref x" "back_ref y = back_ref x"
  shows "b \<noteq> a \<Longrightarrow> untouched s (set_tracked a st (put a y s)) b"
    "shards_of (set_tracked a st (put a y s)) a = shards y"
    "weak_route (set_tracked a st (put a y s)) a = weak_route s a"
    "obj_at (set_tracked a st (put a y s)) a = Some y"
    "same_frame s (set_tracked a st (put a y s))"
proof -
  let ?s = "set_tracked a st (put a y s)"
  have f: "heap ?s = heap (put a y s)" "handles ?s = handles s" "cells ?s = cells s" "thrs ?s = thrs s"
    "nshards ?s = nshards s" by (simp_all add: set_tracked_def put_def)
  have wr: "weak_route ?s c = weak_route s c" for c by (rule put_other(2) [OF x y f])
  have o: "obj_at ?s c = (if c = a then Some y else obj_at s c)" for c by (rule put_other(4) [OF x y f])
  show "untouched s ?s b" if "b \<noteq> a"
    using that o [of b] wr [of b] by (simp add: untouched_def shards_of_def set_tracked_def put_def)
  show "shards_of ?s a = shards y" "obj_at ?s a = Some y" using o [of a] by (simp_all add: shards_of_def)
  show "weak_route ?s a = weak_route s a" by (rule wr)
  show "same_frame s ?s" by (simp add: same_frame_def set_tracked_def put_def)
qed

lemma set_tracked_only:
  "b \<noteq> a \<Longrightarrow> untouched s (set_tracked a st s) b" "shards_of (set_tracked a st s) b = shards_of s b"
  "weak_route (set_tracked a st s) b = weak_route s b" "obj_at (set_tracked a st s) b = obj_at s b"
  "tracked (set_tracked a st s) a = Some st" "nshards (set_tracked a st s) = nshards s"
  "tofree (set_tracked a st s) = tofree s"
  "same_frame s (set_tracked a st s)"
  by (simp_all add: untouched_def shards_of_def set_tracked_def obj_at_def weak_route_def same_frame_def)

lemma moved_onI:
  assumes "tracked s a = Some st" and "total_at s' a = total_at s a" and "obj_at s' a \<noteq> None" "obj_at s a \<noteq> None"
    and "tracked s' a = Some (verdict st (total_at s a) (clean s a) (weak_route s a))"
    and "tracked s' a = Some RequiresReChecking \<Longrightarrow> clean s' a"
    and "\<lbrakk>tracked s' a = Some RequiresReChecking; st = RequiresReChecking\<rbrakk> \<Longrightarrow> \<not> weak_route s' a"
    and "weak_route s' a \<Longrightarrow> weak_route s a"
  shows "moved_on s s' a"
  unfolding moved_on_def assms(1) option.case using assms(2-) by blast

lemma clear_weak_result:
  assumes inv: "res_inv s" and x: "obj_at s a = Some x"
  shows "(weak_route s a \<and> (\<exists>s'. clear_weak_backref_impl a s = Next (WeakBackRefCleared, s') \<and> same_frame s s'
        \<and> tracked s' = tracked s \<and> tofree s' = tofree s \<and> \<not> weak_route s' a \<and> shards_of s' a = shards_of s a
        \<and> obj_at s' a \<noteq> None \<and> (\<forall>b. b \<noteq> a \<longrightarrow> untouched s s' b)))
    \<or> (\<not> weak_route s a \<and> (\<exists>r. r \<noteq> WeakBackRefCleared \<and> clear_weak_backref_impl a s = Next (r, s)))"
proof (cases "weak_ref x")
  case None
  then have "\<not> weak_route s a" using x by (auto simp: weak_route_def)
  then show ?thesis using None x by (simp add: clear_weak_backref_impl_def)
next
  case (Some w)
  obtain y where y: "obj_at s w = Some y" using weak_ref_alive(2) [OF inv x Some] by blast
  show ?thesis
  proof (cases "back_ref y")
    case None
    then have "\<not> weak_route s a" using x y Some by (auto simp: weak_route_def)
    then show ?thesis using x y Some None by (simp add: clear_weak_backref_impl_def)
  next
    case bs: (Some a')
    then have a': "back_ref y = Some a" using res_invD(8) [OF inv x Some y] by simp
    let ?y = "y\<lparr>back_ref := None\<rparr>"
    let ?s = "put w ?y s"
    have o: "obj_at ?s c = (if c = w then Some ?y else obj_at s c)" for c
      using obj_at_put [OF obj_at_less [OF y]] by simp
    have sh: "shards_of ?s c = shards_of s c" for c using y by (simp add: shards_of_def o)
    have al: "obj_at ?s c = None \<longleftrightarrow> obj_at s c = None" for c using y by (simp add: o)
    have wr: "weak_route ?s c \<longleftrightarrow> weak_route s c" if c: "c \<noteq> a" for c
    proof -
      have 1: "weak_route ?s c" if r: "weak_route s c"
      proof -
        obtain v z z' where z: "obj_at s c = Some z" "weak_ref z = Some v" "obj_at s v = Some z'" "back_ref z' = Some c"
          using r unfolding weak_route_def by blast
        have "v \<noteq> w" using z y a' c by auto
        moreover obtain z2 where "obj_at ?s c = Some z2" "weak_ref z2 = Some v"
          using z(1,2) y o [of c] by (cases "c = w") auto
        ultimately show ?thesis using z(3,4) o [of v] unfolding weak_route_def by auto
      qed
      have 2: "weak_route s c" if r: "weak_route ?s c"
      proof -
        obtain v z z' where z: "obj_at ?s c = Some z" "weak_ref z = Some v" "obj_at ?s v = Some z'" "back_ref z' = Some c"
          using r unfolding weak_route_def by blast
        have "v \<noteq> w" using z(3,4) o [of v] by auto
        moreover obtain z2 where "obj_at s c = Some z2" "weak_ref z2 = Some v"
          using z(1,2) y o [of c] by (cases "c = w") auto
        ultimately show ?thesis using z(3,4) o [of v] unfolding weak_route_def by auto
      qed
      show ?thesis using 1 2 by blast
    qed
    have "\<not> weak_route ?s a"
    proof
      assume "weak_route ?s a"
      then obtain v z z' where z: "obj_at ?s a = Some z" "weak_ref z = Some v" "obj_at ?s v = Some z'" "back_ref z' = Some a"
        unfolding weak_route_def by blast
      have "v = w" using z(1,2) x y Some o [of a] by (auto split: if_splits)
      then show False using z(3,4) o [of v] by auto
    qed
    moreover have "weak_route s a" using x Some y a' by (auto simp: weak_route_def)
    moreover have "clear_weak_backref_impl a s = Next (WeakBackRefCleared, ?s)"
      using x Some y a' by (simp add: clear_weak_backref_impl_def)
    moreover have "same_frame s ?s" by (simp add: same_frame_def put_def)
    moreover have "untouched s ?s b" if "b \<noteq> a" for b
      unfolding untouched_def using that sh al wr by simp
    moreover have "\<exists>z. obj_at ?s a = Some z" using al [of a] x by (cases "obj_at ?s a") auto
    ultimately show ?thesis using sh by simp
  qed
qed

definition visit_effect :: "sys \<Rightarrow> sys \<Rightarrow> addr \<Rightarrow> bool" where
  "visit_effect s s' a \<longleftrightarrow> moved_on s s' a \<and> (\<forall>b. b \<noteq> a \<longrightarrow> untouched s s' b) \<and> same_frame s s'
     \<and> tofree s' = tofree s @ (if tracked s' a = Some ReadyToFree then [a] else [])"

lemma same_frame_set:
  "same_frame s s' \<Longrightarrow> same_frame s (set_tracked a st s')" "same_frame s s' \<Longrightarrow> same_frame s (s'\<lparr>tofree := f\<rparr>)"
  by (simp_all add: same_frame_def set_tracked_def)

lemma visit_default:
  assumes inv: "res_inv s" and x: "obj_at s a = Some x" and t: "tracked s a = Some DefaultState"
    and h: "a \<notin> set (hz s)" and v: "visit_counter a s = Next s'"
  shows "visit_effect s s' a"
proof -
  have len: "length (shards x) = nshards s" using res_invD(2) [OF inv x] by simp
  have ta: "total_at s a = total x" by (rule total_at_alive [OF x])
  show ?thesis
  proof (cases "total x = 0")
    case False
    then have s': "s' = set_tracked a DefaultState s"
      using v t h x by (simp add: visit_counter_def update_state_def deref_def sum_relaxed [OF len]
          set_tracked_only)
    show ?thesis
      unfolding visit_effect_def s' using False x ta t
      by (auto simp: set_tracked_only total_at_def intro!: moved_onI [OF t])
  next
    case True
    obtain m y where cl: "clear_tags_and_read_ref_count_sum_acquire [0..<nshards s] x = (m, y)" by fastforce
    note c = clear_tags_all [OF len cl]
    let ?s = "set_tracked a RequiresReChecking (put a y s)"
    have s': "s' = ?s"
      using v t h x True cl c(1) by (simp add: visit_counter_def update_state_def deref_def sum_relaxed [OF len]
          set_tracked_only)
    note p = put_counters [OF x c(3,4), where st = RequiresReChecking]
    have "acount \<circ> a_clear_tag = acount" by (simp add: fun_eq_iff)
    then have tot: "total_at ?s a = total_at s a"
      unfolding total_at_def p(2) c(2) using ta by (simp add: total_def total_at_def)
    have "nshards ?s = nshards s" by (simp add: set_tracked_only)
    then have "clean ?s a" using len by (simp add: clean_def untagged_def p(2) c(2))
    then have "moved_on s ?s a"
      using True ta tot p(3,4) x by (intro moved_onI [OF t]) (simp_all add: set_tracked_only)
    then show ?thesis
      unfolding visit_effect_def s' using p(1,5) by (simp add: set_tracked_only)
  qed
qed

lemma visit_recheck:
  assumes inv: "res_inv s" and x: "obj_at s a = Some x" and t: "tracked s a = Some RequiresReChecking"
    and h: "a \<notin> set (hz s)" and v: "visit_counter a s = Next s'"
  shows "visit_effect s s' a"
proof -
  have len: "length (shards x) = nshards s" and nn: "total x \<ge> 0" using res_invD(2) [OF inv x] by simp_all
  have ta: "total_at s a = total x" by (rule total_at_alive [OF x])
  have cl: "clean s a \<longleftrightarrow> (\<forall>k<nshards s. \<not> atag (shards x ! k))"
    using x by (simp add: clean_def untagged_def shards_of_def)
  note read = read_untagged [OF len]
  show ?thesis
  proof (cases "clean s a \<and> total x = 0")
    case False
    then have s': "s' = set_tracked a DefaultState s"
      using v t h x cl nn by (auto simp: visit_counter_def update_state_def deref_def read set_tracked_only
          split: if_splits)
    show ?thesis
      unfolding visit_effect_def s' using False x ta t
      by (auto simp: set_tracked_only total_at_def intro!: moved_onI [OF t])
  next
    case True
    then have r: "read_ref_count_sum_if_all_tags_unset_acquire [0..<nshards s] x = Some 0"
      using cl by (simp add: read)
    from clear_weak_result [OF inv x] show ?thesis
    proof (elim disjE conjE exE)
      fix s1
      assume wr: "weak_route s a" "clear_weak_backref_impl a s = Next (WeakBackRefCleared, s1)" "same_frame s s1"
        "tracked s1 = tracked s" "tofree s1 = tofree s" "\<not> weak_route s1 a" "shards_of s1 a = shards_of s a"
        "obj_at s1 a \<noteq> None" "\<forall>b. b \<noteq> a \<longrightarrow> untouched s s1 b"
      let ?s = "set_tracked a RequiresReChecking s1"
      have s': "s' = ?s"
        using v t h x r wr(2) by (simp add: visit_counter_def update_state_def deref_def set_tracked_only)
      have n: "nshards s1 = nshards s" using wr(3) by (simp add: same_frame_def)
      have "moved_on s ?s a"
        using True ta wr x n by (intro moved_onI [OF t])
          (auto simp: set_tracked_only total_at_def clean_def untagged_def)
      moreover have "untouched s ?s b" if "b \<noteq> a" for b
        using wr(9) that set_tracked_only(1) [OF that] untouched_trans by blast
      ultimately show ?thesis
        unfolding visit_effect_def s' using same_frame_set(1) [OF wr(3)] wr(5) by (simp add: set_tracked_only)
    next
      fix c
      assume wr: "\<not> weak_route s a" "c \<noteq> WeakBackRefCleared" "clear_weak_backref_impl a s = Next (c, s)"
      let ?s = "set_tracked a ReadyToFree s\<lparr>tofree := tofree s @ [a]\<rparr>"
      have s': "s' = ?s"
        using v t h x r wr by (simp add: visit_counter_def update_state_def deref_def set_tracked_only)
      have w: "weak_route ?s b = weak_route s b" "shards_of ?s b = shards_of s b" "obj_at ?s b = obj_at s b" for b
        by (simp_all add: weak_route_def shards_of_def obj_at_def set_tracked_def)
      have "moved_on s ?s a"
        using True ta wr x w by (intro moved_onI [OF t]) (auto simp: set_tracked_def total_at_def)
      moreover have "untouched s ?s b" if "b \<noteq> a" for b
        using w that by (simp add: untouched_def set_tracked_def)
      moreover have "same_frame s ?s" by (simp add: same_frame_def set_tracked_def)
      ultimately show ?thesis
        unfolding visit_effect_def s' by (simp add: set_tracked_def)
    qed
  qed
qed

lemma visit_untracked:
  "tracked s a = None \<Longrightarrow> visit_counter a s = Next s' \<Longrightarrow> visit_effect s s' a"
  by (auto simp: visit_effect_def visit_counter_def moved_on_def untouched_def same_frame_def)

section \<open>The effect of the loop\<close>

lemma clean_same: "shards_of s' a = shards_of s a \<Longrightarrow> nshards s' = nshards s \<Longrightarrow> clean s' a = clean s a"
  by (simp add: clean_def untagged_def)

lemma moved_on_untouched:
  assumes "moved_on s s1 a" and "untouched s1 s' a" and "nshards s' = nshards s1"
  shows "moved_on s s' a"
proof -
  have e: "clean s' a = clean s1 a" "total_at s' a = total_at s1 a" "tracked s' a = tracked s1 a"
    "weak_route s' a = weak_route s1 a" "obj_at s' a = None \<longleftrightarrow> obj_at s1 a = None"
    using assms(2,3) clean_same [of s' a s1] by (simp_all add: untouched_def total_at_def)
  show ?thesis using assms(1) unfolding moved_on_def e .
qed

lemma untouched_moved_on:
  assumes "untouched s s1 a" and "moved_on s1 s' a" and "nshards s1 = nshards s"
  shows "moved_on s s' a"
proof -
  have e: "clean s1 a = clean s a" "total_at s1 a = total_at s a" "tracked s1 a = tracked s a"
    "weak_route s1 a = weak_route s a" "obj_at s1 a = None \<longleftrightarrow> obj_at s a = None"
    using assms(1,3) clean_same [of s1 a s] by (simp_all add: untouched_def total_at_def)
  show ?thesis using assms(2) unfolding moved_on_def e .
qed

definition loop_effect :: "addr list \<Rightarrow> sys \<Rightarrow> sys \<Rightarrow> bool" where
  "loop_effect as s s' \<longleftrightarrow> same_frame s s' \<and> (\<forall>a\<in>set as. moved_on s s' a)
     \<and> (\<forall>a. a \<notin> set as \<longrightarrow> untouched s s' a)
     \<and> tofree s' = tofree s @ filter (\<lambda>a. tracked s' a = Some ReadyToFree) as"

lemma each_effect:
  assumes "reach (at CVisit as s)" and "hz s = []"
  shows "\<exists>acc' s'. update_each as acc s = Next (acc', s') \<and> reach (at CVisit [] s') \<and> loop_effect as s s'
    \<and> set acc' = set acc \<union> {a\<in>set as. tracked s' a = Some RequiresReChecking}
    \<and> (sorted acc \<and> distinct acc \<longrightarrow> sorted acc' \<and> distinct acc')"
  using assms
proof (induction as arbitrary: acc s)
  case Nil
  then show ?case by (auto simp: loop_effect_def same_frame_def untouched_def)
next
  case (Cons a as)
  note r = Cons.prems(1)
  have inv: "res_inv s" "gc_inv (at CVisit (a # as) s)" using reach_invariants [OF r] by (simp_all add: res_inv_at)
  have d: "a \<notin> set as" "distinct as" using gc_invD(7) [OF inv(2)] by simp_all
  have run: "comes_to 0 (at CVisit (a # as) s) (bind_outcome (visit_counter a s) (\<lambda>s'. Next (at CVisit as s')))"
    using reach_tracked_alive [OF r] by (intro run_visit) auto
  obtain s1 where s1: "visit_counter a s = Next s1"
    using comes_to_safe [OF r run] visit_not_disabled [of a s] by (cases "visit_counter a s") auto
  then have r1: "reach (at CVisit as s1)" using comes_to_reach [OF _ r] run by simp
  have e: "visit_effect s s1 a"
  proof (cases "tracked s a")
    case None
    then show ?thesis using visit_untracked s1 by blast
  next
    case (Some st)
    then obtain x where x: "obj_at s a = Some x" using reach_tracked_alive [OF r, of a] by auto
    have "st \<noteq> ReadyToFree" using gc_invD(4) [OF inv(2), of a] gc_invD(8) [OF inv(2)] Some by auto
    then show ?thesis
      using visit_default [OF inv(1) x _ _ s1] visit_recheck [OF inv(1) x _ _ s1] Some Cons.prems(2)
      by (cases st) simp_all
  qed
  then have m: "moved_on s s1 a" "\<And>b. b \<noteq> a \<Longrightarrow> untouched s s1 b" "same_frame s s1"
    "tofree s1 = tofree s @ (if tracked s1 a = Some ReadyToFree then [a] else [])"
    by (simp_all add: visit_effect_def)
  let ?acc = "if tracked s1 a = Some RequiresReChecking then insort_insert a acc else acc"
  have "hz s1 = []" using m(3) Cons.prems(2) by (simp add: same_frame_def)
  then obtain acc' s' where s': "update_each as ?acc s1 = Next (acc', s')" "reach (at CVisit [] s')"
    "loop_effect as s1 s'" "set acc' = set ?acc \<union> {a\<in>set as. tracked s' a = Some RequiresReChecking}"
    "sorted ?acc \<and> distinct ?acc \<longrightarrow> sorted acc' \<and> distinct acc'"
    using Cons.IH [OF r1, of ?acc] by blast
  have l: "same_frame s1 s'" "\<And>b. b \<in> set as \<Longrightarrow> moved_on s1 s' b" "\<And>b. b \<notin> set as \<Longrightarrow> untouched s1 s' b"
    "tofree s' = tofree s1 @ filter (\<lambda>a. tracked s' a = Some ReadyToFree) as"
    using s'(3) by (simp_all add: loop_effect_def)
  have n: "nshards s1 = nshards s" "nshards s' = nshards s1" using m(3) l(1) by (simp_all add: same_frame_def)
  have ta: "tracked s' a = tracked s1 a" using l(3) [OF d(1)] by (simp add: untouched_def)
  have "loop_effect (a # as) s s'"
    unfolding loop_effect_def
  proof (intro conjI ballI allI impI)
    show "same_frame s s'" using same_frame_trans [OF m(3) l(1)] .
    show "moved_on s s' b" if "b \<in> set (a # as)" for b
    proof (cases "b = a")
      case True
      then show ?thesis using moved_on_untouched [OF m(1) l(3) [OF d(1)] n(2)] by simp
    next
      case False
      then show ?thesis using that untouched_moved_on [OF m(2) [OF False] l(2) n(1)] by simp
    qed
    show "untouched s s' b" if "b \<notin> set (a # as)" for b
      using that m(2) [of b] l(3) [of b] untouched_trans by auto
    show "tofree s' = tofree s @ filter (\<lambda>a. tracked s' a = Some ReadyToFree) (a # as)"
      using l(4) m(4) ta by simp
  qed
  moreover have "set acc' = set acc \<union> {b\<in>set (a # as). tracked s' b = Some RequiresReChecking}"
    using s'(4) ta by (auto simp: set_insort_insert)
  moreover have "sorted acc \<and> distinct acc \<longrightarrow> sorted acc' \<and> distinct acc'"
    using s'(5) by (simp add: sorted_insort_insert distinct_insort_insert)
  ultimately show ?case using s1 s'(1,2) by auto
qed

section \<open>The effect of an inner iteration\<close>

text \<open>No thread reads a pointer and none holds a guard.\<close>

definition at_rest :: "sys \<Rightarrow> bool" where
  "at_rest s \<longleftrightarrow> (\<forall>th\<in>set (thrs s). at_pc th = Idle \<and> (\<forall>j. guards th j = None))"

lemma traverse_at_rest:
  assumes inv: "res_inv s" and r: "at_rest s"
  shows "traverse_atomic_reader_signals s = Next (s\<lparr>thrs := map drain_thr (thrs s), hz := []\<rparr>)"
proof -
  have th: "view (flag th) = False" "view (slots th j) = None" if "th \<in> set (thrs s)" for th j
    using inv r that by (auto simp: res_inv_def thr_ok_def at_rest_def slot_value_def in_critical_section_def)
  have scan: "scan_thread h (drain_thr th) = h" if "th \<in> set (thrs s)" for h th
  proof -
    have "foldl (scan_slot (drain_thr th)) h js = h" for js
      by (induction js) (simp_all add: scan_slot_def drain_def th(2) [OF that])
    then show ?thesis by (simp add: scan_thread_def)
  qed
  have "foldl scan_thread [] (map drain_thr ths) = []" if "set ths \<subseteq> set (thrs s)" for ths
    using that by (induction ths rule: rev_induct) (simp_all add: scan)
  then show ?thesis
    using th(1) by (auto simp: traverse_atomic_reader_signals_def drain_def)
qed

lemma set_set_extend: "set (set_extend new s) = set new \<union> set s"
  unfolding set_extend_def by (induction new arbitrary: s) (auto simp: set_insort_insert)

lemma sorted_set_extend: "sorted s \<and> distinct s \<Longrightarrow> sorted (set_extend new s) \<and> distinct (set_extend new s)"
  unfolding set_extend_def
  by (induction new arbitrary: s) (simp_all add: sorted_insort_insert distinct_insort_insert)

definition boundary :: "world \<Rightarrow> bool" where
  "boundary w \<longleftrightarrow> reach (core w) \<and> at_cpc (core w) = CIdle \<and> at_rest (core w) \<and> holds [] w
     \<and> counters_to_recheck w = []"

definition iteration_effect :: "addr list \<Rightarrow> world \<Rightarrow> sys \<Rightarrow> addr list \<Rightarrow> world \<Rightarrow> bool" where
  "iteration_effect L w s1 L' w' \<longleftrightarrow>
     (\<forall>a\<in>set L. moved_on (core w) s1 a) \<and> (\<forall>a. a \<notin> set L \<longrightarrow> untouched (core w) s1 a)
     \<and> nshards s1 = nshards (core w) \<and> length (heap s1) = length (heap (core w))
     \<and> pending s1 = pending (core w)
     \<and> (\<exists>dropped. freeing {a\<in>set L. tracked s1 a = Some ReadyToFree} (w\<lparr>core := s1\<lparr>tofree := []\<rparr>\<rparr>)
            (w'\<lparr>counters_to_recheck := dropped\<rparr>)
          \<and> set L' = {a\<in>set L. tracked s1 a = Some RequiresReChecking} \<union> set dropped
          \<and> ((\<forall>a\<in>set L. tracked s1 a \<noteq> Some ReadyToFree) \<longrightarrow> dropped = []))"

lemma drained_same:
  "moved_on (s\<lparr>thrs := ths, hz := h\<rparr>) s1 a = moved_on s s1 a"
  "untouched (s\<lparr>thrs := ths, hz := h\<rparr>) s1 a = untouched s s1 a"
proof -
  let ?t = "s\<lparr>thrs := ths, hz := h\<rparr>"
  have o: "obj_at ?t b = obj_at s b" for b by (simp add: obj_at_def)
  have sh: "shards_of ?t b = shards_of s b" for b by (simp add: shards_of_def o)
  have e: "total_at ?t a = total_at s a" "clean ?t a = clean s a" "weak_route ?t a = weak_route s a"
    "tracked ?t = tracked s"
    by (simp_all add: total_at_def clean_def untagged_def weak_route_def o sh)
  show "moved_on ?t s1 a = moved_on s s1 a" "untouched ?t s1 a = untouched s s1 a"
    unfolding moved_on_def untouched_def e o sh by (rule refl)+
qed

lemma inner_iteration:
  assumes b: "boundary w" and L: "sorted L \<and> distinct L" and i: "i < nshards (core w)"
  shows "\<exists>s1 L' w'. update_counters L i w = Next (L', w') \<and> boundary w' \<and> sorted L' \<and> distinct L'
    \<and> iteration_effect L w s1 L' w'"
proof -
  let ?s = "core w"
  have r: "reach ?s" and c: "at_cpc ?s = CIdle" and rest: "at_rest ?s" and h: "holds [] w"
    and e: "counters_to_recheck w = []" using b by (simp_all add: boundary_def)
  have inv: "res_inv ?s" "gc_inv ?s" using reach_invariants [OF r] by simp_all
  have ph: "todo ?s = []" "tofree ?s = []" using gc_invD(9) [OF inv(2)] c by simp_all
  let ?t = "?s\<lparr>thrs := map drain_thr (thrs ?s), hz := []\<rparr>"
  have tr: "traverse_atomic_reader_signals ?s = Next ?t" by (rule traverse_at_rest [OF inv(1) rest])
  obtain s0 where s0: "begin_iteration L ?s = Next s0" using begin_enabled [OF c] L by blast
  have "step (CBegin L) ?s = Next s0" using s0 by simp
  then have "reach s0" by (rule reach_step [OF r])
  moreover have "comes_to i s0 (Next (at CVisit L (?t\<lparr>tofree := []\<rparr>)))" by (rule run_traverse [OF s0 tr])
  moreover have "?t\<lparr>tofree := []\<rparr> = ?t" using ph(2) by (cases "core w") simp
  ultimately have rv: "reach (at CVisit L ?t)" using comes_to_reach by metis
  obtain rk s1 where s1: "update_each L [] ?t = Next (rk, s1)" "reach (at CVisit [] s1)" "loop_effect L ?t s1"
    "set rk = {a\<in>set L. tracked s1 a = Some RequiresReChecking}" "sorted rk \<and> distinct rk"
    using each_effect [OF rv, of "[]"] by auto
  have l: "same_frame ?t s1" "tofree s1 = filter (\<lambda>a. tracked s1 a = Some ReadyToFree) L"
    "\<forall>a\<in>set L. moved_on ?s s1 a" "\<forall>a. a \<notin> set L \<longrightarrow> untouched ?s s1 a"
    using s1(3) ph(2) by (simp_all add: loop_effect_def drained_same)
  have f: "nshards s1 = nshards ?s" "length (heap s1) = length (heap ?s)" "thrs s1 = map drain_thr (thrs ?s)"
    "handles s1 = handles ?s" "at_cpc s1 = CIdle" "todo s1 = []" "pending s1 = pending ?s"
    using l(1) c ph(1) by (simp_all add: same_frame_def)
  let ?w1 = "w\<lparr>core := s1\<lparr>tofree := []\<rparr>\<rparr>"
  have "collector_step i (at CVisit [] s1) = Next (at CFreeing [] s1)"
    by (simp add: collector_step_def visit_next_def)
  then have "reach (at CFreeing [] s1)" using comes_to_reach [OF _ s1(2)] comes_to_step by metis
  moreover have "at CFreeing [] s1 = emb (tofree s1) (core ?w1)" by (simp add: emb_def at_def)
  ultimately have re: "reach (emb (tofree s1) (core ?w1))" by simp
  have hw: "holds [] ?w1" using h f by (simp add: holds_def)
  obtain w2 where w2: "free_pointers i (tofree s1) ?w1 = Next w2" "reach (emb [] (core w2))" "holds [] w2"
    "freeing (set (tofree s1)) ?w1 w2"
    using free_all [OF re _ hw, of i] i f by auto
  let ?L' = "set_extend (counters_to_recheck w2) rk" and ?w' = "w2\<lparr>counters_to_recheck := []\<rparr>"
  have upd: "update_counters L i w = Next (?L', ?w')"
    using tr s1(1) w2(1) by (simp add: update_counters_def take_to_recheck_def)
  have ff: "nshards (core w2) = nshards ?s" "thrs (core w2) = map drain_thr (thrs ?s)" "at_cpc (core w2) = CIdle"
    "todo (core w2) = []" "tofree (core w2) = []"
    using w2(4) f by (simp_all add: freeing_def)
  have "step (CFree i) (emb [] (core w2)) = Next (emb [] (core w2)\<lparr>at_cpc := CIdle\<rparr>)"
    using i ff by (simp add: free_step_def)
  moreover have "emb [] (core w2)\<lparr>at_cpc := CIdle\<rparr> = core w2"
    using ff by (cases "core w2") (simp add: emb_def at_def)
  ultimately have r2: "reach (core w2)" using reach_step [OF w2(2)] by metis
  have "boundary ?w'"
    using r2 ff rest w2(3) by (auto simp: boundary_def at_rest_def holds_def)
  moreover have "sorted ?L' \<and> distinct ?L'" using sorted_set_extend s1(5) by blast
  moreover have "iteration_effect L w s1 ?L' ?w'"
  proof -
    have R: "set (tofree s1) = {a\<in>set L. tracked s1 a = Some ReadyToFree}" using l(2) by auto
    have "counters_to_recheck w2 = []" if "\<forall>a\<in>set L. tracked s1 a \<noteq> Some ReadyToFree"
    proof -
      have "tofree s1 = []" using l(2) that by (auto simp: filter_empty_conv)
      then show ?thesis using w2(1) e by auto
    qed
    then show ?thesis
      unfolding iteration_effect_def using l(3,4) f(1,2,7) w2(4) R s1(4)
      by (auto simp: set_set_extend intro!: exI [of _ "counters_to_recheck w2"])
  qed
  ultimately show ?thesis using upd by blast
qed

end
