(* ===== verification/DeepCollection.thy ===== *)
theory DeepCollection
  imports InnerIteration
begin

text \<open>
  What a deep collection achieves. With the threads at rest, one inner iteration moves every
  counter of sum zero one stage on, and everything its frees bring to zero is in the set to
  re-check. So the loop ends, and no object without references is left.
\<close>

section \<open>What a round keeps\<close>

definition listed :: "world \<Rightarrow> addr list \<Rightarrow> bool" where
  "listed w L \<longleftrightarrow> (\<forall>a st. tracked (core w) a = Some st \<longrightarrow>
     (total_at (core w) a = 0 \<or> st = RequiresReChecking \<longrightarrow> a \<in> set L)
     \<and> (st = RequiresReChecking \<longrightarrow> total_at (core w) a = 0 \<longrightarrow> clean (core w) a))"

definition only_zero_rechecked :: "world \<Rightarrow> bool" where
  "only_zero_rechecked w \<longleftrightarrow>
     (\<forall>a. tracked (core w) a = Some RequiresReChecking \<longrightarrow> total_at (core w) a = 0)"

lemma boundary_inv:
  assumes "boundary w"
  shows "res_inv (core w)" "gc_inv (core w)" "tracked (core w) a \<noteq> Some ReadyToFree"
proof -
  show inv: "res_inv (core w)" "gc_inv (core w)"
    using assms reach_invariants by (simp_all add: boundary_def)
  have "tofree (core w) = []" using gc_invD(9) [OF inv(2)] assms by (simp add: boundary_def)
  then show "tracked (core w) a \<noteq> Some ReadyToFree" using gc_invD(4) [OF inv(2), of a] by simp
qed

lemma freeingD:
  assumes "freeing R w w'"
  shows "d \<notin> R \<Longrightarrow> tracked (core w') d = tracked (core w) d"
    "d \<notin> R \<Longrightarrow> total_at (core w') d \<le> total_at (core w) d"
    "d \<notin> R \<Longrightarrow> shards_of (core w') d = shards_of (core w) d
       \<or> d \<in> set (counters_to_recheck w') \<and> total_at (core w) d > 0"
    "nshards (core w') = nshards (core w)" "length (heap (core w')) = length (heap (core w))"
    "d \<in> R \<Longrightarrow> obj_at (core w') d = None \<and> tracked (core w') d = None"
    "obj_at (core w) d = None \<Longrightarrow> obj_at (core w') d = None"
    "\<lbrakk>d \<notin> R; obj_at (core w) d = Some x\<rbrakk> \<Longrightarrow>
       \<exists>y. obj_at (core w') d = Some y \<and> weak_ref y = weak_ref x \<and> back_ref y = back_ref x"
    "pending (core w') = pending (core w)" "collection_waiting w' = collection_waiting w" "notified w' = notified w"
    "outer_iteration_counter w' = outer_iteration_counter w"
  using assms unfolding freeing_def by blast+

text \<open>What becomes of one tracked counter in a round.\<close>

lemma round_counter:
  assumes e: "iteration_effect L w s1 L' w'" and t: "tracked (core w') a = Some st'"
  shows "tracked s1 a = Some st'" "total_at (core w') a \<le> total_at s1 a"
    "total_at (core w') a = total_at s1 a \<and> (clean s1 a \<longrightarrow> clean (core w') a) \<or> a \<in> set L' \<and> total_at s1 a > 0"
    "weak_route (core w') a \<Longrightarrow> weak_route s1 a" "a \<in> set L \<Longrightarrow> st' \<noteq> ReadyToFree"
proof -
  let ?R = "{a\<in>set L. tracked s1 a = Some ReadyToFree}" and ?w1 = "w\<lparr>core := s1\<lparr>tofree := []\<rparr>\<rparr>"
  obtain dropped where fr: "freeing ?R ?w1 (w'\<lparr>counters_to_recheck := dropped\<rparr>)"
    and L': "set L' = {a\<in>set L. tracked s1 a = Some RequiresReChecking} \<union> set dropped"
    using e by (auto simp: iteration_effect_def)
  have aR: "a \<notin> ?R" using freeingD(6) [OF fr, of a] t by auto
  have sh: "shards_of (s1\<lparr>tofree := []\<rparr>) b = shards_of s1 b" "total_at (s1\<lparr>tofree := []\<rparr>) b = total_at s1 b"
    "obj_at (s1\<lparr>tofree := []\<rparr>) b = obj_at s1 b" for b
    by (simp_all add: shards_of_def total_at_def obj_at_def)
  have f1: "tracked (core w') a = tracked s1 a" using freeingD(1) [OF fr aR] by simp
  have f2: "total_at (core w') a \<le> total_at s1 a" using freeingD(2) [OF fr aR] by (simp add: sh(2))
  have f3: "shards_of (core w') a = shards_of s1 a \<or> a \<in> set dropped \<and> total_at s1 a > 0"
    using freeingD(3) [OF fr aR] by (simp add: sh(1,2))
  have f4: "nshards (core w') = nshards s1" using freeingD(4) [OF fr] by simp
  show ts: "tracked s1 a = Some st'" using f1 t by simp
  show "total_at (core w') a \<le> total_at s1 a" by (rule f2)
  show "total_at (core w') a = total_at s1 a \<and> (clean s1 a \<longrightarrow> clean (core w') a) \<or> a \<in> set L' \<and> total_at s1 a > 0"
    using f3
  proof
    assume "shards_of (core w') a = shards_of s1 a"
    then show ?thesis using clean_same [of "core w'" a s1] f4 by (simp add: total_at_def)
  qed (use L' in simp)
  show "a \<in> set L \<Longrightarrow> st' \<noteq> ReadyToFree" using aR ts by auto
  show "weak_route s1 a" if r: "weak_route (core w') a"
  proof -
    obtain v x y where xy: "obj_at (core w') a = Some x" "weak_ref x = Some v" "obj_at (core w') v = Some y" "back_ref y = Some a"
      using r unfolding weak_route_def by blast
    have old: "\<exists>u. obj_at s1 b = Some u \<and> weak_ref z = weak_ref u \<and> back_ref z = back_ref u"
      if z: "obj_at (core w') b = Some z" for b z
    proof -
      have bR: "b \<notin> ?R" using freeingD(6) [OF fr, of b] z by auto
      obtain u where u: "obj_at s1 b = Some u"
        using freeingD(7) [OF fr, of b] z by (cases "obj_at s1 b") (simp_all add: sh)
      then have "\<exists>y. obj_at (core w') b = Some y \<and> weak_ref y = weak_ref u \<and> back_ref y = back_ref u"
        using freeingD(8) [OF fr bR, of u] by (simp add: sh)
      then show ?thesis using u z by auto
    qed
    show ?thesis using old [OF xy(1)] old [OF xy(3)] xy(2,4) unfolding weak_route_def by metis
  qed
qed

lemma round_source:
  assumes "iteration_effect L w s1 L' w'" and "tracked s1 a = Some st'"
  obtains (visited) st where "a \<in> set L" "tracked (core w) a = Some st" "total_at s1 a = total_at (core w) a"
      "st' = verdict st (total_at (core w) a) (clean (core w) a) (weak_route (core w) a)"
      "st' = RequiresReChecking \<Longrightarrow> clean s1 a"
      "\<lbrakk>st' = RequiresReChecking; st = RequiresReChecking\<rbrakk> \<Longrightarrow> \<not> weak_route s1 a"
    | (passed) "a \<notin> set L" "tracked (core w) a = Some st'" "total_at s1 a = total_at (core w) a"
      "weak_route s1 a = weak_route (core w) a"
proof (cases "a \<in> set L")
  case True
  then have m: "moved_on (core w) s1 a" using assms(1) by (simp add: iteration_effect_def)
  then show ?thesis
    using assms(2) True by (cases "tracked (core w) a") (auto simp: moved_on_def intro!: visited)
next
  case False
  then have "untouched (core w) s1 a" using assms(1) by (simp add: iteration_effect_def)
  then show ?thesis using assms(2) False by (auto simp: untouched_def total_at_def intro!: passed)
qed

lemma verdict_recheck: "verdict st n c r = RequiresReChecking \<Longrightarrow> n = 0"
  by (cases st) (auto split: if_splits)

lemma verdict_default:
  "verdict st n c r = DefaultState \<Longrightarrow> st = DefaultState \<and> n \<noteq> 0 \<or> st = RequiresReChecking \<and> (\<not> c \<or> n \<noteq> 0)"
  by (cases st) (auto split: if_splits)

lemma round_keeps:
  assumes e: "iteration_effect L w s1 L' w'" and l: "listed w L" and b: "boundary w" "boundary w'"
  shows "listed w' L' \<and> only_zero_rechecked w'"
proof -
  have main: "(total_at (core w') a = 0 \<or> st' = RequiresReChecking \<longrightarrow> a \<in> set L')
      \<and> (st' = RequiresReChecking \<longrightarrow> total_at (core w') a = 0 \<and> clean (core w') a)"
    if t: "tracked (core w') a = Some st'" for a st'
  proof -
    note rc = round_counter [OF e t]
    have "{b\<in>set L. tracked s1 b = Some RequiresReChecking} \<subseteq> set L'"
      using e by (auto simp: iteration_effect_def)
    then have rk: "a \<in> set L \<Longrightarrow> st' = RequiresReChecking \<Longrightarrow> a \<in> set L'" using rc(1) by auto
    from e rc(1) show ?thesis
    proof (cases rule: round_source)
      case (visited st)
      show ?thesis
      proof (cases st')
        case RequiresReChecking
        then have "total_at s1 a = 0" using verdict_recheck visited(3,4) by metis
        then show ?thesis using rc(3) visited(1,5) RequiresReChecking rk by auto
      next
        case DefaultState
        have "st = DefaultState \<and> total_at (core w) a \<noteq> 0
            \<or> st = RequiresReChecking \<and> (\<not> clean (core w) a \<or> total_at (core w) a \<noteq> 0)"
          using verdict_default visited(4) DefaultState by metis
        then have "total_at (core w) a \<noteq> 0" using l visited(2) by (auto simp: listed_def)
        then show ?thesis using rc(3) visited(3) DefaultState by auto
      next
        case ReadyToFree
        then show ?thesis using rc(5) visited(1) by simp
      qed
    next
      case passed
      then have "st' \<noteq> RequiresReChecking" "total_at (core w) a \<noteq> 0" using l by (auto simp: listed_def)
      then show ?thesis using rc(3) passed(3) by auto
    qed
  qed
  then show ?thesis unfolding listed_def only_zero_rechecked_def by blast
qed

section \<open>The loop ends\<close>

definition potential :: "sys \<Rightarrow> addr \<Rightarrow> nat" where
  "potential s a = (case tracked s a of None \<Rightarrow> 0 | Some RequiresReChecking \<Rightarrow> if weak_route s a then 2 else 1 | Some _ \<Rightarrow> 3)"

definition potential_sum :: "world \<Rightarrow> nat" where
  "potential_sum w = (\<Sum>a\<in>{0..<length (heap (core w))}. potential (core w) a)"

lemma potential_bound: "potential s a \<le> 3"
  by (auto simp: potential_def split: option.split tstate.split)

lemma round_potential:
  assumes e: "iteration_effect L w s1 L' w'" and l: "listed w L" and z: "only_zero_rechecked w"
    and b: "boundary w" "boundary w'"
  shows "potential (core w') a \<le> potential (core w) a"
    and "\<lbrakk>a \<in> set L; tracked (core w) a \<noteq> None; total_at (core w) a = 0\<rbrakk> \<Longrightarrow> potential (core w') a < potential (core w) a"
proof -
  have main: "potential (core w') a \<le> potential (core w) a
    \<and> (a \<in> set L \<longrightarrow> tracked (core w) a \<noteq> None \<longrightarrow> total_at (core w) a = 0 \<longrightarrow> potential (core w') a < potential (core w) a)"
  proof (cases "tracked (core w') a")
    case None
    then show ?thesis by (auto simp: potential_def split: option.split tstate.split)
  next
    case (Some st')
    note rc = round_counter [OF e Some]
    note ns = boundary_inv(3) [OF b(1), of a]
    from e rc(1) show ?thesis
    proof (cases rule: round_source)
      case (visited st)
      have "st \<noteq> ReadyToFree" using ns visited(2) by simp
      then show ?thesis
      proof (cases st)
        case DefaultState
        then show ?thesis
          using visited(2,4) Some potential_bound [of "core w'" a] by (auto simp: potential_def)
      next
        case RequiresReChecking
        then have n: "total_at (core w) a = 0" using z visited(2) by (simp add: only_zero_rechecked_def)
        then have "clean (core w) a" using l visited(2) RequiresReChecking by (simp add: listed_def)
        then have v: "weak_route (core w) a" "st' = RequiresReChecking"
          using visited(1,4) rc(5) n RequiresReChecking by (auto split: if_splits)
        then have "\<not> weak_route (core w') a" using visited(6) RequiresReChecking rc(4) by blast
        then show ?thesis using v Some visited(2) RequiresReChecking by (simp add: potential_def)
      qed simp
    next
      case passed
      then have "st' \<noteq> RequiresReChecking" using l by (auto simp: listed_def)
      then show ?thesis using passed(1,2) Some by (simp add: potential_def split: tstate.split)
    qed
  qed
  then show "potential (core w') a \<le> potential (core w) a"
    "\<lbrakk>a \<in> set L; tracked (core w) a \<noteq> None; total_at (core w) a = 0\<rbrakk> \<Longrightarrow> potential (core w') a < potential (core w) a"
    by blast+
qed

lemma round_nothing:
  assumes e: "iteration_effect L w s1 L' w'" and b: "boundary w"
    and n: "\<And>a. \<lbrakk>a \<in> set L; tracked (core w) a \<noteq> None\<rbrakk> \<Longrightarrow> total_at (core w) a \<noteq> 0"
  shows "L' = []"
proof -
  have v: "tracked s1 a = Some DefaultState \<or> tracked s1 a = None" if "a \<in> set L" for a
  proof -
    have m: "moved_on (core w) s1 a" using e that by (simp add: iteration_effect_def)
    show ?thesis
    proof (cases "tracked (core w) a")
      case None
      then show ?thesis using m by (simp add: moved_on_def)
    next
      case (Some st)
      then have "total_at (core w) a \<noteq> 0" "st \<noteq> ReadyToFree" using n [OF that] boundary_inv(3) [OF b, of a] by auto
      then show ?thesis using m Some by (cases st) (auto simp: moved_on_def)
    qed
  qed
  then have "\<forall>a\<in>set L. tracked s1 a \<noteq> Some ReadyToFree" "{a\<in>set L. tracked s1 a = Some RequiresReChecking} = {}"
    by fastforce+
  moreover obtain dropped where "set L' = {a\<in>set L. tracked s1 a = Some RequiresReChecking} \<union> set dropped"
    "(\<forall>a\<in>set L. tracked s1 a \<noteq> Some ReadyToFree) \<longrightarrow> dropped = []"
    using e unfolding iteration_effect_def by blast
  ultimately have "set L' = {}" by simp
  then show ?thesis by simp
qed

definition live_count :: "sys \<Rightarrow> nat" where
  "live_count s = length (filter (\<lambda>a. obj_at s a \<noteq> None) [0..<length (heap s)])"

lemma effect_frame:
  assumes e: "iteration_effect L w s1 L' w'"
  shows "nshards (core w') = nshards (core w)" "length (heap (core w')) = length (heap (core w))"
    "pending (core w') = pending (core w)" "collection_waiting w' = collection_waiting w" "notified w' = notified w"
    "outer_iteration_counter w' = outer_iteration_counter w"
    "obj_at (core w) a = None \<Longrightarrow> obj_at (core w') a = None"
proof -
  obtain R dropped where fr: "freeing R (w\<lparr>core := s1\<lparr>tofree := []\<rparr>\<rparr>) (w'\<lparr>counters_to_recheck := dropped\<rparr>)"
    and n: "nshards s1 = nshards (core w)" "length (heap s1) = length (heap (core w))" "pending s1 = pending (core w)"
    using e unfolding iteration_effect_def by blast
  show "nshards (core w') = nshards (core w)" using freeingD(4) [OF fr] n by simp
  show "length (heap (core w')) = length (heap (core w))" using freeingD(5) [OF fr] n by simp
  show "pending (core w') = pending (core w)" using freeingD(9) [OF fr] n by simp
  show "collection_waiting w' = collection_waiting w" using freeingD(10) [OF fr] by simp
  show "notified w' = notified w" using freeingD(11) [OF fr] by simp
  show "outer_iteration_counter w' = outer_iteration_counter w" using freeingD(12) [OF fr] by simp
  show "obj_at (core w') a = None" if "obj_at (core w) a = None"
  proof -
    have "obj_at s1 a = None"
      using e that unfolding iteration_effect_def moved_on_def untouched_def by blast
    moreover have "obj_at (s1\<lparr>tofree := []\<rparr>) a = obj_at s1 a" by (simp add: obj_at_def)
    ultimately show ?thesis using freeingD(7) [OF fr, of a] by simp
  qed
qed

lemma potential_tracked: "boundary w \<Longrightarrow> tracked (core w) a \<noteq> None \<Longrightarrow> a < length (heap (core w))"
  using reach_tracked_alive [of "core w" a] obj_at_less [of "core w" a] by (auto simp: boundary_def)

lemma round_measure:
  assumes e: "iteration_effect L w s1 L' w'" and l: "listed w L" and z: "only_zero_rechecked w"
    and b: "boundary w" "boundary w'"
  shows "L' = [] \<or> potential_sum w' < potential_sum w"
proof (cases "\<exists>a\<in>set L. tracked (core w) a \<noteq> None \<and> total_at (core w) a = 0")
  case True
  then obtain a where a: "a \<in> set L" "tracked (core w) a \<noteq> None" "total_at (core w) a = 0" by blast
  have "a < length (heap (core w))" using potential_tracked [OF b(1) a(2)] .
  then have "\<exists>a\<in>{0..<length (heap (core w))}. potential (core w') a < potential (core w) a"
    using round_potential(2) [OF e l z b a] by (intro bexI [of _ a]) simp_all
  then have "potential_sum w' < potential_sum w"
    unfolding potential_sum_def effect_frame(2) [OF e]
    using round_potential(1) [OF e l z b] by (intro sum_strict_mono_ex1) auto
  then show ?thesis by blast
next
  case False
  then show ?thesis using round_nothing [OF e b(1)] by blast
qed

definition no_zero_tracked :: "world \<Rightarrow> bool" where
  "no_zero_tracked w \<longleftrightarrow> (\<forall>a. tracked (core w) a \<noteq> None \<longrightarrow> total_at (core w) a \<noteq> 0)"

lemma recheck_loop_ends:
  assumes "boundary w" and "sorted L \<and> distinct L" and "i < nshards (core w)" and "listed w L"
    and "only_zero_rechecked w" and "potential_sum w \<le> n"
  shows "\<exists>w'. recheck_loop n L i w = Next w' \<and> boundary w' \<and> no_zero_tracked w'
    \<and> pending (core w') = pending (core w) \<and> collection_waiting w' = collection_waiting w \<and> notified w' = notified w
    \<and> outer_iteration_counter w' = outer_iteration_counter w"
  using assms
proof (induction n arbitrary: L w)
  case 0
  have "tracked (core w) a = None" for a
  proof (rule ccontr)
    assume t: "tracked (core w) a \<noteq> None"
    then have "potential (core w) a > 0"
      by (auto simp: potential_def split: option.split tstate.split)
    then show False
      using 0 potential_tracked [OF 0(1) t] by (auto simp: potential_sum_def)
  qed
  then show ?case using 0 by (simp add: no_zero_tracked_def)
next
  case (Suc n)
  show ?case
  proof (cases "L = []")
    case True
    then have "no_zero_tracked w" using Suc.prems(4) by (auto simp: listed_def no_zero_tracked_def)
    then show ?thesis using True Suc.prems(1) by simp
  next
    case False
    obtain s1 L' w' where it: "update_counters L i w = Next (L', w')" "boundary w'" "sorted L' \<and> distinct L'"
      "iteration_effect L w s1 L' w'"
      using inner_iteration [OF Suc.prems(1-3)] by blast
    note keep = round_keeps [OF it(4) Suc.prems(4,1) it(2)]
    note fr = effect_frame [OF it(4)]
    have "\<exists>w''. recheck_loop n L' i w' = Next w'' \<and> boundary w'' \<and> no_zero_tracked w''
        \<and> pending (core w'') = pending (core w') \<and> collection_waiting w'' = collection_waiting w'
        \<and> notified w'' = notified w' \<and> outer_iteration_counter w'' = outer_iteration_counter w'"
    proof (cases "L' = []")
      case True
      then have "recheck_loop n L' i w' = Next w'" by (cases n) simp_all
      moreover have "no_zero_tracked w'" using keep True by (auto simp: listed_def no_zero_tracked_def)
      ultimately show ?thesis using it(2) by simp
    next
      case False
      then have "potential_sum w' \<le> n"
        using round_measure [OF it(4) Suc.prems(4,5,1) it(2)] Suc.prems(6) by simp
      then show ?thesis using Suc.IH [OF it(2,3)] keep fr Suc.prems(3) by simp
    qed
    then show ?thesis using False it(1) fr by (auto simp: update_specific_def)
  qed
qed

section \<open>A deep collection\<close>

lemma potential_sum_live:
  assumes "boundary w"
  shows "potential_sum w \<le> 3 * live_count (core w)"
proof -
  have z: "potential (core w) a = 0" if "obj_at (core w) a = None" for a
    using reach_tracked_alive [of "core w" a] that assms
    by (cases "tracked (core w) a") (simp_all add: potential_def boundary_def)
  have "potential_sum w = (\<Sum>a\<in>{a\<in>{0..<length (heap (core w))}. obj_at (core w) a \<noteq> None}. potential (core w) a)"
    unfolding potential_sum_def by (rule sum.mono_neutral_right) (use z in auto)
  also have "\<dots> \<le> (\<Sum>a\<in>{a\<in>{0..<length (heap (core w))}. obj_at (core w) a \<noteq> None}. 3)"
    by (intro sum_mono potential_bound)
  also have "\<dots> = 3 * card {a\<in>{0..<length (heap (core w))}. obj_at (core w) a \<noteq> None}" by simp
  also have "card {a\<in>{0..<length (heap (core w))}. obj_at (core w) a \<noteq> None} = live_count (core w)"
    unfolding live_count_def by (subst distinct_length_filter) (auto simp: Int_def intro!: arg_cong [of _ _ card])
  finally show ?thesis .
qed

lemma take_all:
  assumes "reach s" and "at_cpc s = CIdle" and "\<And>j. j \<in> set js \<Longrightarrow> j < nshards s"
  shows "\<exists>s'. take_from_shards js s = Next s' \<and> reach s' \<and> at_cpc s' = CIdle \<and> heap s' = heap s
    \<and> handles s' = handles s \<and> thrs s' = thrs s \<and> nshards s' = nshards s \<and> cells s' = cells s
    \<and> (\<forall>a. tracked s' a = Some RequiresReChecking \<longrightarrow> tracked s a = Some RequiresReChecking)
    \<and> (\<forall>j. pending s' ! j = (if j \<in> set js then [] else pending s ! j))
    \<and> length (pending s') = length (pending s)"
  using assms
proof (induction js arbitrary: s)
  case (Cons j js)
  have inv: "res_inv s" "gc_inv s" using reach_invariants [OF Cons.prems(1)] by simp_all
  have j: "j < nshards s" "length (pending s) = nshards s" using Cons.prems(3) res_invD(1) [OF inv(1)] by simp_all
  have "safe_outcome (take_new_counters_to_track j s)" by (rule safe_take [OF inv])
  then obtain m where m: "track_all (pending s ! j) (tracked s) = Some m"
    using Cons.prems(2) j by (cases "track_all (pending s ! j) (tracked s)") (simp_all add: take_new_counters_to_track_def)
  let ?s = "s\<lparr>tracked := m, pending := (pending s)[j := []]\<rparr>"
  have st: "take_new_counters_to_track j s = Next ?s"
    using m Cons.prems(2) j by (simp add: take_new_counters_to_track_def)
  then have r: "reach ?s" using reach_step [OF Cons.prems(1), of "CTake j"] by simp
  have grow: "track_all as f = Some g \<Longrightarrow> g a = Some RequiresReChecking \<Longrightarrow> f a = Some RequiresReChecking" for as f g a
  proof (induction as arbitrary: f)
    case (Cons b as)
    then have "track_all as (f(b := Some DefaultState)) = Some g" by (simp split: if_splits)
    then have "(f(b := Some DefaultState)) a = Some RequiresReChecking" using Cons.IH Cons.prems(2) by blast
    then show ?case by (auto split: if_splits)
  qed simp
  obtain s' where s': "take_from_shards js ?s = Next s'" "reach s'" "at_cpc s' = CIdle" "heap s' = heap s"
    "handles s' = handles s" "thrs s' = thrs s" "nshards s' = nshards s" "cells s' = cells s"
    "\<forall>a. tracked s' a = Some RequiresReChecking \<longrightarrow> m a = Some RequiresReChecking"
    "\<forall>k. pending s' ! k = (if k \<in> set js then [] else (pending s)[j := []] ! k)"
    "length (pending s') = length (pending s)"
    using Cons.IH [OF r] Cons.prems(2,3) by auto
  have "pending s' ! k = (if k \<in> set (j # js) then [] else pending s ! k)" for k
    using s'(10) j by (auto simp: nth_list_update)
  moreover have "\<forall>a. tracked s' a = Some RequiresReChecking \<longrightarrow> tracked s a = Some RequiresReChecking"
    using s'(9) grow [OF m] by blast
  ultimately show ?case using st s' by simp
qed simp

lemma recheck_loop_returns:
  assumes "boundary w" and "sorted L \<and> distinct L" and "i < nshards (core w)"
  shows "\<exists>w'. recheck_loop n L i w = Next w' \<and> boundary w' \<and> nshards (core w') = nshards (core w)
    \<and> collection_waiting w' = collection_waiting w \<and> notified w' = notified w
    \<and> outer_iteration_counter w' = outer_iteration_counter w"
  using assms
proof (induction n arbitrary: L w)
  case (Suc n)
  show ?case
  proof (cases "L = []")
    case False
    obtain s1 L' w' where it: "update_counters L i w = Next (L', w')" "boundary w'" "sorted L' \<and> distinct L'"
      "iteration_effect L w s1 L' w'"
      using inner_iteration [OF Suc.prems] by blast
    note fr = effect_frame [OF it(4)]
    show ?thesis using Suc.IH [OF it(2,3)] it(1) fr(1,4-6) False Suc.prems(3) by (auto simp: update_specific_def)
  qed (use Suc in simp)
qed simp

lemma keys_sorted: "sorted (tracked_keys s) \<and> distinct (tracked_keys s)"
  by (simp add: tracked_keys_def sorted_wrt_filter)

text \<open>The start of \<open>update\<close>: new counters are taken, then all tracked ones are visited.\<close>

lemma update_start:
  assumes b: "boundary w" and i: "i < nshards (core w)"
  shows "\<exists>s s1 L w'. take_from_shards [0..<nshards (core w)] (core w) = Next s
    \<and> boundary (w\<lparr>core := s\<rparr>) \<and> heap s = heap (core w) \<and> nshards s = nshards (core w)
    \<and> cells s = cells (core w) \<and> handles s = handles (core w) \<and> thrs s = thrs (core w)
    \<and> concat (pending s) = []
    \<and> (\<forall>a. tracked s a = Some RequiresReChecking \<longrightarrow> tracked (core w) a = Some RequiresReChecking)
    \<and> update_counters (tracked_keys s) i (w\<lparr>core := s\<rparr>) = Next (L, w') \<and> boundary w'
    \<and> sorted L \<and> distinct L \<and> iteration_effect (tracked_keys s) (w\<lparr>core := s\<rparr>) s1 L w'"
proof -
  let ?s = "core w"
  have r: "reach ?s" "at_cpc ?s = CIdle" using b by (simp_all add: boundary_def)
  have len: "length (pending ?s) = nshards ?s" using boundary_inv(1) [OF b] res_invD(1) by blast
  obtain s where s: "take_from_shards [0..<nshards ?s] ?s = Next s" "reach s" "at_cpc s = CIdle" "heap s = heap ?s"
    "handles s = handles ?s" "thrs s = thrs ?s" "nshards s = nshards ?s" "cells s = cells ?s"
    "\<forall>a. tracked s a = Some RequiresReChecking \<longrightarrow> tracked ?s a = Some RequiresReChecking"
    "\<forall>j. pending s ! j = (if j \<in> set [0..<nshards ?s] then [] else pending ?s ! j)"
    "length (pending s) = length (pending ?s)"
    using take_all [OF r, of "[0..<nshards ?s]"] by auto
  have "x = []" if x: "x \<in> set (pending s)" for x
  proof -
    obtain j where j: "j < length (pending s)" "pending s ! j = x" using x by (auto simp: in_set_conv_nth)
    then have "j \<in> set [0..<nshards ?s]" using s(11) len by simp
    then show ?thesis using s(10) j(2) by (metis (full_types))
  qed
  then have p: "concat (pending s) = []" by simp
  have bs: "boundary (w\<lparr>core := s\<rparr>)"
    using b s by (simp add: boundary_def at_rest_def holds_def)
  obtain s1 L w' where it: "update_counters (tracked_keys s) i (w\<lparr>core := s\<rparr>) = Next (L, w')" "boundary w'"
    "sorted L" "distinct L" "iteration_effect (tracked_keys s) (w\<lparr>core := s\<rparr>) s1 L w'"
    using inner_iteration [OF bs keys_sorted, of i s] i s(7) by auto
  show ?thesis
    by (rule exI [of _ s], rule exI [of _ s1], rule exI [of _ L], rule exI [of _ w'])
      (use s bs p it in blast)
qed

lemma update_returns:
  assumes b: "boundary w" and i: "i < nshards (core w)"
  shows "\<exists>w'. update deep i w = Next w' \<and> boundary w' \<and> collection_waiting w' = collection_waiting w
    \<and> notified w' = notified w \<and> outer_iteration_counter w' = outer_iteration_counter w"
proof -
  obtain s s1 L w1 where st: "take_from_shards [0..<nshards (core w)] (core w) = Next s"
    "nshards s = nshards (core w)"
    "update_counters (tracked_keys s) i (w\<lparr>core := s\<rparr>) = Next (L, w1)" "boundary w1" "sorted L" "distinct L"
    "iteration_effect (tracked_keys s) (w\<lparr>core := s\<rparr>) s1 L w1"
    using update_start [OF b i] by blast
  note fr = effect_frame [OF st(7)]
  have "\<exists>w'. recheck_loop LOOP_LIMIT L i w1 = Next w' \<and> boundary w' \<and> nshards (core w') = nshards (core w1)
      \<and> collection_waiting w' = collection_waiting w1 \<and> notified w' = notified w1
      \<and> outer_iteration_counter w' = outer_iteration_counter w1"
    by (rule recheck_loop_returns [OF st(4)]) (use st(2,5,6) fr(1) i in auto)
  then show ?thesis
    using st fr by (cases deep) (auto simp: update_def do_collection_inner_iterations_def update_all_def)
qed


lemma live_count_mono:
  assumes "length (heap s') = length (heap s)" and "\<And>a. obj_at s a = None \<Longrightarrow> obj_at s' a = None"
  shows "live_count s' \<le> live_count s"
proof -
  have "length (filter (\<lambda>a. obj_at s' a \<noteq> None) as) \<le> length (filter (\<lambda>a. obj_at s a \<noteq> None) as)" for as
    using assms(2) by (induction as) auto
  then show ?thesis using assms(1) by (simp add: live_count_def)
qed


text \<open>A list of three: object 0 holds 1, which holds 2, and the last handle to 0 is gone.\<close>

definition chain_trace :: "label list" where
  "chain_trace = [LPush, LNew 0 0 0, LNew 1 1 0, LNew 2 0 1, LDrop 0 1]"

definition chain_world :: world where
  "chain_world = \<lparr>core = after (run chain_trace (start 2 3 1)),
     data_handles = (\<lambda>_. [])(0 := [1], 1 := [2]), counters_to_recheck = [],
     collection_waiting = [7], notified = [], outer_iteration_counter = 0\<rparr>"

lemma chain_world_start:
  "reach (core chain_world)" "at_cpc (core chain_world) = CIdle" "at_rest (core chain_world)" "holds [] chain_world"
  "counters_to_recheck chain_world = []" "0 < nshards (core chain_world)" "live_count (core chain_world) = 3"
  "tracked (core chain_world) a = None"
proof -
  let ?s = "after (run chain_trace (start 2 3 1))"
  have ok: "is_next (run chain_trace (start 2 3 1))" by code_simp
  have "reach ?s" using ok by (intro start_reach [where n = 2]) simp_all
  then show "reach (core chain_world)" by (simp add: chain_world_def)
  have "at_cpc ?s = CIdle" "0 < nshards ?s" "live_count ?s = 3" "tracked ?s a = None" by code_simp+
  then show "at_cpc (core chain_world) = CIdle" "0 < nshards (core chain_world)" "live_count (core chain_world) = 3"
    "tracked (core chain_world) a = None" by (simp_all add: chain_world_def)
  have "map at_pc (thrs ?s) = [Idle]" "map (\<lambda>th. guards th j) (thrs ?s) = [None]" for j by code_simp+
  then show "at_rest (core chain_world)" by (cases "thrs ?s") (auto simp: chain_world_def at_rest_def)
  have "length (heap ?s) = 3" "handles ?s 1 = 1" "handles ?s 2 = 1" by code_simp+
  then show "holds [] chain_world"
    by (auto simp: chain_world_def holds_def numeral_3_eq_3 numeral_2_eq_2)
  show "counters_to_recheck chain_world = []" by (simp add: chain_world_def)
qed



text \<open>
  An object is left for re-checking, then upgraded through its weak object and dropped again.
\<close>

definition revived_trace :: "label list" where
  "revived_trace = [LNew 0 0 0, LDowngradeInit 0 1 0 0, LDowngradeClone 0 0, LPush, LDrop 0 0, CTake 0]
     @ [CBegin [0, 1], CTraverseBegin] @ replicate 17 CTraverse @ [CVisitNext]
     @ replicate 2 CReadRelaxed @ replicate 2 CClearTags @ [CVisitNext] @ replicate 2 CReadRelaxed
     @ [CVisitNext, CFree 0]
     @ [LLoadBegin 0 (BackRef 1), LLoadEnter 0, LLoadPtr 0, LLoadInc 0 0, LLoadExit 0, LDrop 0 0]"

definition revived_world :: world where
  "revived_world = \<lparr>core = after (run revived_trace (start 1 2 1)), data_handles = (\<lambda>_. []),
     counters_to_recheck = [], collection_waiting = [], notified = [], outer_iteration_counter = 1\<rparr>"

lemma recheck_loop_Nil: "recheck_loop n [] i w = Next w"
  by (cases n) simp_all

text \<open>
  the condition of the theorem above is needed. A deep collection that finds a tag set on an
  object left for re-checking sends it back to the default state and not to the set to re-check:
  the object survives, without any reference, until a later collection.
\<close>

theorem revived_object_survives:
  "is_next (run revived_trace (start 1 2 1)) \<and> is_next (update True 0 revived_world)
    \<and> obj_at (core (after (update True 0 revived_world))) 0 \<noteq> None
    \<and> tokens (core (after (update True 0 revived_world))) 0 = 0"
proof -
  let ?w = "revived_world\<lparr>core := after (take_from_shards [0] (core revived_world))\<rparr>"
  let ?r = "update_counters [0, 1] 0 ?w"
  have ok: "is_next (run revived_trace (start 1 2 1))" by code_simp
  have "is_next (take_from_shards [0] (core revived_world))" by code_simp
  then have tk: "take_from_shards [0] (core revived_world) = Next (core ?w)"
    by (cases "take_from_shards [0] (core revived_world)") simp_all
  have keys: "nshards (core revived_world) = 1" "tracked_keys (core ?w) = [0, 1]" by code_simp+
  have "is_next ?r" "fst (after ?r) = []" by code_simp+
  then have r: "?r = Next ([], snd (after ?r))" by (cases ?r) (auto simp: prod_eq_iff)
  have all: "update_all True 0 ?w = Next (Some [], snd (after ?r))"
    unfolding update_all_def keys(2) by (subst r) simp
  have "update True 0 revived_world
      = bind_outcome (take_from_shards [0] (core revived_world)) (\<lambda>s.
          do_collection_inner_iterations True 0 (revived_world\<lparr>core := s\<rparr>))"
    by (simp add: update_def keys(1))
  also have "\<dots> = bind_outcome (update_all True 0 ?w) (\<lambda>(to_recheck, w').
      case to_recheck of None \<Rightarrow> Next w' | Some l \<Rightarrow> recheck_loop LOOP_LIMIT l 0 w')"
    by (subst tk) (simp add: do_collection_inner_iterations_def)
  also have "\<dots> = Next (snd (after ?r))" unfolding all by (simp add: recheck_loop_Nil)
  finally have u: "update True 0 revived_world = Next (snd (after ?r))" .
  have "obj_at (core (snd (after ?r))) 0 \<noteq> None" "tokens (core (snd (after ?r))) 0 = 0" by code_simp+
  then show ?thesis using ok u by simp
qed

end
