(* ===== verification/Calls.thy ===== *)
theory Calls
  imports Safety CollectorThread
begin

text \<open>
  The public calls of \<open>src/src/atomic_sdarc.rs\<close>, \<open>src/src/sdarc.rs\<close> and \<open>src/src/weak_sdarc.rs\<close> as
  functions: the steps of \<open>Machine\<close> and \<open>Readers\<close> in the order the calls take them, with what
  they return. Between the accesses to shared memory that can race, a call takes a list of
  steps of others (\<open>others\<close>), which other threads and the collector take there.
\<close>

section \<open>Handles\<close>

definition ptr_eq :: "addr \<Rightarrow> addr \<Rightarrow> bool" where
  "ptr_eq a b \<longleftrightarrow> a = b"

text \<open>A \<open>WeakSdarc\<close> is a handle to its weak object, so the comparison is shallow.\<close>

definition weak_ptr_eq :: "addr \<Rightarrow> addr \<Rightarrow> bool" where
  "weak_ptr_eq v w \<longleftrightarrow> ptr_eq v w"

text \<open>
  \<open>estimate_strong_count\<close>: \<open>others\<close> lists what others do before each read of a counter shard. The
  sum is an unbounded integer.
\<close>

fun sum_of_shards :: "addr \<Rightarrow> nat list \<Rightarrow> label list list \<Rightarrow> int \<Rightarrow> sys \<Rightarrow> (int \<times> sys) outcome" where
  "sum_of_shards a [] others acc s = Next (acc, s)"
| "sum_of_shards a (k # ks) others acc s =
     bind_outcome (run (case others of [] \<Rightarrow> [] | os # _ \<Rightarrow> os) s) (\<lambda>s'.
       case obj_at s' a of
         None \<Rightarrow> Fault
       | Some x \<Rightarrow> sum_of_shards a ks (tl others) (acc + acount (shards x ! k)) s')"

definition estimate_strong_count :: "addr \<Rightarrow> label list list \<Rightarrow> sys \<Rightarrow> (int \<times> sys) outcome" where
  "estimate_strong_count a others s =
     (if handles s a > 0 then sum_of_shards a [0..<nshards s] others 0 s else Disabled)"

text \<open>\<open>estimate_weak_count\<close> reads the weak object the handle's object owns.\<close>

definition estimate_weak_count :: "addr \<Rightarrow> label list list \<Rightarrow> sys \<Rightarrow> (int \<times> sys) outcome" where
  "estimate_weak_count a others s =
     (if handles s a > 0
      then case obj_at s a of
             None \<Rightarrow> Fault
           | Some x \<Rightarrow> (case weak_ref x of
               None \<Rightarrow> Next (0, s)
             | Some w \<Rightarrow> sum_of_shards w [0..<nshards s] others 0 s)
      else Disabled)"

section \<open>Claiming hazard data\<close>

text \<open>
  \<open>obtain_per_thread_shared_hazard_data\<close>: the first entry whose \<open>is_used\<close> the swap finds false, or
  a new one. A swap that finds true leaves the entry as it was.
\<close>

fun claim_scan :: "nat list \<Rightarrow> sys \<Rightarrow> (nat option \<times> sys) outcome" where
  "claim_scan [] s = Next (None, s)"
| "claim_scan (t # ts) s =
     (if is_used (thrs s ! t) then claim_scan ts s
      else bind_outcome (hazard_data_claim t s) (\<lambda>s'. Next (Some t, s')))"

definition obtain_per_thread_shared_hazard_data :: "sys \<Rightarrow> (nat \<times> sys) outcome" where
  "obtain_per_thread_shared_hazard_data s =
     bind_outcome (claim_scan [0..<length (thrs s)] s) (\<lambda>(found, s').
       case found of
         Some t \<Rightarrow> Next (t, s')
       | None \<Rightarrow> bind_outcome (hazard_data_push s') (\<lambda>s''.
           if is_used (thrs s'' ! length (thrs s')) then Next (length (thrs s'), s'') else Panic))"

section \<open>Loading an owned handle\<close>

text \<open>\<open>load_atomic_ptr_owned\<close>, once the thread has come to it with the pointer \<open>r\<close>.\<close>

definition load_atomic_ptr_owned :: "nat \<Rightarrow> label list \<Rightarrow> nat \<Rightarrow> sys \<Rightarrow> (addr option \<times> sys) outcome" where
  "load_atomic_ptr_owned t others i s =
     bind_outcome (reader_critical_section_enter t s) (\<lambda>s.
     bind_outcome (load_atomic_ptr t s) (\<lambda>s.
     bind_outcome (run others s) (\<lambda>s.
       case at_pc (thrs s ! t) of
         LoadInc a \<Rightarrow>
           bind_outcome (load_increment t i s) (\<lambda>s.
           bind_outcome (reader_critical_section_exit t s) (\<lambda>s. Next (Some a, s)))
       | _ \<Rightarrow> bind_outcome (reader_critical_section_exit t s) (\<lambda>s. Next (None, s)))))"

definition load_owned :: "nat \<Rightarrow> cellref \<Rightarrow> label list \<Rightarrow> nat \<Rightarrow> sys \<Rightarrow> (addr option \<times> sys) outcome" where
  "load_owned t r others i s = bind_outcome (load_begin t r s) (load_atomic_ptr_owned t others i)"

definition upgrade :: "nat \<Rightarrow> addr \<Rightarrow> label list \<Rightarrow> nat \<Rightarrow> sys \<Rightarrow> (addr option \<times> sys) outcome" where
  "upgrade t w others i s = load_owned t (BackRef w) others i s"

section \<open>Borrowing\<close>

datatype HazardBorrowErr = SlotFull | PointerChanged

record HazardPointerGuard =
  hazard_slot_index :: nat
  loaded_ptr :: addr

datatype AtomicSdarcBorrowGuard = UsingHazardPtr HazardPointerGuard | Owned addr

text \<open>
  Others step between the two loads, before (\<open>others1\<close>) and after (\<open>others2\<close>) the store to the slot.
\<close>

definition try_borrow_from_atomic_ptr_using_hazard_pointer ::
  "nat \<Rightarrow> cellref \<Rightarrow> label list \<Rightarrow> label list \<Rightarrow> sys
    \<Rightarrow> ((HazardBorrowErr + HazardPointerGuard option) \<times> sys) outcome" where
  "try_borrow_from_atomic_ptr_using_hazard_pointer t r others1 others2 s =
     bind_outcome (borrow_preload t r s) (\<lambda>s.
       case at_pc (thrs s ! t) of
         BorrowPub _ pre_loaded_ptr \<Rightarrow>
           bind_outcome (run others1 s) (\<lambda>s.
           bind_outcome (try_publish t s) (\<lambda>s.
             case at_pc (thrs s ! t) of
               BorrowReload _ _ j \<Rightarrow>
                 bind_outcome (run others2 s) (\<lambda>s.
                 bind_outcome (borrow_reload t s) (\<lambda>s.
                   if at_pc (thrs s ! t) = Idle
                   then Next (Inr (Some \<lparr>hazard_slot_index = j, loaded_ptr = pre_loaded_ptr\<rparr>), s)
                   else Next (Inl PointerChanged, s)))
             | _ \<Rightarrow> Next (Inl SlotFull, s)))
       | _ \<Rightarrow> Next (Inr None, s))"

definition borrow_from_atomic_ptr ::
  "nat \<Rightarrow> cellref \<Rightarrow> label list \<Rightarrow> label list \<Rightarrow> label list \<Rightarrow> nat \<Rightarrow> sys
    \<Rightarrow> (AtomicSdarcBorrowGuard option \<times> sys) outcome" where
  "borrow_from_atomic_ptr t r others1 others2 others3 i s =
     bind_outcome (try_borrow_from_atomic_ptr_using_hazard_pointer t r others1 others2 s) (\<lambda>(res, s).
       case res of
         Inr None \<Rightarrow> Next (None, s)
       | Inr (Some g) \<Rightarrow> Next (Some (UsingHazardPtr g), s)
       | Inl _ \<Rightarrow>
           bind_outcome (load_atomic_ptr_owned t others3 i s) (\<lambda>(p, s).
             Next (map_option Owned p, s)))"

definition unpublish_hazard_pointer_on_borrow_finish :: "nat \<Rightarrow> HazardPointerGuard \<Rightarrow> sys \<Rightarrow> sys outcome" where
  "unpublish_hazard_pointer_on_borrow_finish t g s = thr_step t s (\<lambda>th.
     if view (slots th (hazard_slot_index g)) = None then Panic
     else guard_drop t (hazard_slot_index g) s)"

definition borrow_guard_deref :: "nat \<Rightarrow> AtomicSdarcBorrowGuard \<Rightarrow> sys \<Rightarrow> sys outcome" where
  "borrow_guard_deref t g s =
     (case g of UsingHazardPtr h \<Rightarrow> guard_deref t (hazard_slot_index h) s | Owned a \<Rightarrow> sdarc_deref a s)"

definition borrow_guard_drop :: "nat \<Rightarrow> AtomicSdarcBorrowGuard \<Rightarrow> nat \<Rightarrow> sys \<Rightarrow> sys outcome" where
  "borrow_guard_drop t g i s =
     (case g of
        UsingHazardPtr h \<Rightarrow> unpublish_hazard_pointer_on_borrow_finish t h s
      | Owned a \<Rightarrow> sdarc_drop a i s)"

section \<open>Nullable atomic pointers\<close>

definition drop_opt :: "addr option \<Rightarrow> nat \<Rightarrow> sys \<Rightarrow> sys outcome" where
  "drop_opt p i s = (case p of None \<Rightarrow> Next s | Some a \<Rightarrow> sdarc_drop a i s)"

definition nullable_swap :: "nat \<Rightarrow> addr option \<Rightarrow> sys \<Rightarrow> (addr option \<times> sys) outcome" where
  "nullable_swap c new s = bind_outcome (ptr_swap c new s) (\<lambda>s'. Next (cells s ! c, s'))"

text \<open>\<open>store\<close> drops what it replaces, and so does the drop of the atomic pointer itself.\<close>

definition nullable_store :: "nat \<Rightarrow> addr option \<Rightarrow> nat \<Rightarrow> sys \<Rightarrow> sys outcome" where
  "nullable_store c new i s = bind_outcome (nullable_swap c new s) (\<lambda>(old, s). drop_opt old i s)"

definition nullable_drop :: "nat \<Rightarrow> nat \<Rightarrow> sys \<Rightarrow> sys outcome" where
  "nullable_drop c i s = nullable_store c None i s"

text \<open>\<open>new_with_value\<close> on a pointer \<open>c\<close> fresh from \<open>new\<close>, so null.\<close>

definition new_with_value :: "nat \<Rightarrow> addr \<Rightarrow> nat \<Rightarrow> nat \<Rightarrow> nat \<Rightarrow> sys \<Rightarrow> sys outcome" where
  "new_with_value c a i j k s =
     (if c < length (cells s) \<and> cells s ! c = None
      then bind_outcome (sdarc_new a i j s) (\<lambda>s.
           bind_outcome (nullable_swap c (Some a) s) (\<lambda>(old, s). drop_opt old k s))
      else Disabled)"

text \<open>\<open>Inr\<close> is \<open>Ok\<close> with the original, \<open>Inl\<close> is \<open>Err\<close>.\<close>

definition nullable_compare_and_set ::
  "nat \<Rightarrow> addr option \<Rightarrow> addr option \<Rightarrow> nat \<Rightarrow> sys \<Rightarrow> ((unit + addr option) \<times> sys) outcome" where
  "nullable_compare_and_set c if_matches then_set i s =
     bind_outcome (compare_and_set c if_matches then_set i s) (\<lambda>s'.
       Next (if cells s ! c = if_matches then Inr if_matches else Inl (), s'))"

text \<open>
  \<open>sync_to\<close>: the target is an owned handle or null. After the first read others step
  (\<open>others1\<close>), then inside \<open>load_owned\<close> (\<open>others2\<close>); the assignment drops the old target on shard
  \<open>k\<close>.
\<close>

definition nullable_sync_to ::
  "nat \<Rightarrow> nat \<Rightarrow> addr option \<Rightarrow> label list \<Rightarrow> label list \<Rightarrow> nat \<Rightarrow> nat \<Rightarrow> sys \<Rightarrow> (addr option \<times> sys) outcome" where
  "nullable_sync_to t c target others1 others2 i k s =
     (if c < length (cells s) \<and> has_handle s target
      then if target \<noteq> cells s ! c
           then bind_outcome (run others1 s) (\<lambda>s.
                bind_outcome (load_owned t (Cell c) others2 i s) (\<lambda>(new, s).
                bind_outcome (drop_opt target k s) (\<lambda>s. Next (new, s))))
           else Next (target, s)
      else Disabled)"

definition nullable_borrow ::
  "nat \<Rightarrow> nat \<Rightarrow> label list \<Rightarrow> label list \<Rightarrow> label list \<Rightarrow> nat \<Rightarrow> sys
    \<Rightarrow> (AtomicSdarcBorrowGuard option \<times> sys) outcome" where
  "nullable_borrow t c others1 others2 others3 i s = borrow_from_atomic_ptr t (Cell c) others1 others2 others3 i s"

definition weak_borrow ::
  "nat \<Rightarrow> addr \<Rightarrow> label list \<Rightarrow> label list \<Rightarrow> label list \<Rightarrow> nat \<Rightarrow> sys
    \<Rightarrow> (AtomicSdarcBorrowGuard option \<times> sys) outcome" where
  "weak_borrow t w others1 others2 others3 i s = borrow_from_atomic_ptr t (BackRef w) others1 others2 others3 i s"

section \<open>Atomic pointers that are never null\<close>

text \<open>\<open>Option::unwrap\<close> on a result.\<close>

definition unwrap :: "('a option \<times> sys) outcome \<Rightarrow> ('a \<times> sys) outcome" where
  "unwrap r = bind_outcome r (\<lambda>(p, s). case p of None \<Rightarrow> Panic | Some x \<Rightarrow> Next (x, s))"

definition atomic_new :: "nat \<Rightarrow> addr \<Rightarrow> nat \<Rightarrow> nat \<Rightarrow> nat \<Rightarrow> sys \<Rightarrow> sys outcome" where
  "atomic_new c a i j k s = new_with_value c a i j k s"

definition atomic_load_owned :: "nat \<Rightarrow> nat \<Rightarrow> label list \<Rightarrow> nat \<Rightarrow> sys \<Rightarrow> (addr \<times> sys) outcome" where
  "atomic_load_owned t c others i s = unwrap (load_owned t (Cell c) others i s)"

definition atomic_swap :: "nat \<Rightarrow> addr \<Rightarrow> sys \<Rightarrow> (addr \<times> sys) outcome" where
  "atomic_swap c new s = unwrap (nullable_swap c (Some new) s)"

definition atomic_store :: "nat \<Rightarrow> addr \<Rightarrow> nat \<Rightarrow> sys \<Rightarrow> sys outcome" where
  "atomic_store c new i s = nullable_store c (Some new) i s"

definition atomic_compare_and_set :: "nat \<Rightarrow> addr \<Rightarrow> addr \<Rightarrow> nat \<Rightarrow> sys \<Rightarrow> ((unit + addr) \<times> sys) outcome" where
  "atomic_compare_and_set c if_matches then_set i s =
     bind_outcome (nullable_compare_and_set c (Some if_matches) (Some then_set) i s) (\<lambda>(r, s).
       case r of
         Inr None \<Rightarrow> Panic
       | Inr (Some a) \<Rightarrow> Next (Inr a, s)
       | Inl _ \<Rightarrow> Next (Inl (), s))"

definition atomic_borrow ::
  "nat \<Rightarrow> nat \<Rightarrow> label list \<Rightarrow> label list \<Rightarrow> label list \<Rightarrow> nat \<Rightarrow> sys \<Rightarrow> (AtomicSdarcBorrowGuard \<times> sys) outcome" where
  "atomic_borrow t c others1 others2 others3 i s = unwrap (nullable_borrow t c others1 others2 others3 i s)"

definition atomic_sync_to ::
  "nat \<Rightarrow> nat \<Rightarrow> addr \<Rightarrow> label list \<Rightarrow> label list \<Rightarrow> nat \<Rightarrow> nat \<Rightarrow> sys \<Rightarrow> (addr \<times> sys) outcome" where
  "atomic_sync_to t c target others1 others2 i k s =
     (if c < length (cells s) \<and> handles s target > 0
      then if Some target \<noteq> cells s ! c
           then bind_outcome (run others1 s) (\<lambda>s.
                bind_outcome (atomic_load_owned t c others2 i s) (\<lambda>(new, s).
                bind_outcome (sdarc_drop target k s) (\<lambda>s. Next (new, s))))
           else Next (target, s)
      else Disabled)"

section \<open>What others may do during a call\<close>

text \<open>
  The steps thread \<open>t\<close> takes itself. Stores of \<open>t\<close> reaching memory, the collector's steps and the
  steps of other threads are the others'.
\<close>

fun taken_by :: "nat \<Rightarrow> label \<Rightarrow> bool" where
  "taken_by t (LClaim u) = (u = t)"
| "taken_by t (LRelease u) = (u = t)"
| "taken_by t (LLoadBegin u r) = (u = t)"
| "taken_by t (LLoadEnter u) = (u = t)"
| "taken_by t (LLoadPtr u) = (u = t)"
| "taken_by t (LLoadInc u i) = (u = t)"
| "taken_by t (LLoadExit u) = (u = t)"
| "taken_by t (LBorrowPreload u r) = (u = t)"
| "taken_by t (LPublish u) = (u = t)"
| "taken_by t (LBorrowReload u) = (u = t)"
| "taken_by t (LGuardDeref u j) = (u = t)"
| "taken_by t (LGuardClone u j i) = (u = t)"
| "taken_by t (LGuardDrop u j) = (u = t)"
| "taken_by t l = False"

definition by_others :: "nat \<Rightarrow> label list \<Rightarrow> bool" where
  "by_others t ls \<longleftrightarrow> (\<forall>l\<in>set ls. \<not> taken_by t l)"

text \<open>What the steps of others leave of thread \<open>t\<close>.\<close>

definition same_thread :: "nat \<Rightarrow> sys \<Rightarrow> sys \<Rightarrow> bool" where
  "same_thread t s s' \<longleftrightarrow> t < length (thrs s') \<and> at_pc (thrs s' ! t) = at_pc (thrs s ! t)
     \<and> guards (thrs s' ! t) = guards (thrs s ! t) \<and> is_used (thrs s' ! t) = is_used (thrs s ! t)
     \<and> nshards s' = nshards s \<and> length (cells s') = length (cells s)"

lemmas memory_defs = thr_step_def deref_def read_ptr_def set_thr_def put_def add_handle_def
  take_handle_def add_handle_opt_def take_handle_opt_def

lemmas handle_defs = sdarc_new_def sdarc_clone_def sdarc_drop_def sdarc_deref_def downgrade_init_def
  downgrade_clone_def ptr_swap_def compare_and_set_def cas_increment_def cas_exchange_def
  on_new_sdarc_allocated_def

lemmas reader_defs = hazard_data_claim_def hazard_data_push_def release_hazard_data_def
  slot_reaches_memory_def flag_reaches_memory_def load_begin_def reader_critical_section_enter_def
  load_atomic_ptr_def load_increment_def reader_critical_section_exit_def borrow_preload_def
  try_publish_def borrow_reload_def guard_deref_def guard_clone_def guard_drop_def

lemmas collector_defs = take_new_counters_to_track_def begin_iteration_def traverse_begin_def
  traverse_step_def visit_next_def read_relaxed_step_def clear_tags_step_def check_step_def
  clear_weak_backref_def free_step_def drop_weak_inner_ref_def set_state_def ready_to_free_def

text \<open>The steps of the collector.\<close>

fun is_collector :: "label \<Rightarrow> bool" where
  "is_collector (CTake j) = True"
| "is_collector (CBegin visit) = True"
| "is_collector CTraverseBegin = True"
| "is_collector CTraverse = True"
| "is_collector CVisitNext = True"
| "is_collector CReadRelaxed = True"
| "is_collector CClearTags = True"
| "is_collector CCheckTags = True"
| "is_collector CClearWeak = True"
| "is_collector (CFree i) = True"
| "is_collector l = False"

lemma collector_frame:
  assumes "is_collector l" and "step l s = Next s'"
  shows "nshards s' = nshards s \<and> cells s' = cells s \<and> handles s' = handles s
    \<and> (thrs s' = thrs s \<or> thrs s' = map drain_thr (thrs s))"
  using assms
  by (cases l; simp only: step.simps is_collector.simps;
    auto simp: collector_defs deref_def put_def
      split: option.splits if_splits list.splits cpc.splits tstate.splits)

lemma step_same_thread:
  assumes "t < length (thrs s)" and "\<not> taken_by t l" and "step l s = Next s'"
  shows "same_thread t s s'"
proof (cases "is_collector l")
  case True
  then show ?thesis
    using collector_frame [OF _ assms(3)] assms(1) by (auto simp: same_thread_def drain_thr_def)
next
  case False
  then show ?thesis
    using assms
    by (cases l; simp only: step.simps taken_by.simps is_collector.simps simp_thms;
      auto simp: same_thread_def memory_defs handle_defs reader_defs nth_list_update nth_append
        split: option.splits if_splits pc.splits cellref.splits)
qed

lemma run_same_thread:
  "t < length (thrs s) \<Longrightarrow> by_others t ls \<Longrightarrow> run ls s = Next s' \<Longrightarrow> same_thread t s s'"
proof (induction ls arbitrary: s)
  case Nil
  then show ?case by (simp add: same_thread_def)
next
  case (Cons l ls)
  then obtain s1 where s1: "step l s = Next s1" "run ls s1 = Next s'" by (auto split: outcome.splits)
  have 1: "same_thread t s s1" using step_same_thread s1(1) Cons.prems by (auto simp: by_others_def)
  then have "same_thread t s1 s'"
    using Cons.IH [OF _ _ s1(2)] Cons.prems by (auto simp: by_others_def same_thread_def)
  then show ?case using 1 by (simp add: same_thread_def)
qed

end
