(* ===== verification/CallResults.thy ===== *)
theory CallResults
  imports Calls
begin

text \<open>
  What the calls of \<open>Calls\<close> return and leave behind, whatever other threads and the collector do
  between their accesses to shared memory.
\<close>

section \<open>Loading\<close>

text \<open>The atomic pointer exists: a cell of the program, or inside a weak object one holds.\<close>

definition valid_ref :: "sys \<Rightarrow> cellref \<Rightarrow> bool" where
  "valid_ref s r = (case r of Cell c \<Rightarrow> c < length (cells s) | BackRef w \<Rightarrow> handles s w > 0)"

definition ptr_value :: "sys \<Rightarrow> cellref \<Rightarrow> addr option" where
  "ptr_value s r = (case r of
     Cell c \<Rightarrow> cells s ! c
   | BackRef w \<Rightarrow> (case obj_at s w of None \<Rightarrow> None | Some y \<Rightarrow> back_ref y))"

definition at_start :: "nat \<Rightarrow> pc \<Rightarrow> sys \<Rightarrow> bool" where
  "at_start t p s \<longleftrightarrow> t < length (thrs s) \<and> is_used (thrs s ! t) \<and> at_pc (thrs s ! t) = p"

lemma at_startD:
  assumes "at_start t p s"
  shows "t < length (thrs s)" "is_used (thrs s ! t)" "at_pc (thrs s ! t) = p"
  using assms by (simp_all add: at_start_def)

lemma same_thread_start: "same_thread t s s' \<Longrightarrow> at_start t p s \<Longrightarrow> at_start t p s'"
  by (simp add: same_thread_def at_start_def)

lemma read_valid_ptr:
  assumes "reach s" and "valid_ref s r"
  shows "read_ptr s r k = k (ptr_value s r)"
proof (cases r)
  case (BackRef w)
  then obtain y where "obj_at s w = Some y"
    using assms handle_alive [of s w] reach_invariants [OF assms(1)] by (auto simp: valid_ref_def)
  then show ?thesis using BackRef assms(2) by (simp add: read_ptr_def valid_ref_def ptr_value_def deref_def)
qed (use assms(2) in \<open>simp add: read_ptr_def valid_ref_def ptr_value_def\<close>)

lemma reach_thr_ok: "reach s \<Longrightarrow> t < length (thrs s) \<Longrightarrow> thr_ok (thrs s ! t)"
  using res_invD(7) reach_invariants by blast

text \<open>The state right after the load inside the critical section.\<close>

definition loaded :: "nat \<Rightarrow> cellref \<Rightarrow> sys \<Rightarrow> sys" where
  "loaded t r s = set_thr t ((thrs s ! t)
     \<lparr>flag := write_to True (flag (thrs s ! t)),
      at_pc := (case ptr_value s r of None \<Rightarrow> LoadExit None | Some a \<Rightarrow> LoadInc a)\<rparr>) s"

lemma loaded_simps [simp]:
  "nshards (loaded t r s) = nshards s" "cells (loaded t r s) = cells s" "length (thrs (loaded t r s)) = length (thrs s)"
  "t < length (thrs s) \<Longrightarrow> at_pc (thrs (loaded t r s) ! t)
     = (case ptr_value s r of None \<Rightarrow> LoadExit None | Some a \<Rightarrow> LoadInc a)"
  "t < length (thrs s) \<Longrightarrow> is_used (thrs (loaded t r s) ! t) = is_used (thrs s ! t)"
  "t < length (thrs s) \<Longrightarrow> guards (thrs (loaded t r s) ! t) = guards (thrs s ! t)"
  by (simp_all add: loaded_def)

lemma enter_and_load:
  assumes r: "reach s" and st: "at_start t (LoadStart r) s" and v: "valid_ref s r"
  shows "bind_outcome (reader_critical_section_enter t s) (load_atomic_ptr t) = Next (loaded t r s)"
    and "reach (loaded t r s)"
proof -
  note t = at_startD [OF st]
  let ?s = "set_thr t ((thrs s ! t)\<lparr>at_pc := LoadPtr r, flag := write_to True (flag (thrs s ! t))\<rparr>) s"
  have "\<not> view (flag (thrs s ! t))"
    using reach_thr_ok [OF r t(1)] t(3) by (simp add: thr_ok_def in_critical_section_def)
  then have enter: "reader_critical_section_enter t s = Next ?s"
    using t by (simp add: reader_critical_section_enter_def thr_step_def)
  then have reach1: "reach ?s" using r reach_step [of s "LLoadEnter t"] by simp
  have "valid_ref ?s r" "ptr_value ?s r = ptr_value s r"
    using v by (simp_all add: valid_ref_def ptr_value_def split: cellref.splits)
  then have "load_atomic_ptr t ?s = Next (set_thr t ((thrs ?s ! t)\<lparr>at_pc :=
      (case ptr_value s r of None \<Rightarrow> LoadExit None | Some a \<Rightarrow> LoadInc a)\<rparr>) ?s)"
    using t read_valid_ptr [OF reach1] by (simp add: load_atomic_ptr_def thr_step_def)
  also have "\<dots> = Next (loaded t r s)" using t by (simp add: loaded_def set_thr_def)
  finally have load: "load_atomic_ptr t ?s = Next (loaded t r s)" .
  then show "bind_outcome (reader_critical_section_enter t s) (load_atomic_ptr t) = Next (loaded t r s)"
    using enter by simp
  show "reach (loaded t r s)" using reach_step [OF reach1, of "LLoadPtr t"] load by simp
qed

lemma exit_returns:
  assumes r: "reach s" and st: "at_start t (LoadExit p) s"
  shows "\<exists>s'. reader_critical_section_exit t s = Next s' \<and> reach s' \<and> at_start t Idle s'
    \<and> guards (thrs s' ! t) = guards (thrs s ! t) \<and> cells s' = cells s
    \<and> nshards s' = nshards s \<and> handles s' = handles (add_handle_opt p s)"
proof -
  note t = at_startD [OF st]
  let ?s = "add_handle_opt p (set_thr t ((thrs s ! t)\<lparr>at_pc := Idle, flag := write_to False (flag (thrs s ! t))\<rparr>) s)"
  have "reader_critical_section_exit t s = Next ?s"
    using t by (simp add: reader_critical_section_exit_def thr_step_def)
  moreover from this have "reach ?s" using reach_step [OF r, of "LLoadExit t"] by simp
  ultimately show ?thesis
    using t by (cases p) (auto simp: at_start_def add_handle_def set_thr_def)
qed

lemma increment_returns:
  assumes r: "reach s" and st: "at_start t (LoadInc a) s" and i: "i < nshards s"
  shows "\<exists>s'. load_increment t i s = Next s' \<and> reach s' \<and> at_start t (LoadExit (Some a)) s'
    \<and> guards (thrs s' ! t) = guards (thrs s ! t) \<and> cells s' = cells s \<and> handles s' = handles s
    \<and> nshards s' = nshards s"
proof -
  note t = at_startD [OF st]
  obtain x where x: "obj_at s a = Some x"
    using reach_alive [OF r, of a t] t by (auto simp: loading_def)
  let ?s = "set_thr t ((thrs s ! t)\<lparr>at_pc := LoadExit (Some a)\<rparr>) (put a (on_shard i a_increment x) s)"
  have "load_increment t i s = Next ?s"
    using t x i by (simp add: load_increment_def thr_step_def deref_def)
  moreover from this have "reach ?s" using reach_step [OF r, of "LLoadInc t i"] by simp
  ultimately show ?thesis using t by (auto simp: at_start_def)
qed

lemma load_from_start:
  assumes r: "reach s" and st: "at_start t (LoadStart r) s" and v: "valid_ref s r" and i: "i < nshards s"
    and o: "by_others t others" and run: "run others (loaded t r s) = Next s2"
  shows "\<exists>s'. load_atomic_ptr_owned t others i s = Next (ptr_value s r, s') \<and> reach s' \<and> at_start t Idle s'
    \<and> guards (thrs s' ! t) = guards (thrs s ! t) \<and> cells s' = cells s2 \<and> nshards s' = nshards s
    \<and> handles s' = handles (add_handle_opt (ptr_value s r) s2)"
proof -
  note t = at_startD [OF st]
  let ?p = "ptr_value s r"
  have r2: "reach s2" using run_reach [OF enter_and_load(2) [OF r st v] run] .
  have same: "same_thread t (loaded t r s) s2" using run_same_thread [OF _ o run] t by simp
  have n2: "nshards s2 = nshards s" using same by (simp add: same_thread_def)
  then have i2: "i < nshards s2" using i by simp
  have g: "guards (thrs s2 ! t) = guards (thrs s ! t)" using same t by (simp add: same_thread_def)
  have st2: "at_start t (case ?p of None \<Rightarrow> LoadExit None | Some a \<Rightarrow> LoadInc a) s2"
    using same t by (simp add: same_thread_def at_start_def)
  have pre: "load_atomic_ptr_owned t others i s = (case at_pc (thrs s2 ! t) of
         LoadInc a \<Rightarrow>
           bind_outcome (load_increment t i s2) (\<lambda>s.
           bind_outcome (reader_critical_section_exit t s) (\<lambda>s. Next (Some a, s)))
       | _ \<Rightarrow> bind_outcome (reader_critical_section_exit t s2) (\<lambda>s. Next (None, s)))"
    using enter_and_load(1) [OF r st v] run
    by (cases "reader_critical_section_enter t s") (simp_all add: load_atomic_ptr_owned_def)
  show ?thesis
  proof (cases ?p)
    case None
    then obtain s' where "reader_critical_section_exit t s2 = Next s'" "reach s'" "at_start t Idle s'"
        "guards (thrs s' ! t) = guards (thrs s2 ! t)" "cells s' = cells s2" "handles s' = handles s2"
        "nshards s' = nshards s2"
      using exit_returns [OF r2, of t None] st2 by auto
    then show ?thesis using pre None at_startD(3) [OF st2] g n2 by simp
  next
    case (Some a)
    then obtain s3 where s3: "load_increment t i s2 = Next s3" "reach s3" "at_start t (LoadExit (Some a)) s3"
        "guards (thrs s3 ! t) = guards (thrs s2 ! t)" "cells s3 = cells s2" "handles s3 = handles s2"
        "nshards s3 = nshards s2"
      using increment_returns [OF r2 _ i2, of t a] st2 by auto
    then obtain s' where "reader_critical_section_exit t s3 = Next s'" "reach s'" "at_start t Idle s'"
        "guards (thrs s' ! t) = guards (thrs s3 ! t)" "cells s' = cells s3" "handles s' = handles (add_handle a s3)"
        "nshards s' = nshards s3"
      using exit_returns [OF s3(2,3)] by auto
    then show ?thesis using pre Some at_startD(3) [OF st2] g n2 s3 by (simp add: add_handle_def)
  qed
qed

lemma load_begin_returns:
  assumes r: "reach s" and st: "at_start t Idle s"
  shows "\<exists>s0. load_begin t r s = Next s0 \<and> reach s0 \<and> at_start t (LoadStart r) s0
    \<and> guards (thrs s0 ! t) = guards (thrs s ! t) \<and> cells s0 = cells s \<and> handles s0 = handles s
    \<and> heap s0 = heap s \<and> nshards s0 = nshards s"
proof -
  note t = at_startD [OF st]
  let ?s = "set_thr t ((thrs s ! t)\<lparr>at_pc := LoadStart r\<rparr>) s"
  have "load_begin t r s = Next ?s" using t by (simp add: load_begin_def thr_step_def)
  moreover from this have "reach ?s" using reach_step [OF r, of "LLoadBegin t r"] by simp
  ultimately show ?thesis using t by (auto simp: at_start_def)
qed

lemma same_ref:
  "\<lbrakk>cells s' = cells s; handles s' = handles s\<rbrakk> \<Longrightarrow> valid_ref s' r = valid_ref s r"
  "\<lbrakk>cells s' = cells s; heap s' = heap s\<rbrakk> \<Longrightarrow> ptr_value s' r = ptr_value s r"
  by (auto simp: valid_ref_def ptr_value_def obj_at_def split: cellref.splits)


text \<open>
  The object is swapped out, dropped and visited by the collector while the reader is between its
  load and its increment.
\<close>

definition shared_trace :: "label list" where
  "shared_trace = [LNew 0 0 0, LSwap 0 (Some 0), LPush]"

definition raced_trace :: "label list" where
  "raced_trace = [LSwap 0 None, LDrop 0 0, CTake 0, CBegin [0], CTraverseBegin] @ replicate 16 CTraverse"


section \<open>Borrowing\<close>

lemma publish_D:
  assumes "try_publish t s = Next s'" and "at_pc (thrs s ! t) = BorrowPub r a"
  shows "at_start t (LoadStart r) s' \<or> (\<exists>j. at_start t (BorrowReload r a j) s')"
  using assms by (auto simp: try_publish_def thr_step_def at_start_def split: if_splits option.splits)

lemma reload_D:
  assumes "borrow_reload t s = Next s'" and "at_pc (thrs s ! t) = BorrowReload r a j"
  shows "at_start t Idle s' \<and> guards (thrs s' ! t) j = Some a \<or> at_start t (LoadStart r) s'"
  using assms
  by (auto simp: borrow_reload_def thr_step_def at_start_def read_ptr_def deref_def
      split: if_splits option.splits cellref.splits)

lemma preload_D:
  assumes "borrow_preload t r s = Next s'"
  shows "at_start t Idle s' \<or> (\<exists>a. at_start t (BorrowPub r a) s')"
  using assms
  by (auto simp: borrow_preload_def thr_step_def at_start_def read_ptr_def deref_def
      split: if_splits option.splits cellref.splits)

lemma run_others:
  assumes "reach s" and "at_start t p s" and "by_others t ls" and "run ls s = Next s'"
  shows "reach s' \<and> at_start t p s'"
  using run_reach [OF assms(1,4)] same_thread_start [OF run_same_thread [OF _ assms(3,4)] assms(2)]
    at_startD(1) [OF assms(2)] by simp

text \<open>What the attempt with a hazard slot leaves behind, with others stepping in between.\<close>

definition borrow_attempt :: "nat \<Rightarrow> cellref \<Rightarrow> HazardBorrowErr + HazardPointerGuard option \<Rightarrow> sys \<Rightarrow> bool" where
  "borrow_attempt t r res s \<longleftrightarrow> reach s \<and> (case res of
       Inl _ \<Rightarrow> at_start t (LoadStart r) s
     | Inr None \<Rightarrow> at_start t Idle s
     | Inr (Some g) \<Rightarrow> at_start t Idle s \<and> guards (thrs s ! t) (hazard_slot_index g) = Some (loaded_ptr g))"

lemma try_borrow_leaves:
  assumes r: "reach s" and o1: "by_others t o1" and o2: "by_others t o2"
    and b: "try_borrow_from_atomic_ptr_using_hazard_pointer t r o1 o2 s = Next (res, s')"
  shows "borrow_attempt t r res s'"
proof -
  obtain s1 where s1: "borrow_preload t r s = Next s1"
    using b by (auto simp: try_borrow_from_atomic_ptr_using_hazard_pointer_def bind_outcome_Next)
  then have r1: "reach s1" using r reach_step [of s "LBorrowPreload t r"] by simp
  show ?thesis
  proof (cases "at_start t Idle s1")
    case True
    then have "res = Inr None" "s' = s1"
      using b s1 by (simp_all add: try_borrow_from_atomic_ptr_using_hazard_pointer_def at_start_def)
    then show ?thesis using True r1 by (simp add: borrow_attempt_def)
  next
    case False
    then obtain a where a: "at_start t (BorrowPub r a) s1" using preload_D [OF s1] by blast
    then obtain s2 s3 where s2: "run o1 s1 = Next s2" and s3: "try_publish t s2 = Next s3"
      using b s1 by (auto simp: try_borrow_from_atomic_ptr_using_hazard_pointer_def at_start_def bind_outcome_Next)
    note r2 = run_others [OF r1 a o1 s2]
    have r3: "reach s3" using r2 s3 reach_step [of s2 "LPublish t"] by simp
    consider "at_start t (LoadStart r) s3" | j where "at_start t (BorrowReload r a j) s3"
      using publish_D [OF s3] at_startD(3) r2 by blast
    then show ?thesis
    proof cases
      case 1
      then have "res = Inl SlotFull" "s' = s3"
        using b s1 s2 s3 a
        by (simp_all add: try_borrow_from_atomic_ptr_using_hazard_pointer_def at_start_def)
      then show ?thesis using 1 r3 by (simp add: borrow_attempt_def)
    next
      case (2 j)
      then obtain s4 where s4: "run o2 s3 = Next s4" and s5: "\<exists>s5. borrow_reload t s4 = Next s5"
        using b s1 s2 s3 a
        by (auto simp: try_borrow_from_atomic_ptr_using_hazard_pointer_def at_start_def bind_outcome_Next)
      then obtain s5 where s5: "borrow_reload t s4 = Next s5" by blast
      note r4 = run_others [OF r3 2 o2 s4]
      have "reach s5" using r4 s5 reach_step [of s4 "LBorrowReload t"] by simp
      moreover have "s' = s5" "res = (if at_pc (thrs s5 ! t) = Idle
          then Inr (Some \<lparr>hazard_slot_index = j, loaded_ptr = a\<rparr>) else Inl PointerChanged)"
        using b s1 s2 s3 a 2 s4 s5
        by (simp_all add: try_borrow_from_atomic_ptr_using_hazard_pointer_def at_start_def split: if_splits)
      ultimately show ?thesis
        using reload_D [OF s5 at_startD(3) [OF conjunct2 [OF r4]]]
        by (auto simp: borrow_attempt_def at_start_def)
    qed
  qed
qed


text \<open>The owner swaps the object out and drops it; the collector visits it twice.\<close>

definition later_trace :: "label list" where
  "later_trace = [LSwap 0 None, LDrop 0 1, CTake 0, CBegin [0], CTraverseBegin] @ replicate 17 CTraverse
     @ [CVisitNext, CVisitNext, CFree 0, CBegin [0], CTraverseBegin] @ replicate 17 CTraverse @ [CVisitNext]"


lemma preload_returns:
  assumes r: "reach s" and st: "at_start t Idle s" and v: "valid_ref s r"
  shows "borrow_preload t r s = Next (set_thr t ((thrs s ! t)\<lparr>at_pc :=
    (case ptr_value s r of None \<Rightarrow> Idle | Some a \<Rightarrow> BorrowPub r a)\<rparr>) s)"
  using at_startD [OF st] read_valid_ptr [OF r v] by (simp add: borrow_preload_def thr_step_def)

lemma set_thr_ref [simp]:
  "valid_ref (set_thr t th s) r = valid_ref s r" "ptr_value (set_thr t th s) r = ptr_value s r"
  by (rule same_ref; simp)+

lemma set_thr_twice: "set_thr t y (set_thr t x s) = set_thr t y s"
  by (simp add: set_thr_def)

text \<open>
  a borrow that nobody disturbs returns a guard on the current pointee: through the first
  empty hazard slot, or with an owned handle when all \<open>HZ_PTR_SLOT_COUNT\<close> slots are taken; and
  null for a null pointer. It leaves the thread ready for its next call.
\<close>

theorem borrow_returns:
  assumes "reach s" and "at_start t Idle s" and "valid_ref s r" and "i < nshards s"
  shows "\<exists>s'. borrow_from_atomic_ptr t r [] [] [] i s = Next (case ptr_value s r of
        None \<Rightarrow> None
      | Some a \<Rightarrow> Some (case first_null_slot (thrs s ! t) of
          Some j \<Rightarrow> UsingHazardPtr \<lparr>hazard_slot_index = j, loaded_ptr = a\<rparr>
        | None \<Rightarrow> Owned a), s')
    \<and> reach s' \<and> at_start t Idle s' \<and> cells s' = cells s"
proof (cases "ptr_value s r")
  case None
  then show ?thesis
    using preload_returns [OF assms(1-3)] at_startD [OF assms(2)] reach_step [OF assms(1), of "LBorrowPreload t r"]
    by (simp add: borrow_from_atomic_ptr_def try_borrow_from_atomic_ptr_using_hazard_pointer_def at_start_def)
next
  case (Some a)
  let ?s1 = "set_thr t ((thrs s ! t)\<lparr>at_pc := BorrowPub r a\<rparr>) s"
  note t = at_startD [OF assms(2)]
  have s1: "borrow_preload t r s = Next ?s1" using preload_returns [OF assms(1-3)] Some by simp
  have r1: "reach ?s1" using s1 reach_step [OF assms(1), of "LBorrowPreload t r"] by simp
  show ?thesis
  proof (cases "first_null_slot (thrs s ! t)")
    case None
    let ?s2 = "set_thr t ((thrs s ! t)\<lparr>at_pc := LoadStart r\<rparr>) s"
    have s2: "try_publish t ?s1 = Next ?s2"
      using t None by (simp add: try_publish_def thr_step_def first_null_slot_def set_thr_def)
    have r2: "reach ?s2" using s2 reach_step [OF r1, of "LPublish t"] by simp
    have st: "at_start t (LoadStart r) ?s2" using t by (simp add: at_start_def)
    obtain s' where s': "load_atomic_ptr_owned t [] i ?s2 = Next (Some a, s')" "reach s'"
        "at_start t Idle s'" "cells s' = cells s"
      using load_from_start [OF r2 st, of i "[]" "loaded t r ?s2"] assms(3,4) Some by (auto simp: by_others_def)
    then show ?thesis
      using s1 s2 t Some None
      by (simp add: borrow_from_atomic_ptr_def try_borrow_from_atomic_ptr_using_hazard_pointer_def)
  next
    case (Some j)
    let ?th = "(thrs s ! t)\<lparr>at_pc := BorrowReload r a j, slots := (slots (thrs s ! t))(j :=
        write_to (Some a) (slots (thrs s ! t) j))\<rparr>"
    let ?s2 = "set_thr t ?th s" and ?s3 = "set_thr t (?th\<lparr>at_pc := Idle, guards := (guards ?th)(j := Some a)\<rparr>) s"
    have s2: "try_publish t ?s1 = Next ?s2"
      using t Some by (simp add: try_publish_def thr_step_def first_null_slot_def set_thr_def)
    have r2: "reach ?s2" using s2 reach_step [OF r1, of "LPublish t"] by simp
    have "read_ptr ?s2 r k = k (Some a)" for k
      using read_valid_ptr [OF r2, of r] assms(3) \<open>ptr_value s r = Some a\<close> by simp
    then have s3: "borrow_reload t ?s2 = Next ?s3"
      using t by (simp add: borrow_reload_def thr_step_def set_thr_twice)
    have "reach ?s3" using s3 reach_step [OF r2, of "LBorrowReload t"] by simp
    then show ?thesis
      using s1 s2 s3 t \<open>ptr_value s r = Some a\<close> Some
      by (simp add: borrow_from_atomic_ptr_def try_borrow_from_atomic_ptr_using_hazard_pointer_def at_start_def)
  qed
qed

theorem borrow_returns_witness:
  "\<exists>s'. borrow_from_atomic_ptr 0 (Cell 0) [] [] [] 1 (after (run shared_trace (start 2 1 1)))
    = Next (Some (UsingHazardPtr \<lparr>hazard_slot_index = 0, loaded_ptr = 0\<rparr>), s') \<and> cells s' = [Some 0]"
proof -
  let ?s = "after (run shared_trace (start 2 1 1))"
  have "is_next (run shared_trace (start 2 1 1))" by code_simp
  then have r: "reach ?s" by (intro start_reach [where n = 2]) simp_all
  have st: "at_start 0 Idle ?s" by code_simp
  have v: "valid_ref ?s (Cell 0)" "1 < nshards ?s" by code_simp+
  have p: "ptr_value ?s (Cell 0) = Some 0" "first_null_slot (thrs ?s ! 0) = Some 0" "cells ?s = [Some 0]"
    by code_simp+
  show ?thesis using borrow_returns [OF r st v] p by auto
qed

section \<open>Synchronising a local handle\<close>

lemma drop_returns:
  assumes r: "reach s" and h: "has_handle s p" and k: "k < nshards s"
  shows "\<exists>s'. drop_opt p k s = Next s' \<and> reach s' \<and> cells s' = cells s \<and> thrs s' = thrs s
    \<and> handles s' = handles (take_handle_opt p s)"
proof (cases p)
  case None
  then show ?thesis using r by (simp add: drop_opt_def)
next
  case (Some a)
  then obtain x where x: "obj_at s a = Some x"
    using h handle_alive [of s a] reach_invariants [OF r] by auto
  let ?s = "take_handle a (put a (on_shard k a_decremented x) s)"
  have "sdarc_drop a k s = Next ?s" using h k x Some by (simp add: sdarc_drop_def deref_def)
  moreover from this have "reach ?s" using reach_step [OF r, of "LDrop a k"] by simp
  ultimately show ?thesis using Some by (simp add: drop_opt_def) (simp add: take_handle_def put_def)
qed

lemma load_undisturbed:
  assumes r: "reach s" and st: "at_start t Idle s" and v: "valid_ref s q" and i: "i < nshards s"
  shows "\<exists>s'. load_owned t q [] i s = Next (ptr_value s q, s') \<and> reach s' \<and> at_start t Idle s'
    \<and> cells s' = cells s \<and> nshards s' = nshards s \<and> handles s' = handles (add_handle_opt (ptr_value s q) s)"
proof -
  obtain s0 where s0: "load_begin t q s = Next s0" "reach s0" "at_start t (LoadStart q) s0"
      "cells s0 = cells s" "handles s0 = handles s" "heap s0 = heap s" "nshards s0 = nshards s"
    using load_begin_returns [OF r st] by blast
  have q: "valid_ref s0 q" "ptr_value s0 q = ptr_value s q"
    using same_ref(1) [OF s0(4,5)] same_ref(2) [OF s0(4,6)] v by simp_all
  have "handles (loaded t q s0) = handles s" by (simp add: loaded_def s0(5))
  then have "handles (add_handle_opt p (loaded t q s0)) = handles (add_handle_opt p s)" for p
    by (cases p) (simp_all add: add_handle_def)
  then show ?thesis
    using load_from_start [OF s0(2,3) q(1), of i "[]" "loaded t q s0"] i s0(1,4,7) q(2)
    by (auto simp: by_others_def load_owned_def)
qed


text \<open>The local handle is to object 0, the pointer has moved on to object 1.\<close>

definition moved_on_trace :: "label list" where
  "moved_on_trace = [LNew 0 0 0, LNew 1 0 0, LSwap 0 (Some 1), LPush]"


section \<open>Pointers that are never null\<close>

text \<open>
  \<open>N\<close> are the cells that are \<open>AtomicSdarc\<close>s: through its interface only handles are stored, never
  null, until the drop that ends its life.
\<close>

definition stores_handles :: "nat set \<Rightarrow> label \<Rightarrow> bool" where
  "stores_handles N l = (case l of
     LSwap c p \<Rightarrow> c \<in> N \<longrightarrow> p \<noteq> None
   | LCompareAndSet c m p i \<Rightarrow> c \<in> N \<longrightarrow> p \<noteq> None
   | _ \<Rightarrow> True)"

definition non_null :: "nat set \<Rightarrow> sys \<Rightarrow> bool" where
  "non_null N s \<longleftrightarrow> (\<forall>c\<in>N. c < length (cells s) \<and> cells s ! c \<noteq> None)"

lemma step_cells:
  assumes "step l s = Next s'"
  shows "cells s' = (case l of
     LSwap c p \<Rightarrow> (cells s)[c := p]
   | LCompareAndSet c m p i \<Rightarrow> if cells s ! c = m then (cells s)[c := p] else cells s
   | _ \<Rightarrow> cells s)"
proof (cases "is_collector l")
  case True
  then show ?thesis using collector_frame [OF _ assms] by (cases l) simp_all
next
  case False
  then show ?thesis
    using assms
    by (cases l; simp only: step.simps is_collector.simps simp_thms label.case;
      auto simp: memory_defs handle_defs reader_defs split: option.splits if_splits pc.splits cellref.splits)
qed

lemma non_null_update:
  assumes "non_null N s" and "cells s' = (cells s)[c := p]" and "c \<in> N \<longrightarrow> p \<noteq> None"
  shows "non_null N s'"
  unfolding non_null_def
proof
  fix d assume "d \<in> N"
  then show "d < length (cells s') \<and> cells s' ! d \<noteq> None"
    using assms by (cases "d = c") (auto simp: non_null_def)
qed

lemma step_non_null:
  assumes "non_null N s" and "stores_handles N l" and "step l s = Next s'"
  shows "non_null N s'"
proof -
  have same: "non_null N s'" if "cells s' = cells s" using assms(1) that by (simp add: non_null_def)
  show ?thesis
    using step_cells [OF assms(3)] same non_null_update [OF assms(1)] assms(2)
    by (cases l) (auto simp: stores_handles_def split: if_splits)
qed

lemma run_non_null:
  "\<lbrakk>non_null N s; \<forall>l\<in>set ls. stores_handles N l; run ls s = Next s'\<rbrakk> \<Longrightarrow> non_null N s'"
  using machine.execution_keeps [where P = "non_null N" and Q = "stores_handles N"] step_non_null by blast

lemma load_ptr_D:
  assumes "reader_critical_section_enter t s = Next s1" and "load_atomic_ptr t s1 = Next s2"
    and "at_pc (thrs s ! t) = LoadStart (Cell c)" and "cells s ! c = Some a"
  shows "at_start t (LoadInc a) s2"
  using assms
  by (auto simp: reader_critical_section_enter_def load_atomic_ptr_def thr_step_def at_start_def read_ptr_def
      split: if_splits)

lemma load_not_null:
  assumes "at_pc (thrs s ! t) = LoadStart (Cell c)" and "cells s ! c \<noteq> None" and "by_others t others"
  shows "load_atomic_ptr_owned t others i s \<noteq> Next (None, s')"
proof
  assume l: "load_atomic_ptr_owned t others i s = Next (None, s')"
  obtain a where a: "cells s ! c = Some a" using assms(2) by blast
  obtain s1 s2 s3 where s: "reader_critical_section_enter t s = Next s1" "load_atomic_ptr t s1 = Next s2"
      "run others s2 = Next s3"
    using l by (auto simp: load_atomic_ptr_owned_def bind_outcome_Next)
  have 2: "at_start t (LoadInc a) s2" by (rule load_ptr_D [OF s(1,2) assms(1) a])
  have "at_start t (LoadInc a) s3"
    using same_thread_start [OF run_same_thread [OF at_startD(1) [OF 2] assms(3) s(3)] 2] .
  then show False
    using l s by (simp add: load_atomic_ptr_owned_def at_start_def bind_outcome_Next)
qed

lemma preload_not_null:
  "\<lbrakk>borrow_preload t (Cell c) s = Next s'; cells s ! c = Some a\<rbrakk>
    \<Longrightarrow> at_start t (BorrowPub (Cell c) a) s' \<and> cells s' = cells s"
  by (auto simp: borrow_preload_def thr_step_def at_start_def read_ptr_def split: if_splits)

lemma publish_cells: "try_publish t s = Next s' \<Longrightarrow> cells s' = cells s"
  by (auto simp: try_publish_def thr_step_def split: if_splits option.splits pc.splits)

lemma reload_cells: "borrow_reload t s = Next s' \<Longrightarrow> cells s' = cells s"
  by (auto simp: borrow_reload_def thr_step_def read_ptr_def deref_def
      split: if_splits option.splits pc.splits cellref.splits)

lemma try_borrow_not_null:
  assumes r: "reach s" and n: "non_null N s" and c: "c \<in> N"
    and o: "by_others t o1" "by_others t o2" "\<forall>l\<in>set o1. stores_handles N l" "\<forall>l\<in>set o2. stores_handles N l"
    and b: "try_borrow_from_atomic_ptr_using_hazard_pointer t (Cell c) o1 o2 s = Next (res, s')"
  shows "res \<noteq> Inr None \<and> non_null N s'"
proof -
  obtain a where a: "cells s ! c = Some a" using n c by (auto simp: non_null_def)
  obtain s1 where s1: "borrow_preload t (Cell c) s = Next s1"
    using b by (auto simp: try_borrow_from_atomic_ptr_using_hazard_pointer_def bind_outcome_Next)
  note 1 = preload_not_null [OF s1 a]
  obtain s2 s3 where s2: "run o1 s1 = Next s2" and s3: "try_publish t s2 = Next s3"
    using b s1 1 by (auto simp: try_borrow_from_atomic_ptr_using_hazard_pointer_def at_start_def bind_outcome_Next)
  have r1: "reach s1" using r s1 reach_step [of s "LBorrowPreload t (Cell c)"] by simp
  note r2 = run_others [OF r1 _ o(1) s2, of "BorrowPub (Cell c) a"]
  have n2: "non_null N s2" using run_non_null [OF _ o(3) s2] n 1 by (simp add: non_null_def)
  then have n3: "non_null N s3" using publish_cells [OF s3] by (simp add: non_null_def)
  consider "at_start t (LoadStart (Cell c)) s3" | j where "at_start t (BorrowReload (Cell c) a j) s3"
    using publish_D [OF s3] r2 1 at_startD(3) by blast
  then show ?thesis
  proof cases
    case 1
    then show ?thesis
      using b s1 s2 s3 preload_not_null [OF s1 a] n3
      by (auto simp: try_borrow_from_atomic_ptr_using_hazard_pointer_def at_start_def)
  next
    case (2 j)
    then obtain s4 s5 where s4: "run o2 s3 = Next s4" and s5: "borrow_reload t s4 = Next s5" "s' = s5" "res \<noteq> Inr None"
      using b s1 s2 s3 preload_not_null [OF s1 a]
      by (auto simp: try_borrow_from_atomic_ptr_using_hazard_pointer_def at_start_def bind_outcome_Next
          split: if_splits)
    have "non_null N s4" using run_non_null [OF n3 o(4) s4] .
    then show ?thesis using reload_cells [OF s5(1)] s5(2,3) by (simp add: non_null_def)
  qed
qed

text \<open>
  C23: the \<open>unwrap\<close>s of \<open>AtomicSdarc\<close> never panic. If nobody stores null in a pointer of \<open>N\<close>, which
  its interface rules out, then after any steps of anybody a swap of it returns a handle and
  \<open>load_owned\<close> and \<open>borrow\<close> of any thread do, even when others step inside the call.
\<close>

theorem atomic_sdarc_unwraps:
  assumes "reach s" and "non_null N s" and "\<forall>l\<in>set (ls @ others1 @ others2). stores_handles N l"
    and "run ls s = Next s'" and "c \<in> N"
    and "by_others t others1" and "by_others t others2" and "by_others t others3"
  shows "atomic_swap c new s' \<noteq> Panic
    \<and> load_owned t (Cell c) others3 i s' \<noteq> Next (None, s'')
    \<and> nullable_borrow t c others1 others2 others3 i s' \<noteq> Next (None, s'')"
proof -
  have r: "reach s'" and n: "non_null N s'"
    using run_reach [OF assms(1,4)] run_non_null [OF assms(2) _ assms(4)] assms(3) by auto
  then have c: "cells s' ! c \<noteq> None" using assms(5) by (simp add: non_null_def)
  have "atomic_swap c new s' \<noteq> Panic"
    using c by (auto simp: atomic_swap_def unwrap_def nullable_swap_def ptr_swap_def bind_outcome_def)
  moreover have "load_owned t (Cell c) others3 i s' \<noteq> Next (None, s'')"
  proof
    assume l: "load_owned t (Cell c) others3 i s' = Next (None, s'')"
    then obtain s0 where s0: "load_begin t (Cell c) s' = Next s0" "load_atomic_ptr_owned t others3 i s0 = Next (None, s'')"
      by (auto simp: load_owned_def bind_outcome_Next)
    have "at_pc (thrs s0 ! t) = LoadStart (Cell c) \<and> cells s0 = cells s'"
      using s0(1) by (auto simp: load_begin_def thr_step_def split: if_splits)
    then show False using load_not_null [of s0 t c others3 i s''] s0(2) c assms(8) by simp
  qed
  moreover have "nullable_borrow t c others1 others2 others3 i s' \<noteq> Next (None, s'')"
  proof
    assume "nullable_borrow t c others1 others2 others3 i s' = Next (None, s'')"
    then obtain res s1 where b: "try_borrow_from_atomic_ptr_using_hazard_pointer t (Cell c) others1 others2 s' = Next (res, s1)"
        "(case res of Inr None \<Rightarrow> Next (None, s1) | Inr (Some g) \<Rightarrow> Next (Some (UsingHazardPtr g), s1)
          | Inl _ \<Rightarrow> bind_outcome (load_atomic_ptr_owned t others3 i s1) (\<lambda>(p, s). Next (map_option Owned p, s)))
         = Next (None, s'')"
      unfolding nullable_borrow_def borrow_from_atomic_ptr_def bind_outcome_Next by force
    have nn: "res \<noteq> Inr None" "non_null N s1"
      using try_borrow_not_null [OF r n assms(5,6,7) _ _ b(1)] assms(3) by auto
    then obtain e where e: "res = Inl e"
      using b(2) by (auto split: sum.split_asm option.split_asm)
    have "borrow_attempt t (Cell c) res s1" by (rule try_borrow_leaves [OF r assms(6,7) b(1)])
    then have "at_pc (thrs s1 ! t) = LoadStart (Cell c)" using e by (simp add: borrow_attempt_def at_start_def)
    then show False
      using load_not_null [of s1 t c others3 i s''] nn(2) assms(5,8) b(2) e
      by (auto simp: bind_outcome_Next non_null_def)
  qed
  ultimately show ?thesis by blast
qed

theorem atomic_sdarc_unwraps_witness:
  "atomic_swap 0 0 (after (run moved_on_trace (start 2 2 1))) \<noteq> Panic
    \<and> (\<forall>s. nullable_borrow 0 0 [LSwap 0 (Some 0)] [] [] 0 (after (run moved_on_trace (start 2 2 1))) \<noteq> Next (None, s))
    \<and> is_next (nullable_borrow 0 0 [LSwap 0 (Some 0)] [] [] 0 (after (run moved_on_trace (start 2 2 1))))"
proof -
  let ?s = "after (run moved_on_trace (start 2 2 1))"
  have "is_next (run moved_on_trace (start 2 2 1))" by code_simp
  then have r: "reach ?s" by (intro start_reach [where n = 2]) simp_all
  have "length (cells ?s) = 1 \<and> cells ?s ! 0 = Some 1" by code_simp
  then have n: "non_null {0} ?s" by (simp add: non_null_def)
  have l: "\<forall>l\<in>set ([] @ [LSwap 0 (Some 0)] @ []). stores_handles {0} l" by (simp add: stores_handles_def)
  have run: "run [] ?s = Next ?s" by simp
  have o: "by_others 0 [LSwap 0 (Some 0)]" "by_others 0 []" by code_simp+
  have "is_next (nullable_borrow 0 0 [LSwap 0 (Some 0)] [] [] 0 ?s)" by code_simp
  then show ?thesis using atomic_sdarc_unwraps [OF r n l run _ o(1) o(2) o(2), of 0 0 0] by simp
qed

end
