(* ===== verification/HandleCalls.thy ===== *)
theory HandleCalls
  imports CallResults
begin

text \<open>
  The calls on handles and hazard data that are not loads or borrows: the estimated counts, the
  comparison of weak handles, and claiming an entry of hazard data.
\<close>

section \<open>Estimated counts\<close>

lemma sum_of_shards_undisturbed:
  "obj_at s a = Some x \<Longrightarrow>
    sum_of_shards a ks [] acc s = Next (acc + sum_list (map (\<lambda>k. acount (shards x ! k)) ks), s)"
  by (induction ks arbitrary: acc) simp_all

lemma sum_over_indexes: "length xs = n \<Longrightarrow> map (\<lambda>k. f (xs ! k)) [0..<n] = map f xs"
  by (auto intro: nth_equalityI)

lemma undisturbed_sum_is_total:
  assumes "reach s" and "obj_at s a = Some x"
  shows "sum_of_shards a [0..<nshards s] [] 0 s = Next (int (tokens s a), s)"
proof -
  have len: "length (shards x) = nshards s" and tot: "total x = int (tokens s a)"
    using res_invD(2) [of s a x] reach_invariants [OF assms(1)] assms(2) by simp_all
  show ?thesis
    using sum_of_shards_undisturbed [of s a x "[0..<nshards s]" 0] assms(2) sum_over_indexes [OF len, of acount] tot
    by (simp add: total_def)
qed

text \<open>
  \<open>estimate_strong_count\<close> and \<open>estimate_weak_count\<close> are exact when nobody disturbs them: the
  first is the number of strong references of the object; the second that of its weak object,
  which counts the reference the object itself keeps, or zero when it was never downgraded.
\<close>

theorem estimates_exact:
  assumes "reach s" and "handles s a > 0" and "obj_at s a = Some x"
  shows "estimate_strong_count a [] s = Next (int (handles s a
      + length (filter (\<lambda>c. c = Some a) (cells s))
      + length (filter (\<lambda>th. at_pc th = LoadExit (Some a)) (thrs s))
      + length (filter (holds_weak a) (heap s))), s)
    \<and> estimate_weak_count a [] s = Next (case weak_ref x of
        None \<Rightarrow> 0
      | Some w \<Rightarrow> int (handles s w
          + length (filter (\<lambda>c. c = Some w) (cells s))
          + length (filter (\<lambda>th. at_pc th = LoadExit (Some w)) (thrs s))
          + length (filter (holds_weak w) (heap s))), s)"
proof
  have tok: "tokens s b = handles s b + length (filter (\<lambda>c. c = Some b) (cells s))
      + length (filter (\<lambda>th. at_pc th = LoadExit (Some b)) (thrs s)) + length (filter (holds_weak b) (heap s))" for b
    by (simp add: tokens_def count_where_def)
  show "estimate_strong_count a [] s = Next (int (handles s a
      + length (filter (\<lambda>c. c = Some a) (cells s))
      + length (filter (\<lambda>th. at_pc th = LoadExit (Some a)) (thrs s))
      + length (filter (holds_weak a) (heap s))), s)"
    using undisturbed_sum_is_total [OF assms(1,3)] assms(2) tok [of a]
    by (simp only: estimate_strong_count_def if_True)
  show "estimate_weak_count a [] s = Next (case weak_ref x of
        None \<Rightarrow> 0
      | Some w \<Rightarrow> int (handles s w
          + length (filter (\<lambda>c. c = Some w) (cells s))
          + length (filter (\<lambda>th. at_pc th = LoadExit (Some w)) (thrs s))
          + length (filter (holds_weak w) (heap s))), s)"
  proof (cases "weak_ref x")
    case (Some w)
    obtain y where "obj_at s w = Some y"
      using weak_ref_alive(2) [of s a x w] reach_invariants [OF assms(1)] assms(3) Some by auto
    then show ?thesis
      using undisturbed_sum_is_total [OF assms(1), of w y] assms(2,3) Some
      by (simp only: estimate_weak_count_def if_True option.case tok [of w, symmetric])
  qed (use assms in \<open>simp add: estimate_weak_count_def\<close>)
qed

definition downgraded_trace :: "label list" where
  "downgraded_trace = [LNew 0 0 0, LClone 0 1, LDowngradeInit 0 1 0 0, LDowngradeClone 0 1]"

theorem estimates_exact_witness:
  "estimate_strong_count 0 [] (after (run downgraded_trace (start 2 2 1)))
      = Next (2, after (run downgraded_trace (start 2 2 1)))
    \<and> estimate_weak_count 0 [] (after (run downgraded_trace (start 2 2 1)))
      = Next (2, after (run downgraded_trace (start 2 2 1)))"
proof -
  let ?s = "after (run downgraded_trace (start 2 2 1))"
  have "is_next (run downgraded_trace (start 2 2 1))" by code_simp
  then have r: "reach ?s" by (intro start_reach [where n = 2]) simp_all
  have h: "handles ?s 0 > 0" by code_simp
  have "obj_at ?s 0 \<noteq> None \<and> weak_ref (the (obj_at ?s 0)) = Some 1" by code_simp
  then obtain x where x: "obj_at ?s 0 = Some x" "weak_ref x = Some 1" by auto
  have n: "handles ?s 0 + length (filter (\<lambda>c. c = Some 0) (cells ?s))
      + length (filter (\<lambda>th. at_pc th = LoadExit (Some 0)) (thrs ?s)) + length (filter (holds_weak 0) (heap ?s)) = 2"
    "handles ?s 1 + length (filter (\<lambda>c. c = Some 1) (cells ?s))
      + length (filter (\<lambda>th. at_pc th = LoadExit (Some 1)) (thrs ?s)) + length (filter (holds_weak 1) (heap ?s)) = 2"
    by code_simp+
  show ?thesis using estimates_exact [OF r h x(1)] unfolding x(2) option.case n by simp
qed

text \<open>
  With others stepping between the reads the estimate may be anything: here it is negative
  although the object has one reference throughout, as the documentation warns.
\<close>

theorem estimate_may_be_negative:
  "is_next (estimate_strong_count 0 [[], [LClone 0 0, LClone 0 0, LDrop 0 1, LDrop 0 1]] (after (run [LNew 0 0 0] (start 2 1 1))))
    \<and> fst (after (estimate_strong_count 0 [[], [LClone 0 0, LClone 0 0, LDrop 0 1, LDrop 0 1]]
        (after (run [LNew 0 0 0] (start 2 1 1))))) = -1"
  by code_simp

section \<open>Comparing weak handles\<close>

text \<open>
  Comparing weak handles shallowly is right: two weak objects that can still be upgraded are the
  same exactly if they lead to the same object.
\<close>

theorem weak_ptr_eq_same_pointee:
  assumes "reach s" and "obj_at s v = Some y" and "back_ref y = Some a" and "obj_at s w = Some z"
    and "back_ref z = Some b"
  shows "weak_ptr_eq v w \<longleftrightarrow> ptr_eq a b"
proof -
  have inv: "res_inv s" using reach_invariants [OF assms(1)] by simp
  show ?thesis
    using res_invD(6) [OF inv assms(2,3)] res_invD(6) [OF inv assms(4,5)] assms
    by (auto simp: weak_ptr_eq_def ptr_eq_def)
qed

theorem weak_ptr_eq_same_pointee_witness:
  "\<not> weak_ptr_eq 1 3 \<and> \<not> ptr_eq 0 2
    \<and> is_next (run [LNew 0 0 0, LNew 2 0 0, LDowngradeInit 0 1 0 0, LDowngradeInit 2 3 0 0] (start 2 4 1))"
proof -
  let ?s = "after (run [LNew 0 0 0, LNew 2 0 0, LDowngradeInit 0 1 0 0, LDowngradeInit 2 3 0 0] (start 2 4 1))"
  have n: "is_next (run [LNew 0 0 0, LNew 2 0 0, LDowngradeInit 0 1 0 0, LDowngradeInit 2 3 0 0] (start 2 4 1))"
    by code_simp
  then have r: "reach ?s" by (intro start_reach [where n = 2]) (auto simp del: run.simps)
  have "obj_at ?s 1 \<noteq> None \<and> back_ref (the (obj_at ?s 1)) = Some 0"
    "obj_at ?s 3 \<noteq> None \<and> back_ref (the (obj_at ?s 3)) = Some 2" by code_simp+
  then obtain y z where "obj_at ?s 1 = Some y" "back_ref y = Some 0" "obj_at ?s 3 = Some z" "back_ref z = Some 2"
    by auto
  then have "weak_ptr_eq 1 3 \<longleftrightarrow> ptr_eq 0 2" by (rule weak_ptr_eq_same_pointee [OF r])
  then show ?thesis using n by (simp add: ptr_eq_def del: run.simps)
qed

section \<open>Claiming hazard data\<close>

text \<open>An entry nobody uses holds no guard and is at rest.\<close>

definition thr_at_rest :: "thr \<Rightarrow> bool" where
  "thr_at_rest th \<longleftrightarrow> at_pc th = Idle \<and> (\<forall>j. guards th j = None)"

definition unused_at_rest :: "sys \<Rightarrow> bool" where
  "unused_at_rest s \<longleftrightarrow> (\<forall>t<length (thrs s). \<not> is_used (thrs s ! t) \<longrightarrow> thr_at_rest (thrs s ! t))"

lemma release_at_rest:
  assumes inv: "res_inv s" and u: "unused_at_rest s" and r: "release_hazard_data t s = Next s'"
  shows "unused_at_rest s'"
proof -
  let ?th = "thrs s ! t"
  have t: "t < length (thrs s)" "at_pc ?th = Idle" "\<forall>j<HZ_PTR_SLOT_COUNT. view (slots ?th j) = None"
    and s': "thrs s' = (thrs s)[t := ?th\<lparr>slots := \<lambda>j. drain (slots ?th j), flag := drain (flag ?th), is_used := False\<rparr>]"
    using r by (auto simp: release_hazard_data_def thr_step_def split: if_splits)
  have ok: "thr_ok ?th" using res_invD(7) [OF inv t(1)] .
  have "guards ?th j = None" for j
    using ok t(2,3) by (cases "j < HZ_PTR_SLOT_COUNT") (auto simp: thr_ok_def slot_value_def)
  then show ?thesis
    using u t(1,2) unfolding s' unused_at_rest_def by (auto simp: thr_at_rest_def nth_list_update)
qed

lemma step_at_rest:
  assumes inv: "res_inv s" and u: "unused_at_rest s" and st: "step l s = Next s'"
  shows "unused_at_rest s'"
proof (cases "is_collector l \<or> (\<exists>t. l = LRelease t)")
  case True
  then show ?thesis
    using collector_frame [OF _ st] release_at_rest [OF inv u] st u
    by (auto simp: unused_at_rest_def drain_thr_def thr_at_rest_def)
next
  case False
  then show ?thesis
    using st u unfolding unused_at_rest_def
    by (cases l; simp only: step.simps is_collector.simps label.distinct ex_simps simp_thms;
      auto simp: memory_defs handle_defs reader_defs nth_list_update nth_append new_thr_def thr_at_rest_def
        split: option.splits if_splits pc.splits cellref.splits)
qed

lemma reach_at_rest: "reach s \<Longrightarrow> unused_at_rest s"
proof (induction rule: reach.induct)
  case (reach_start n addrs cs)
  then show ?case by (simp add: start_def unused_at_rest_def)
next
  case (reach_step s l s')
  then show ?case using step_at_rest [of s l s'] reach_invariants [of s] by blast
qed

lemma claim_scan_result:
  assumes "\<forall>t\<in>set ts. t < length (thrs s)"
  shows "claim_scan ts s = (case find (\<lambda>t. \<not> is_used (thrs s ! t)) ts of
     None \<Rightarrow> Next (None, s)
   | Some t \<Rightarrow> Next (Some t, set_thr t ((thrs s ! t)\<lparr>is_used := True\<rparr>) s))"
  using assms by (induction ts) (auto simp: hazard_data_claim_def split: option.split)

text \<open>
  C24: a thread that claims hazard data gets an entry of its own, ready for use: one that nobody was
  using, or a new one if all were taken, with its critical-section flag down, no guard and every
  hazard slot empty. The entries of the other threads stay as they are.
\<close>

theorem obtain_gives_own_entry:
  assumes "reach s"
  shows "\<exists>t s'. obtain_per_thread_shared_hazard_data s = Next (t, s') \<and> reach s' \<and> at_start t Idle s'
    \<and> (t < length (thrs s) \<and> \<not> is_used (thrs s ! t)
       \<or> t = length (thrs s) \<and> (\<forall>th\<in>set (thrs s). is_used th))
    \<and> (\<forall>u<length (thrs s). u \<noteq> t \<longrightarrow> thrs s' ! u = thrs s ! u)
    \<and> \<not> view (flag (thrs s' ! t)) \<and> (\<forall>j. guards (thrs s' ! t) j = None \<and> view (slots (thrs s' ! t) j) = None)"
proof -
  let ?f = "find (\<lambda>t. \<not> is_used (thrs s ! t)) [0..<length (thrs s)]"
  have scan: "claim_scan [0..<length (thrs s)] s = (case ?f of
     None \<Rightarrow> Next (None, s)
   | Some t \<Rightarrow> Next (Some t, set_thr t ((thrs s ! t)\<lparr>is_used := True\<rparr>) s))"
    by (rule claim_scan_result) simp
  have clean: "\<not> view (flag th) \<and> (\<forall>j. guards th j = None \<and> view (slots th j) = None)"
    if "thr_ok th" "thr_at_rest th" for th
    using that by (auto simp: thr_ok_def thr_at_rest_def slot_value_def in_critical_section_def)
  show ?thesis
  proof (cases ?f)
    case None
    let ?s = "s\<lparr>thrs := thrs s @ [new_thr]\<rparr>"
    have "obtain_per_thread_shared_hazard_data s = Next (length (thrs s), ?s)"
      using scan None by (simp add: obtain_per_thread_shared_hazard_data_def hazard_data_push_def new_thr_def)
    moreover have r: "reach ?s" using reach_step [OF assms, of LPush] by (simp add: hazard_data_push_def)
    moreover have "\<forall>th\<in>set (thrs s). is_used th"
      using None by (auto simp: find_None_iff in_set_conv_nth)
    moreover have "thr_ok new_thr" using reach_thr_ok [OF r, of "length (thrs s)"] by simp
    then have "\<not> view (flag new_thr) \<and> (\<forall>j. guards new_thr j = None \<and> view (slots new_thr j) = None)"
      by (rule clean) (simp add: thr_at_rest_def new_thr_def)
    ultimately show ?thesis
      by (intro exI [of _ "length (thrs s)"] exI [of _ ?s]) (simp add: at_start_def nth_append new_thr_def)
  next
    case (Some t)
    let ?th = "(thrs s ! t)\<lparr>is_used := True\<rparr>"
    let ?s = "set_thr t ?th s"
    have t: "t < length (thrs s)" "\<not> is_used (thrs s ! t)"
      using Some by (auto simp: find_Some_iff)
    have rest: "thr_at_rest (thrs s ! t)" using reach_at_rest [OF assms] t by (simp add: unused_at_rest_def)
    have "obtain_per_thread_shared_hazard_data s = Next (t, ?s)"
      using scan Some by (simp add: obtain_per_thread_shared_hazard_data_def)
    moreover have r: "reach ?s"
      using reach_step [OF assms, of "LClaim t"] t by (simp add: hazard_data_claim_def)
    moreover have "thr_ok ?th" using reach_thr_ok [OF r, of t] t by simp
    then have "\<not> view (flag ?th) \<and> (\<forall>j. guards ?th j = None \<and> view (slots ?th j) = None)"
      by (rule clean) (use rest in \<open>simp add: thr_at_rest_def\<close>)
    ultimately show ?thesis
      using t rest by (intro exI [of _ t] exI [of _ ?s]) (simp add: at_start_def thr_at_rest_def)
  qed
qed

text \<open>The first of two threads has given up its entry, which a third then takes.\<close>

definition given_up_trace :: "label list" where
  "given_up_trace = [LPush, LPush, LRelease 0]"

theorem obtain_gives_own_entry_witness:
  "\<exists>t s'. obtain_per_thread_shared_hazard_data (after (run given_up_trace (start 1 1 1))) = Next (t, s')
    \<and> at_start t Idle s' \<and> t = 0"
proof -
  let ?s = "after (run given_up_trace (start 1 1 1))"
  have run: "run given_up_trace (start 1 1 1) = Next ?s" and thrs: "\<exists>th. thrs ?s = [th, new_thr] \<and> \<not> is_used th"
    by (simp_all add: given_up_trace_def hazard_data_push_def release_hazard_data_def thr_step_def start_def
        new_thr_def view_def new_location_def)
  have r: "reach ?s" by (rule start_reach [OF _ run]) simp
  have u: "length (thrs ?s) = 2 \<and> is_used (thrs ?s ! 1)" "\<not> (\<forall>th\<in>set (thrs ?s). is_used th)"
    using thrs by (auto simp: new_thr_def)
  have "t = 0" if "t < length (thrs ?s) \<and> \<not> is_used (thrs ?s ! t)" for t
  proof -
    have "t < 2" using that u(1) by simp
    moreover have "t \<noteq> 1" using that u(1) by blast
    ultimately show "t = 0" by simp
  qed
  then show ?thesis using obtain_gives_own_entry [OF r] u(2) by blast
qed

end
