(* ===== verification/ShardIndex.thy ===== *)
theory ShardIndex
  imports Prelude
begin

text \<open>
  \<open>src/src/shard_index.rs\<close>: the shard count (a power of two of at most 256, fixed at start-up),
  shard indexes (an \<open>u8\<close> below the count), arrays with one element per shard, and the
  platform-specific choice of the current shard. The operating system's answer (CPU number,
  thread id hash, thread-local state) is an argument.
\<close>

section \<open>Shard count\<close>

record ShardCount =
  shard_count :: usize
  mask :: usize

definition MAX_SHARD_COUNT :: usize where
  "MAX_SHARD_COUNT = 256"

definition MIN_EXPONENT :: u32 where
  "MIN_EXPONENT = 0"

definition MAX_EXPONENT :: u32 where
  "MAX_EXPONENT = 8"

definition clamp_u32 :: "u32 \<Rightarrow> u32 \<Rightarrow> u32 \<Rightarrow> u32" where
  "clamp_u32 e lo hi = (if e < lo then lo else if hi < e then hi else e)"

definition from_exponent_adjusted :: "u32 \<Rightarrow> ShardCount" where
  "from_exponent_adjusted exponent =
     (let exponent_clamped = clamp_u32 exponent MIN_EXPONENT MAX_EXPONENT;
          n = push_bit (unat exponent_clamped) 1
      in \<lparr>shard_count = n, mask = n - 1\<rparr>)"

text \<open>The bit-counting methods of \<open>usize\<close>; \<open>ilog2\<close> is only called on non-zero numbers.\<close>

definition count_ones :: "usize \<Rightarrow> u32" where
  "count_ones w = of_nat (length (filter (bit w) [0..<64]))"

definition trailing_zeros :: "usize \<Rightarrow> u32" where
  "trailing_zeros w = of_nat (length (takeWhile (\<lambda>i. \<not> bit w i) [0..<64]))"

definition leading_zeros :: "usize \<Rightarrow> u32" where
  "leading_zeros w = of_nat (length (takeWhile (\<lambda>i. \<not> bit w i) (rev [0..<64])))"

definition ilog2 :: "usize \<Rightarrow> u32" where
  "ilog2 w = 63 - leading_zeros w"

definition from_usize_adjusted :: "usize \<Rightarrow> panic + ShardCount" where
  "from_usize_adjusted num =
     (if num = 0 then Inl AssertFailed
      else if count_ones num = 1 then Inr (from_exponent_adjusted (trailing_zeros num))
      else Inr (from_exponent_adjusted (ilog2 num + 1)))"

definition modulo :: "ShardCount \<Rightarrow> usize \<Rightarrow> u8" where
  "modulo c num = ucast (num AND mask c)"

text \<open>What a shard count built by either constructor satisfies.\<close>

definition valid_count :: "ShardCount \<Rightarrow> bool" where
  "valid_count c \<longleftrightarrow> (\<exists>e\<le>8. shard_count c = 2 ^ e \<and> mask c = 2 ^ e - 1)"

lemma unat_two_power:
  assumes "e < 64"
  shows "unat (2 ^ e :: usize) = 2 ^ e"
proof -
  have "(2::nat) ^ e < 2 ^ 64" using assms by (intro power_strict_increasing) auto
  moreover have "(2 ^ e :: usize) = of_nat (2 ^ e)" by simp
  ultimately show ?thesis by (simp only: unat_of_nat) simp
qed

lemma valid_countE:
  assumes "valid_count c"
  obtains e where "e \<le> 8" and "shard_count c = 2 ^ e" and "mask c = 2 ^ e - 1"
    and "unat (shard_count c) = 2 ^ e"
proof -
  from assms obtain e where e: "e \<le> 8" "shard_count c = 2 ^ e" "mask c = 2 ^ e - 1"
    by (auto simp: valid_count_def)
  moreover have "unat (2 ^ e :: usize) = 2 ^ e"
    using unat_two_power \<open>e \<le> 8\<close> by simp
  ultimately show ?thesis using that by simp
qed

lemma from_exponent_adjusted_eq:
  "from_exponent_adjusted e = \<lparr>shard_count = 2 ^ min (unat e) 8, mask = 2 ^ min (unat e) 8 - 1\<rparr>"
proof -
  have "unat (clamp_u32 e MIN_EXPONENT MAX_EXPONENT) = min (unat e) 8"
    by (auto simp: clamp_u32_def MIN_EXPONENT_def MAX_EXPONENT_def word_less_nat_alt)
  then show ?thesis by (simp add: from_exponent_adjusted_def Let_def push_bit_eq_mult)
qed

lemma valid_from_exponent: "valid_count (from_exponent_adjusted e)"
  by (auto simp: from_exponent_adjusted_eq valid_count_def intro!: exI [of _ "min (unat e) 8"])

lemma valid_from_usize: "from_usize_adjusted num = Inr c \<Longrightarrow> valid_count c"
  by (auto simp: from_usize_adjusted_def valid_from_exponent split: if_splits)

section \<open>Rounding up to a power of two\<close>

lemma unat_top_bit:
  assumes "bit (w :: usize) k" and "\<And>j. k < j \<Longrightarrow> \<not> bit w j"
  shows "2 ^ k \<le> unat w" and "unat w < 2 ^ Suc k"
proof -
  have bits: "bit (unat w) j \<longleftrightarrow> bit w j" for j
    by (simp add: bit_unsigned_iff)
  have "take_bit (Suc k) (unat w) = unat w"
    by (rule bit_eqI) (auto simp: bit_take_bit_iff bits, metis assms(2) not_less_eq)
  then show "unat w < 2 ^ Suc k" by (metis take_bit_nat_less_exp)
  have "drop_bit k (unat w) \<noteq> 0"
    using assms(1) bits [of k] by (metis add_0_right bit_0_eq bit_drop_bit_eq bot_apply bot_bool_def comp_apply)
  then show "2 ^ k \<le> unat w" by (simp add: drop_bit_eq_div div_eq_0_iff not_less)
qed

text \<open>The bits of a word searched from either end.\<close>

lemma upt_split: "k < n \<Longrightarrow> [0..<n] = [0..<k] @ k # [Suc k..<n]"
  using upt_add_eq_append [of 0 k "n - k"] by (simp add: upt_conv_Cons)

lemma takeWhile_upt:
  assumes "k < n" and "P k" and "\<And>i. i < k \<Longrightarrow> \<not> P i"
  shows "length (takeWhile (\<lambda>i. \<not> P i) [0..<n]) = k"
proof -
  have "[0..<n] = [0..<k] @ k # [Suc k..<n]" by (rule upt_split [OF assms(1)])
  then show ?thesis using assms(2,3) by (simp add: takeWhile_append)
qed

lemma takeWhile_rev_upt:
  assumes "k < n" and "P k" and "\<And>i. k < i \<Longrightarrow> i < n \<Longrightarrow> \<not> P i"
  shows "length (takeWhile (\<lambda>i. \<not> P i) (rev [0..<n])) = n - Suc k"
proof -
  have "[0..<n] = [0..<k] @ k # [Suc k..<n]" by (rule upt_split [OF assms(1)])
  then show ?thesis using assms by (simp add: takeWhile_append)
qed

lemma filter_eq_single_upt:
  "k < n \<Longrightarrow> filter (\<lambda>i. i < n \<and> i = k) [0..<n] = [k]"
proof (induction n)
  case 0
  then show ?case by simp
next
  case (Suc n)
  have "filter (\<lambda>i. i < Suc n \<and> i = k) [0..<n] = filter (\<lambda>i. i < n \<and> i = k) [0..<n]"
    by (rule filter_cong) auto
  moreover have "filter (\<lambda>i. i < n \<and> i = n) [0..<n] = []" by (auto simp: filter_empty_conv)
  ultimately show ?case using Suc by (cases "k = n") auto
qed

lemma top_bit_exists:
  assumes "(w :: usize) \<noteq> 0"
  obtains k where "k < 64" "bit w k" "\<And>j. k < j \<Longrightarrow> \<not> bit w j"
proof -
  let ?B = "{i. bit w i}"
  have fin: "finite ?B" by (rule finite_subset [of _ "{..<64}"]) (auto dest: bit_imp_le_length)
  obtain i where "bit w i" using assms by (metis bit_0_eq bot_apply bot_bool_def bit_eqI)
  then have "?B \<noteq> {}" by auto
  then have "Max ?B \<in> ?B" by (rule Max_in [OF fin])
  then have top: "bit w (Max ?B)" by simp
  have "\<not> bit w j" if "Max ?B < j" for j
  proof
    assume "bit w j"
    then have "j \<le> Max ?B" using Max_ge [OF fin, of j] by simp
    with that show False by simp
  qed
  moreover have "Max ?B < 64" using bit_imp_le_length [OF top] by simp
  ultimately show ?thesis using that top by blast
qed

lemma ilog2_top:
  assumes "k < 64" "bit w k" "\<And>j. k < j \<Longrightarrow> \<not> bit w j"
  shows "ilog2 w = of_nat k"
proof -
  have "length (takeWhile (\<lambda>i. \<not> bit w i) (rev [0..<64])) = 64 - Suc k"
    by (rule takeWhile_rev_upt) (use assms in auto)
  then show ?thesis using assms(1) by (simp add: ilog2_def leading_zeros_def of_nat_diff)
qed

lemma single_bit:
  assumes "count_ones w = 1"
  obtains k where "k < 64" "w = 2 ^ k" "trailing_zeros w = of_nat k"
proof -
  let ?F = "filter (bit w) [0..<64]"
  have "length ?F \<le> 64" using length_filter_le [of "bit w" "[0..<64]"] by simp
  moreover have "unat (of_nat (length ?F) :: u32) = 1"
    using assms by (simp add: count_ones_def)
  ultimately have "length ?F = 1" by (simp add: unat_of_nat)
  then obtain k where F: "?F = [k]" by (metis One_nat_def length_0_conv length_Suc_conv)
  have set: "i < 64 \<and> bit w i \<longleftrightarrow> i = k" for i
  proof -
    have "i \<in> set ?F \<longleftrightarrow> i = k" by (simp add: F)
    then show ?thesis by auto
  qed
  have "w = 2 ^ k"
    by (rule bit_eqI) (use set bit_imp_le_length in \<open>fastforce simp: bit_exp_iff\<close>)
  moreover have "length (takeWhile (\<lambda>i. \<not> bit w i) [0..<64]) = k"
  proof (rule takeWhile_upt)
    show "\<not> bit w i" if "i < k" for i using set [of i] set [of k] that by simp
  qed (use set in auto)
  ultimately show ?thesis using that [of k] set [of k] by (simp add: trailing_zeros_def)
qed

text \<open>
  \<open>from_usize_adjusted\<close> rejects zero and rounds every other number up to a power of
  two, capped at 256: below the cap the result is at least the number and less than twice it,
  so a power of two is kept as it is.
\<close>

theorem from_usize_adjusted_rounds_up:
  "if num = 0 then from_usize_adjusted num = Inl AssertFailed
   else \<exists>c e. from_usize_adjusted num = Inr c
     \<and> e \<le> 8 \<and> shard_count c = 2 ^ e \<and> mask c = 2 ^ e - 1
     \<and> (if unat num \<le> 256 then unat num \<le> 2 ^ e \<and> 2 ^ e < 2 * unat num else e = 8)"
proof (cases "num = 0")
  case True
  then show ?thesis by (simp add: from_usize_adjusted_def)
next
  case False
  define ok where "ok e \<longleftrightarrow>
      (if unat num \<le> 256 then unat num \<le> 2 ^ e \<and> 2 ^ e < 2 * unat num else e = 8)" for e :: nat
  have "\<exists>x. from_usize_adjusted num = Inr (from_exponent_adjusted x) \<and> ok (min (unat x) 8)"
  proof (cases "count_ones num = 1")
    case True
    then obtain k where k: "k < 64" "num = 2 ^ k" "trailing_zeros num = of_nat k"
      by (rule single_bit)
    have u: "unat num = 2 ^ k" using k by (simp add: unat_two_power)
    have le: "(2::nat) ^ k \<le> 2 ^ 8 \<longleftrightarrow> k \<le> 8" by (rule power_increasing_iff) simp
    have "ok (min k 8)"
      using le by (auto simp: ok_def u min_def)
    moreover have "unat (trailing_zeros num) = k" using k by (simp add: unat_of_nat)
    ultimately show ?thesis using True False by (auto simp: from_usize_adjusted_def)
  next
    case many: False
    obtain k where k: "k < 64" "bit num k" "\<And>j. k < j \<Longrightarrow> \<not> bit num j"
      using top_bit_exists [OF False] by blast
    note b = unat_top_bit [OF k(2,3)]
    have ne: "unat num \<noteq> 2 ^ k"
    proof
      assume "unat num = 2 ^ k"
      then have "num = 2 ^ k" using k(1) by (metis unat_two_power word_unat_eq_iff)
      then have "filter (bit num) [0..<64] = filter (\<lambda>i. i < 64 \<and> i = k) [0..<64]"
        using k(1) by (intro filter_cong) (auto simp: bit_exp_iff)
      then have "filter (bit num) [0..<64] = [k]"
        using filter_eq_single_upt [OF k(1)] by simp
      then show False using many by (simp add: count_ones_def)
    qed
    have "unat (ilog2 num + 1) = Suc k"
      using k(1) by (simp add: ilog2_top [OF k] unat_word_ariths unat_of_nat)
    moreover have "ok (min (Suc k) 8)"
      using b ne power_increasing_iff [of "2::nat" "Suc k" 8] power_increasing_iff [of "2::nat" 8 k]
      by (auto simp: ok_def min_def)
    ultimately show ?thesis using many False by (auto simp: from_usize_adjusted_def)
  qed
  then obtain x where "from_usize_adjusted num = Inr (from_exponent_adjusted x)"
    and "ok (min (unat x) 8)" by blast
  then show ?thesis
    using False unfolding ok_def
    by (simp only: if_False, intro exI conjI) (auto simp: from_exponent_adjusted_eq)
qed

section \<open>Shard indexes\<close>

definition shard_indexes :: "ShardCount \<Rightarrow> u8 list" where
  "shard_indexes c = map of_nat [0..<unat (shard_count c)]"

definition shard_indexes_until :: "ShardCount \<Rightarrow> u8 \<Rightarrow> panic + u8 list" where
  "shard_indexes_until c shard_index =
     (if unat shard_index \<le> unat (shard_count c)
      then Inr (map of_nat [0..<unat shard_index]) else Inl AssertFailed)"

lemma unat_modulo:
  assumes "valid_count c"
  shows "unat (modulo c num) = unat num mod unat (shard_count c)"
proof -
  from assms obtain e where e: "e \<le> 8" "mask c = 2 ^ e - 1" "unat (shard_count c) = 2 ^ e"
    by (rule valid_countE)
  have "num AND mask c = take_bit e num"
    by (simp add: e(2) take_bit_eq_mask mask_eq_exp_minus_1)
  then have "unat (num AND mask c) = take_bit e (unat num)"
    by (simp only: unsigned_take_bit_eq)
  then have "unat (num AND mask c) = unat num mod 2 ^ e"
    by (simp only: take_bit_eq_mod)
  moreover have "unat num mod 2 ^ e < 2 ^ e" by simp
  moreover have "(2::nat) ^ e \<le> 2 ^ 8" using e(1) by (intro power_increasing) auto
  ultimately have "unat num mod 2 ^ e < 256" and "unat (num AND mask c) = unat num mod 2 ^ e"
    by (simp_all add: less_le_trans [of "unat num mod 2 ^ e" "2 ^ e" 256])
  then show ?thesis
    by (simp add: modulo_def e(3) unsigned_ucast_eq take_bit_eq_mod)
qed

text \<open>
  Masking with \<open>shard_count - 1\<close> is the remainder: for every number, \<open>modulo\<close> yields
  the number modulo the shard count, which is an existing shard index and survives the
  truncation to \<open>u8\<close>; hence indexing a per-shard array with it never goes out of bounds.
\<close>

theorem modulo_is_remainder:
  assumes "valid_count c"
  shows "unat (modulo c num) = unat num mod unat (shard_count c)
    \<and> modulo c num \<in> set (shard_indexes c)"
proof -
  from assms obtain e where "unat (shard_count c) = 2 ^ e" by (rule valid_countE)
  then have "unat (modulo c num) < unat (shard_count c)"
    using unat_modulo [OF assms, of num] by simp
  then have "modulo c num \<in> set (shard_indexes c)"
    by (auto simp: shard_indexes_def image_iff intro!: bexI [of _ "unat (modulo c num)"])
  then show ?thesis using unat_modulo [OF assms] by simp
qed

theorem modulo_is_remainder_witness:
  "unat (modulo (from_exponent_adjusted 3) 29) = 5"
  using modulo_is_remainder [OF valid_from_exponent, of 3 29]
  by (simp add: from_exponent_adjusted_eq)

lemma map_of_nat_u8:
  assumes "n \<le> 256"
  shows "map unat (map of_nat [0..<n] :: u8 list) = [0..<n]"
  using assms by (auto simp: unat_of_nat intro!: nth_equalityI)

lemma count_le_256:
  assumes "valid_count c"
  shows "unat (shard_count c) \<le> 256" and "0 < unat (shard_count c)"
proof -
  from assms obtain e where e: "e \<le> 8" "unat (shard_count c) = 2 ^ e" by (rule valid_countE)
  have "(2::nat) ^ e \<le> 2 ^ 8" using e(1) by (intro power_increasing) auto
  then show "unat (shard_count c) \<le> 256" "0 < unat (shard_count c)" using e(2) by simp_all
qed

lemma map_unat_shard_indexes:
  "valid_count c \<Longrightarrow> map unat (shard_indexes c) = [0..<unat (shard_count c)]"
  unfolding shard_indexes_def by (rule map_of_nat_u8 [OF count_le_256(1)])

lemma distinct_shard_indexes:
  assumes "valid_count c"
  shows "distinct (shard_indexes c)"
proof -
  have "distinct (map unat (shard_indexes c))" by (simp only: map_unat_shard_indexes [OF assms]) simp
  then show ?thesis by (simp only: distinct_map)
qed

lemma in_shard_indexes:
  assumes "valid_count c"
  shows "s \<in> set (shard_indexes c) \<longleftrightarrow> unat s < unat (shard_count c)"
proof
  assume "s \<in> set (shard_indexes c)"
  then have "unat s \<in> set (map unat (shard_indexes c))" by simp
  then show "unat s < unat (shard_count c)" by (simp only: map_unat_shard_indexes [OF assms]) simp
next
  assume "unat s < unat (shard_count c)"
  then show "s \<in> set (shard_indexes c)"
    by (auto simp: shard_indexes_def image_iff intro!: bexI [of _ "unat s"])
qed

lemma shard_indexes_until_take:
  "unat s < unat (shard_count c) \<Longrightarrow>
    shard_indexes_until c s = Inr (take (unat s) (shard_indexes c))"
  by (simp add: shard_indexes_until_def shard_indexes_def take_map take_upt)

lemma shard_indexes_until_split:
  assumes "valid_count c" and "shard_indexes c = pre @ s # post"
  shows "shard_indexes_until c s = Inr pre"
proof -
  have n: "length pre < unat (shard_count c)"
    using arg_cong [OF assms(2), of length] by (simp add: shard_indexes_def)
  have "map unat (shard_indexes c) ! length pre = unat s" by (simp add: assms(2) nth_append)
  then have "unat s = length pre" using n map_unat_shard_indexes [OF assms(1)] by simp
  then show ?thesis using shard_indexes_until_take [of s c] n assms(2) by simp
qed

text \<open>
  \<open>shard_indexes\<close> enumerates every shard exactly once, in increasing order, for every
  valid count (at 256 shards the last index, 255, still fits in the \<open>u8\<close>), and
  \<open>shard_indexes_until\<close> is its initial segment below the given index, never panicking on an
  existing index.
\<close>

theorem shard_indexes_enumerate:
  assumes "valid_count c"
  shows "map unat (shard_indexes c) = [0..<unat (shard_count c)]
    \<and> distinct (shard_indexes c)
    \<and> (\<forall>i\<in>set (shard_indexes c).
        shard_indexes_until c i = Inr (take (unat i) (shard_indexes c)))"
  using map_unat_shard_indexes [OF assms] distinct_shard_indexes [OF assms]
    in_shard_indexes [OF assms] shard_indexes_until_take by blast

theorem shard_indexes_enumerate_witness:
  "map unat (shard_indexes (from_exponent_adjusted 2)) = [0..<4]
    \<and> shard_indexes_until (from_exponent_adjusted 2) 3
        = Inr (take 3 (shard_indexes (from_exponent_adjusted 2)))"
proof -
  have n: "unat (shard_count (from_exponent_adjusted 2)) = 4"
    by (simp add: from_exponent_adjusted_eq)
  have mem: "3 \<in> set (shard_indexes (from_exponent_adjusted 2))"
    by (simp add: shard_indexes_def n image_iff) (rule bexI [of _ 3], auto)
  show ?thesis
    using shard_indexes_enumerate [OF valid_from_exponent, of 2] mem by (auto simp: n)
qed

section \<open>One element per shard\<close>

text \<open>\<open>ShardsArr<T>\<close> is a boxed slice indexed by a shard index.\<close>

type_synonym 'a ShardsArr = "'a list"

definition shards_arr_new :: "ShardCount \<Rightarrow> (u8 \<Rightarrow> 'a) \<Rightarrow> panic + 'a ShardsArr" where
  "shards_arr_new c init_fn =
     (let vec = map init_fn (shard_indexes c)
      in if length vec = unat (shard_count c) then Inr vec else Inl AssertFailed)"

definition shards_arr_index :: "'a ShardsArr \<Rightarrow> u8 \<Rightarrow> panic + 'a" where
  "shards_arr_index arr index =
     (if unat index < length arr then Inr (arr ! unat index) else Inl IndexOutOfBounds)"

definition shards_arr_index_set :: "'a ShardsArr \<Rightarrow> u8 \<Rightarrow> 'a \<Rightarrow> panic + 'a ShardsArr" where
  "shards_arr_index_set arr index x =
     (if unat index < length arr then Inr (arr[unat index := x]) else Inl IndexOutOfBounds)"

section \<open>The current shard\<close>

text \<open>
  The four implementations of \<open>curr_shard_index\<close>. On Windows and Linux the system call's
  result is cast to \<open>usize\<close>: \<open>u32\<close> zero-extends, \<open>c_int\<close> sign-extends (so the error result
  \<open>-1\<close> of \<open>sched_getcpu\<close> becomes the last shard). The fallback reads a thread-local cache of
  the hashed thread id, which is gone during thread-local destruction.
\<close>

definition from_usize :: "ShardCount \<Rightarrow> usize \<Rightarrow> u8" where
  "from_usize c v = modulo c v"

definition from_u64 :: "ShardCount \<Rightarrow> u64 \<Rightarrow> u8" where
  "from_u64 c v = from_usize c v"

definition curr_shard_index_windows :: "ShardCount \<Rightarrow> u32 \<Rightarrow> u8" where
  "curr_shard_index_windows c cpu_index = modulo c (ucast cpu_index)"

definition curr_shard_index_linux :: "ShardCount \<Rightarrow> 32 word \<Rightarrow> u8" where
  "curr_shard_index_linux c cpu_index = modulo c (scast cpu_index)"

definition curr_shard_index_miri :: "ShardCount \<Rightarrow> u64 \<Rightarrow> u8" where
  "curr_shard_index_miri c random = from_u64 c random"

definition shard_index_from_thread_id_hash :: "ShardCount \<Rightarrow> u64 \<Rightarrow> u8" where
  "shard_index_from_thread_id_hash c hash = from_u64 c hash"

definition curr_shard_index_fallback :: "ShardCount \<Rightarrow> u64 option \<Rightarrow> u8" where
  "curr_shard_index_fallback c tls =
     (case tls of Some hash \<Rightarrow> shard_index_from_thread_id_hash c hash
      | None \<Rightarrow> from_usize c 0)"

text \<open>
  What a user of \<open>curr_shard_index\<close> relies on: whatever the environment answers, the index is
  below the shard count. Then \<open>ShardsArr::at_curr_shard\<close> cannot panic.
\<close>

definition at_curr_shard :: "'a ShardsArr \<Rightarrow> u8 \<Rightarrow> panic + 'a" where
  "at_curr_shard arr cur = shards_arr_index arr cur"

locale shard_selector =
  fixes sel :: "ShardCount \<Rightarrow> 'e \<Rightarrow> u8"
  assumes sel_bound: "valid_count c \<Longrightarrow> unat (sel c e) < unat (shard_count c)"
begin

lemma sel_in_shards: "valid_count c \<Longrightarrow> sel c e \<in> set (shard_indexes c)"
  using sel_bound [of c e]
  by (auto simp: shard_indexes_def image_iff intro!: bexI [of _ "unat (sel c e)"])

lemma at_curr_shard_finds:
  assumes "valid_count c"
  shows "\<exists>arr. shards_arr_new c f = Inr arr \<and> at_curr_shard arr (sel c e) = Inr (f (sel c e))"
  using sel_bound [OF assms, of e]
  by (simp add: shards_arr_new_def shard_indexes_def at_curr_shard_def shards_arr_index_def)

end

lemma modulo_bound:
  assumes "valid_count c"
  shows "unat (modulo c num) < unat (shard_count c)"
proof -
  from assms obtain e where "unat (shard_count c) = 2 ^ e" by (rule valid_countE)
  then show ?thesis using unat_modulo [OF assms, of num] by simp
qed

interpretation windows: shard_selector curr_shard_index_windows
  by unfold_locales (simp add: curr_shard_index_windows_def modulo_bound)

interpretation linux: shard_selector curr_shard_index_linux
  by unfold_locales (simp add: curr_shard_index_linux_def modulo_bound)

interpretation miri: shard_selector curr_shard_index_miri
  by unfold_locales (simp add: curr_shard_index_miri_def from_u64_def from_usize_def modulo_bound)

interpretation fallback: shard_selector curr_shard_index_fallback
  by unfold_locales (simp add: curr_shard_index_fallback_def shard_index_from_thread_id_hash_def
      from_u64_def from_usize_def modulo_bound split: option.split)

text \<open>
  C39: on every platform and for every answer of the operating system (an error code, a
  CPU number beyond the shard count, a thread local already destroyed), looking up the
  current shard in an array built by \<open>ShardsArr::new\<close> succeeds and yields the element
  initialised for that shard.
\<close>

theorem at_curr_shard_never_panics:
  assumes "valid_count c"
  shows "(\<exists>arr. shards_arr_new c f = Inr arr
        \<and> at_curr_shard arr (curr_shard_index_windows c cpu) = Inr (f (curr_shard_index_windows c cpu)))
    \<and> (\<exists>arr. shards_arr_new c f = Inr arr
        \<and> at_curr_shard arr (curr_shard_index_linux c ret) = Inr (f (curr_shard_index_linux c ret)))
    \<and> (\<exists>arr. shards_arr_new c f = Inr arr
        \<and> at_curr_shard arr (curr_shard_index_fallback c tls)
            = Inr (f (curr_shard_index_fallback c tls)))"
  using windows.at_curr_shard_finds [OF assms] linux.at_curr_shard_finds [OF assms]
    fallback.at_curr_shard_finds [OF assms] by blast

theorem at_curr_shard_never_panics_witness:
  "\<exists>arr. shards_arr_new (from_exponent_adjusted 2) unat = Inr arr
     \<and> at_curr_shard arr (curr_shard_index_linux (from_exponent_adjusted 2) (-1)) = Inr 3"
proof -
  have "curr_shard_index_linux (from_exponent_adjusted 2) (-1) = 3"
    by (simp add: curr_shard_index_linux_def modulo_def from_exponent_adjusted_eq)
  then show ?thesis
    using at_curr_shard_never_panics [OF valid_from_exponent, THEN conjunct2, THEN conjunct1,
      of 2 unat "-1"] by simp
qed

end
