(* ===== verification/EnvParams.thy ===== *)
theory EnvParams
  imports ShardIndex
begin

text \<open>
  \<open>src/src/env_params.rs\<close> and the start-up of the shard count in \<open>shard_index.rs\<close>. What
  \<open>env::var\<close> answers is an argument: \<open>None\<close> when the variable is unset or not valid unicode.
  \<open>str::parse\<close> on \<open>u64\<close> and \<open>usize\<close> is written out as the standard library documents it.
\<close>

section \<open>Parsing unsigned integers\<close>

datatype int_error = Empty | InvalidDigit | PosOverflow

definition is_digit :: "char \<Rightarrow> bool" where
  "is_digit ch \<longleftrightarrow> 48 \<le> (of_char ch :: nat) \<and> (of_char ch :: nat) \<le> 57"

definition digit_of :: "char \<Rightarrow> nat" where
  "digit_of ch = of_char ch - 48"

text \<open>Digit by digit with \<open>checked_mul\<close> and \<open>checked_add\<close>; both overflows are reported alike.\<close>

fun parse_digits :: "nat \<Rightarrow> string \<Rightarrow> int_error + nat" where
  "parse_digits acc [] = Inr acc"
| "parse_digits acc (ch # chs) =
     (if \<not> is_digit ch then Inl InvalidDigit
      else if 2 ^ 64 \<le> acc * 10 then Inl PosOverflow
      else if 2 ^ 64 \<le> acc * 10 + digit_of ch then Inl PosOverflow
      else parse_digits (acc * 10 + digit_of ch) chs)"

definition parse_u64 :: "string \<Rightarrow> int_error + nat" where
  "parse_u64 s =
     (case s of
        [] \<Rightarrow> Inl Empty
      | ch # chs \<Rightarrow>
          if (ch = CHR ''+'' \<or> ch = CHR ''-'') \<and> chs = [] then Inl InvalidDigit
          else if ch = CHR ''+'' then parse_digits 0 chs
          else parse_digits 0 s)"

section \<open>Collector interval and shard count\<close>

text \<open>The interval is a duration in milliseconds.\<close>

record CollectorParams =
  interval :: nat

definition DEFAULT_COLLECTOR_INTERVAL :: nat where
  "DEFAULT_COLLECTOR_INTERVAL = 500"

definition new_from_env_var :: "string option \<Rightarrow> panic + CollectorParams" where
  "new_from_env_var var =
     (case var of
        Some s \<Rightarrow> (case parse_u64 s of
            Inr num \<Rightarrow> Inr \<lparr>interval = num\<rparr>
          | Inl err \<Rightarrow> Inl ParseError)
      | None \<Rightarrow> Inr \<lparr>interval = DEFAULT_COLLECTOR_INTERVAL\<rparr>)"

definition shard_count_from_env_var :: "string option \<Rightarrow> panic + ShardCount option" where
  "shard_count_from_env_var var =
     (case var of
        Some s \<Rightarrow> (case parse_u64 s of
            Inr num \<Rightarrow>
              if unat MAX_SHARD_COUNT < num then Inl ExplicitPanic
              else if \<not> 0 < num then Inl AssertFailed
              else (case from_usize_adjusted (of_nat num) of
                  Inl p \<Rightarrow> Inl p
                | Inr c \<Rightarrow> Inr (Some c))
          | Inl err \<Rightarrow> Inl ParseError)
      | None \<Rightarrow> Inr None)"

text \<open>In a build that is not a test build the maintenance is always on.\<close>

definition disable_sharded_alloc_maintenance :: "bool \<Rightarrow> string option \<Rightarrow> bool" where
  "disable_sharded_alloc_maintenance cfg_test var = (cfg_test \<and> var \<noteq> None)"

text \<open>
  \<open>init_shard_count\<close>: the environment variable if set, else the available parallelism
  (\<open>None\<close> when the platform cannot tell), rounded.
\<close>

definition init_shard_count :: "string option \<Rightarrow> usize option \<Rightarrow> panic + ShardCount" where
  "init_shard_count var parallelism =
     (case shard_count_from_env_var var of
        Inl p \<Rightarrow> Inl p
      | Inr (Some c) \<Rightarrow> Inr c
      | Inr None \<Rightarrow>
          (let available_parallelism = (case parallelism of Some n \<Rightarrow> n | None \<Rightarrow> 1)
           in if available_parallelism = 0 then Inl AssertFailed
              else from_usize_adjusted available_parallelism))"

section \<open>Properties\<close>

text \<open>The decimal numeral of a number, the specification of what a user writes.\<close>

definition digit_char :: "nat \<Rightarrow> char" where
  "digit_char d = char_of (48 + d)"

fun decimal :: "nat \<Rightarrow> string" where
  "decimal n = (if n < 10 then [digit_char n] else decimal (n div 10) @ [digit_char (n mod 10)])"

declare decimal.simps [simp del]

lemma digit_char [simp]:
  assumes "d < 10"
  shows "is_digit (digit_char d)" and "digit_of (digit_char d) = d"
  using assms by (simp_all add: is_digit_def digit_of_def digit_char_def of_char_of)

lemma parse_digits_append:
  "parse_digits acc (xs @ ys) =
     (case parse_digits acc xs of Inl e \<Rightarrow> Inl e | Inr acc' \<Rightarrow> parse_digits acc' ys)"
  by (induction acc xs rule: parse_digits.induct) auto

lemma parse_digits_decimal:
  "parse_digits 0 (decimal n) = (if n < 2 ^ 64 then Inr n else Inl PosOverflow)"
proof (induction n rule: decimal.induct)
  case (1 n)
  show ?case
  proof (cases "n < 10")
    case True
    then show ?thesis by (simp add: decimal.simps [of n])
  next
    case False
    have split: "n div 10 * 10 + n mod 10 = n" by simp
    show ?thesis
      using "1" False split
      by (auto simp: decimal.simps [of n] parse_digits_append simp del: div_mult_mod_eq)
  qed
qed

lemma decimal_head: "\<exists>ch chs. decimal n = ch # chs \<and> is_digit ch"
proof (induction n rule: decimal.induct)
  case (1 n)
  then show ?case by (cases "n < 10") (auto simp: decimal.simps [of n])
qed

lemma parse_u64_decimal:
  "parse_u64 (decimal n) = (if n < 2 ^ 64 then Inr n else Inl PosOverflow)"
proof -
  obtain ch chs where d: "decimal n = ch # chs" and "is_digit ch" using decimal_head by blast
  then have "ch \<noteq> CHR ''+''" and "ch \<noteq> CHR ''-''" by (auto simp: is_digit_def)
  then have "parse_u64 (decimal n) = parse_digits 0 (decimal n)"
    by (simp add: parse_u64_def d)
  then show ?thesis by (simp add: parse_digits_decimal)
qed

text \<open>
  for every number a user can write in the shard count variable, the start-up either
  panics (zero, more than 256, or beyond 64 bits) or fixes the smallest power of two that is
  at least the number, whatever the platform reports as parallelism.
\<close>

theorem shard_count_variable:
  "init_shard_count (Some (decimal n)) parallelism =
     (if 2 ^ 64 \<le> n then Inl ParseError
      else if 256 < n then Inl ExplicitPanic
      else if n = 0 then Inl AssertFailed
      else from_usize_adjusted (of_nat n))"
  by (auto simp: init_shard_count_def shard_count_from_env_var_def parse_u64_decimal
      MAX_SHARD_COUNT_def split: sum.split)

text \<open>
  Without the variable, start-up never panics when the platform reports a non-zero
  parallelism or none at all, and whenever start-up yields a shard count at all it is a power
  of two between 1 and 256 with the matching mask.
\<close>

theorem init_shard_count_valid:
  "(init_shard_count var parallelism = Inr c \<longrightarrow> valid_count c)
   \<and> (parallelism \<noteq> Some 0 \<longrightarrow> (\<exists>c. init_shard_count None parallelism = Inr c \<and> valid_count c))"
proof (intro conjI impI)
  assume "init_shard_count var parallelism = Inr c"
  then show "valid_count c"
    by (auto simp: init_shard_count_def shard_count_from_env_var_def Let_def
        dest: valid_from_usize split: sum.splits option.splits if_splits)
next
  assume "parallelism \<noteq> Some 0"
  then show "\<exists>c. init_shard_count None parallelism = Inr c \<and> valid_count c"
    by (auto simp: init_shard_count_def shard_count_from_env_var_def from_usize_adjusted_def
        valid_from_exponent split: option.split)
qed

theorem init_shard_count_valid_witness:
  "\<exists>c. init_shard_count None (Some 12) = Inr c \<and> valid_count c"
  using init_shard_count_valid [of None "Some 12"] by simp

text \<open>
  The collector interval is the written number of milliseconds, 500 when the variable
  is unset; a numeral that does not fit in 64 bits, and any string that is not a numeral
  (empty, a lone sign, a stray character), panics.
\<close>

theorem collector_interval_variable:
  "new_from_env_var None = Inr \<lparr>interval = 500\<rparr>
   \<and> new_from_env_var (Some (decimal n)) =
       (if n < 2 ^ 64 then Inr \<lparr>interval = n\<rparr> else Inl ParseError)
   \<and> new_from_env_var (Some (CHR ''+'' # decimal n)) = new_from_env_var (Some (decimal n))
   \<and> new_from_env_var (Some (decimal n @ ch # chs)) =
       (if is_digit ch then new_from_env_var (Some (decimal n @ ch # chs)) else Inl ParseError)
   \<and> new_from_env_var (Some '''') = Inl ParseError
   \<and> new_from_env_var (Some ''-'') = Inl ParseError"
proof -
  obtain d ds where d: "decimal n = d # ds" and "is_digit d" using decimal_head by blast
  then have ne: "d \<noteq> CHR ''+''" "d \<noteq> CHR ''-''" by (auto simp: is_digit_def)
  have plus: "parse_u64 (CHR ''+'' # decimal n) = parse_u64 (decimal n)"
    using ne by (simp add: parse_u64_def d)
  have "parse_u64 (decimal n @ ch # chs) = parse_digits 0 (decimal n @ ch # chs)"
    using ne by (simp add: parse_u64_def d)
  then have stray: "\<exists>e. parse_u64 (decimal n @ ch # chs) = Inl e" if "\<not> is_digit ch"
    using that by (simp add: parse_digits_append parse_digits_decimal)
  show ?thesis
    using plus stray
    by (auto simp: new_from_env_var_def DEFAULT_COLLECTOR_INTERVAL_def parse_u64_decimal)
      (simp_all add: parse_u64_def)
qed

end
