(* ===== verification/ShardedAlloc.thy ===== *)
theory ShardedAlloc
  imports ShardIndex "HOL-Library.Multiset"
begin

text \<open>
  \<open>src/src/sharded_alloc.rs\<close>: an allocator of 8-byte slots, one per shard. An allocation unit
  is a block of \<open>16 * (1 + shards)\<close> 8-byte words: 16 usage flags, then for every shard 16 data
  slots. A sharded pointer is the address of a usage flag; its slot for shard \<open>s\<close> lies
  \<open>16 * (s + 1)\<close> words further. Addresses count 8-byte words. Memory is explicit: the flag
  words, the data slots (\<open>None\<close> when uninitialised or dropped) and the blocks obtained from the
  system allocator, whose choice of a block is an argument.
\<close>

section \<open>Memory and pointers\<close>

definition SLOT_COUNT_PER_UNIT :: nat where
  "SLOT_COUNT_PER_UNIT = 16"

lemma slots_16 [simp]: "SLOT_COUNT_PER_UNIT = 16"
  by (simp add: SLOT_COUNT_PER_UNIT_def)

record 'a memory =
  blocks :: "nat list"
  flags :: "nat \<Rightarrow> u64"
  vals :: "nat \<Rightarrow> 'a option"

datatype ShardedDataPtr = ShardedDataPtr (base_ptr: nat)

text \<open>Sharded pointers compare by their base address.\<close>

instantiation ShardedDataPtr :: linorder
begin

definition less_eq_ShardedDataPtr :: "ShardedDataPtr \<Rightarrow> ShardedDataPtr \<Rightarrow> bool" where
  "p \<le> q \<longleftrightarrow> base_ptr p \<le> base_ptr q"

definition less_ShardedDataPtr :: "ShardedDataPtr \<Rightarrow> ShardedDataPtr \<Rightarrow> bool" where
  "p < q \<longleftrightarrow> base_ptr p < base_ptr q"

instance
  by standard (auto simp: less_eq_ShardedDataPtr_def less_ShardedDataPtr_def
      intro: ShardedDataPtr.expand)

end

definition ptr_at_shard :: "ShardedDataPtr \<Rightarrow> u8 \<Rightarrow> nat" where
  "ptr_at_shard p shard_index = base_ptr p + SLOT_COUNT_PER_UNIT * (unat shard_index + 1)"

definition usage_flag_ptr :: "ShardedDataPtr \<Rightarrow> nat" where
  "usage_flag_ptr p = base_ptr p"

definition deallocate_without_dropping ::
    "ShardedDataPtr \<Rightarrow> 'a memory \<Rightarrow> 'a memory \<times> (panic + unit)" where
  "deallocate_without_dropping p mem =
     (let original_usage = flags mem (usage_flag_ptr p);
          mem' = mem\<lparr>flags := (flags mem)(usage_flag_ptr p := 0)\<rparr>
      in (mem', if original_usage = 1 then Inr () else Inl AssertFailed))"

section \<open>Allocation units\<close>

text \<open>A unit is represented by its data pointer, as in the code.\<close>

definition data_len :: "ShardCount \<Rightarrow> nat" where
  "data_len c = SLOT_COUNT_PER_UNIT * (1 + unat (shard_count c))"

definition USAGE_FLAG_UNUSED :: u64 where
  "USAGE_FLAG_UNUSED = 0"

definition USAGE_FLAG_USED :: u64 where
  "USAGE_FLAG_USED = 1"

definition usage_flag_valid :: "u64 \<Rightarrow> bool" where
  "usage_flag_valid v \<longleftrightarrow> v = 0 \<or> v = 1"

definition alloc_unit_new :: "nat \<Rightarrow> 'a memory \<Rightarrow> 'a memory" where
  "alloc_unit_new ptr mem =
     mem\<lparr>blocks := ptr # blocks mem,
         flags := fold (\<lambda>slot_index w. w(ptr + slot_index := USAGE_FLAG_UNUSED))
                    [0..<SLOT_COUNT_PER_UNIT] (flags mem)\<rparr>"

fun scan_slots :: "nat \<Rightarrow> nat list \<Rightarrow> 'a memory \<Rightarrow> 'a memory \<times> (panic + ShardedDataPtr option)" where
  "scan_slots data_ptr [] mem = (mem, Inr None)"
| "scan_slots data_ptr (slot_index # rest) mem =
     (let ptr = data_ptr + slot_index;
          old = flags mem ptr;
          mem' = mem\<lparr>flags := (flags mem)(ptr := USAGE_FLAG_USED)\<rparr>
      in if \<not> usage_flag_valid old then (mem', Inl AssertFailed)
         else if old = USAGE_FLAG_UNUSED then (mem', Inr (Some (ShardedDataPtr ptr)))
         else scan_slots data_ptr rest mem')"

definition allocate_without_initializing ::
    "nat \<Rightarrow> 'a memory \<Rightarrow> 'a memory \<times> (panic + ShardedDataPtr option)" where
  "allocate_without_initializing data_ptr mem = scan_slots data_ptr [0..<SLOT_COUNT_PER_UNIT] mem"

text \<open>
  Initialisation writes shard by shard. The caller's \<open>init_func\<close> may panic (\<open>None\<close>): then the
  values already written are dropped, the slot is given back and the panic goes on.
\<close>

definition drop_slots :: "ShardedDataPtr \<Rightarrow> u8 list \<Rightarrow> 'a memory \<Rightarrow> 'a memory" where
  "drop_slots p shards mem =
     mem\<lparr>vals := fold (\<lambda>s v. v(ptr_at_shard p s := None)) shards (vals mem)\<rparr>"

fun init_slots :: "ShardCount \<Rightarrow> (u8 \<Rightarrow> 'a option) \<Rightarrow> ShardedDataPtr \<Rightarrow> u8 list \<Rightarrow> 'a memory
    \<Rightarrow> 'a memory \<times> (panic + ShardedDataPtr option)" where
  "init_slots c init_func p [] mem = (mem, Inr (Some p))"
| "init_slots c init_func p (s # rest) mem =
     (case init_func s of
        Some x \<Rightarrow> init_slots c init_func p rest (mem\<lparr>vals := (vals mem)(ptr_at_shard p s := Some x)\<rparr>)
      | None \<Rightarrow>
          (case shard_indexes_until c s of
             Inl e \<Rightarrow> (mem, Inl e)
           | Inr dropping \<Rightarrow>
               (let (mem', r) = deallocate_without_dropping p (drop_slots p dropping mem)
                in (mem', case r of Inl e \<Rightarrow> Inl e | Inr _ \<Rightarrow> Inl InitPanicked))))"

definition allocate_and_initialize :: "ShardCount \<Rightarrow> (u8 \<Rightarrow> 'a option) \<Rightarrow> nat \<Rightarrow> 'a memory
    \<Rightarrow> 'a memory \<times> (panic + ShardedDataPtr option)" where
  "allocate_and_initialize c init_func data_ptr mem =
     (case allocate_without_initializing data_ptr mem of
        (mem', Inl e) \<Rightarrow> (mem', Inl e)
      | (mem', Inr None) \<Rightarrow> (mem', Inr None)
      | (mem', Inr (Some p)) \<Rightarrow> init_slots c init_func p (shard_indexes c) mem')"

fun any_flag :: "u64 \<Rightarrow> u64 list \<Rightarrow> panic + bool" where
  "any_flag wanted [] = Inr False"
| "any_flag wanted (v # vs) =
     (if \<not> usage_flag_valid v then Inl AssertFailed
      else if v = wanted then Inr True
      else any_flag wanted vs)"

definition usage_flag_atomics :: "nat \<Rightarrow> 'a memory \<Rightarrow> u64 list" where
  "usage_flag_atomics data_ptr mem =
     map (\<lambda>slot_index. flags mem (data_ptr + slot_index)) [0..<SLOT_COUNT_PER_UNIT]"

definition is_any_slot_used :: "nat \<Rightarrow> 'a memory \<Rightarrow> panic + bool" where
  "is_any_slot_used data_ptr mem = any_flag USAGE_FLAG_USED (usage_flag_atomics data_ptr mem)"

definition has_any_free_slot :: "nat \<Rightarrow> 'a memory \<Rightarrow> panic + bool" where
  "has_any_free_slot data_ptr mem = any_flag USAGE_FLAG_UNUSED (usage_flag_atomics data_ptr mem)"

definition get_unused_slot_count :: "nat \<Rightarrow> 'a memory \<Rightarrow> nat" where
  "get_unused_slot_count data_ptr mem =
     length (filter (\<lambda>v. v = USAGE_FLAG_UNUSED) (usage_flag_atomics data_ptr mem))"

definition alloc_unit_drop :: "nat \<Rightarrow> 'a memory \<Rightarrow> 'a memory \<times> (panic + unit)" where
  "alloc_unit_drop data_ptr mem =
     (case is_any_slot_used data_ptr mem of
        Inl e \<Rightarrow> (mem, Inl e)
      | Inr used \<Rightarrow>
          if used then (mem, Inl AssertFailed)
          else (mem\<lparr>blocks := remove1 data_ptr (blocks mem)\<rparr>, Inr ()))"

section \<open>Groups of units\<close>

record AllocUnitGroup =
  all_units :: "nat list"
  indexes_of_units :: "nat list"

definition group_new :: AllocUnitGroup where
  "group_new = \<lparr>all_units = [], indexes_of_units = []\<rparr>"

fun swap_remove_first :: "'b list \<Rightarrow> 'b list" where
  "swap_remove_first [] = []"
| "swap_remove_first [x] = []"
| "swap_remove_first (x # y # ys) = last (y # ys) # butlast (y # ys)"

lemma length_swap_remove_first [simp]: "length (swap_remove_first xs) = length xs - 1"
  by (cases xs rule: swap_remove_first.cases) auto

text \<open>
  The \<open>loop\<close> of \<open>AllocUnitGroup::allocate\<close>. The argument \<open>fresh\<close> is the block the system
  allocator returns if the group needs a new unit. When the initialisation of a slot in a new
  unit unwinds, the unit is dropped again before it is ever put into the group.
\<close>

function group_allocate :: "ShardCount \<Rightarrow> (u8 \<Rightarrow> 'a option) \<Rightarrow> nat \<Rightarrow> 'a memory \<Rightarrow> AllocUnitGroup
    \<Rightarrow> 'a memory \<times> AllocUnitGroup \<times> (panic + ShardedDataPtr)" where
  "group_allocate c init_func fresh mem g =
     (case indexes_of_units g of
        [] \<Rightarrow>
          (case allocate_and_initialize c init_func fresh (alloc_unit_new fresh mem) of
             (mem', Inl e) \<Rightarrow>
               (case alloc_unit_drop fresh mem' of
                  (mem'', Inl e') \<Rightarrow> (mem'', g, Inl e')
                | (mem'', Inr _) \<Rightarrow> (mem'', g, Inl e))
           | (mem', Inr None) \<Rightarrow> (mem', g, Inl UnwrapFailed)
           | (mem', Inr (Some p)) \<Rightarrow>
               (mem', \<lparr>all_units = all_units g @ [fresh],
                       indexes_of_units = [length (all_units g)]\<rparr>, Inr p))
      | unit_index # rest \<Rightarrow>
          if length (all_units g) \<le> unit_index then (mem, g, Inl IndexOutOfBounds)
          else
            (case allocate_and_initialize c init_func (all_units g ! unit_index) mem of
               (mem', Inl e) \<Rightarrow> (mem', g, Inl e)
             | (mem', Inr (Some p)) \<Rightarrow> (mem', g, Inr p)
             | (mem', Inr None) \<Rightarrow>
                 group_allocate c init_func fresh mem'
                   (g\<lparr>indexes_of_units := swap_remove_first (unit_index # rest)\<rparr>)))"
  by pat_completeness auto
termination
  by (relation "measure (\<lambda>(c, init_func, fresh, mem, g). length (indexes_of_units g))") auto

declare group_allocate.simps [simp del]

fun retain_used :: "nat list \<Rightarrow> 'a memory \<Rightarrow> 'a memory \<times> (panic + nat list)" where
  "retain_used [] mem = (mem, Inr [])"
| "retain_used (u # us) mem =
     (case is_any_slot_used u mem of
        Inl e \<Rightarrow> (mem, Inl e)
      | Inr True \<Rightarrow>
          (case retain_used us mem of
             (mem', Inl e) \<Rightarrow> (mem', Inl e)
           | (mem', Inr kept) \<Rightarrow> (mem', Inr (u # kept)))
      | Inr False \<Rightarrow>
          (case alloc_unit_drop u mem of
             (mem', Inl e) \<Rightarrow> (mem', Inl e)
           | (mem', Inr _) \<Rightarrow> retain_used us mem'))"

fun free_indexes :: "nat \<Rightarrow> nat list \<Rightarrow> 'a memory \<Rightarrow> panic + nat list" where
  "free_indexes i [] mem = Inr []"
| "free_indexes i (u # us) mem =
     (case has_any_free_slot u mem of
        Inl e \<Rightarrow> Inl e
      | Inr has \<Rightarrow>
          (case free_indexes (Suc i) us mem of
             Inl e \<Rightarrow> Inl e
           | Inr is \<Rightarrow> Inr (if has then i # is else is)))"

definition do_maintenance ::
    "'a memory \<Rightarrow> AllocUnitGroup \<Rightarrow> 'a memory \<times> (panic + AllocUnitGroup)" where
  "do_maintenance mem g =
     (case retain_used (all_units g) mem of
        (mem', Inl e) \<Rightarrow> (mem', Inl e)
      | (mem', Inr units) \<Rightarrow>
          (case free_indexes 0 units mem' of
             Inl e \<Rightarrow> (mem', Inl e)
           | Inr is \<Rightarrow> (mem', Inr \<lparr>all_units = units, indexes_of_units = is\<rparr>)))"

definition count_unused_slot_count_and_all_slot_count ::
    "'a memory \<Rightarrow> AllocUnitGroup \<Rightarrow> nat \<times> nat" where
  "count_unused_slot_count_and_all_slot_count mem g =
     (sum_list (map (\<lambda>u. get_unused_slot_count u mem) (all_units g)),
      length (all_units g) * SLOT_COUNT_PER_UNIT)"

section \<open>Layout\<close>

definition in_block :: "ShardCount \<Rightarrow> nat \<Rightarrow> nat \<Rightarrow> bool" where
  "in_block c b a \<longleftrightarrow> b \<le> a \<and> a < b + data_len c"

definition disjoint_blocks :: "ShardCount \<Rightarrow> nat \<Rightarrow> nat \<Rightarrow> bool" where
  "disjoint_blocks c b b' \<longleftrightarrow> b + data_len c \<le> b' \<or> b' + data_len c \<le> b"

text \<open>What the memory allocator promises: a new block, cache-line aligned, apart from all others.\<close>

definition fresh_block :: "ShardCount \<Rightarrow> 'a memory \<Rightarrow> nat \<Rightarrow> bool" where
  "fresh_block c mem b \<longleftrightarrow> b mod 16 = 0 \<and> (\<forall>b'\<in>set (blocks mem). disjoint_blocks c b b')"

definition mem_ok :: "ShardCount \<Rightarrow> 'a memory \<Rightarrow> bool" where
  "mem_ok c mem \<longleftrightarrow> valid_count c \<and> distinct (blocks mem)
     \<and> (\<forall>b\<in>set (blocks mem). b mod 16 = 0 \<and> (\<forall>k<16. usage_flag_valid (flags mem (b + k))))
     \<and> (\<forall>b\<in>set (blocks mem). \<forall>b'\<in>set (blocks mem). b \<noteq> b' \<longrightarrow> disjoint_blocks c b b')"

definition slot_of :: "'a memory \<Rightarrow> ShardedDataPtr \<Rightarrow> bool" where
  "slot_of mem p \<longleftrightarrow> (\<exists>b\<in>set (blocks mem). \<exists>k<16. base_ptr p = b + k)"

lemma layout_apart:
  assumes "mem_ok c mem" and "slot_of mem p" and "slot_of mem q"
    and "s \<in> set (shard_indexes c)" and "t \<in> set (shard_indexes c)"
  shows "(ptr_at_shard p s = ptr_at_shard q t \<longleftrightarrow> p = q \<and> s = t)
    \<and> ptr_at_shard p s \<noteq> usage_flag_ptr q
    \<and> (\<exists>b\<in>set (blocks mem). in_block c b (ptr_at_shard p s) \<and> in_block c b (usage_flag_ptr p))
    \<and> (s \<noteq> t \<longrightarrow> ptr_at_shard p s div 16 \<noteq> ptr_at_shard q t div 16)"
proof -
  obtain b k where p: "b \<in> set (blocks mem)" "k < 16" "base_ptr p = b + k"
    using assms(2) by (auto simp: slot_of_def)
  obtain d l where q: "d \<in> set (blocks mem)" "l < 16" "base_ptr q = d + l"
    using assms(3) by (auto simp: slot_of_def)
  have v: "valid_count c" using assms(1) by (simp add: mem_ok_def)
  have st: "unat s < unat (shard_count c)" "unat t < unat (shard_count c)"
    using assms(4,5) by (simp_all add: in_shard_indexes [OF v])
  have "b mod 16 = 0" "d mod 16 = 0" using assms(1) p(1) q(1) by (auto simp: mem_ok_def)
  then obtain b' d' where bd: "b = 16 * b'" "d = 16 * d'" by (metis mod_0_imp_dvd dvdE)
  have apart: "b' = d' \<or> b' + 1 + unat (shard_count c) \<le> d' \<or> d' + 1 + unat (shard_count c) \<le> b'"
  proof (cases "b = d")
    case False
    then have "disjoint_blocks c b d" using assms(1) p(1) q(1) by (auto simp: mem_ok_def)
    then show ?thesis by (auto simp: disjoint_blocks_def data_len_def bd)
  qed (simp add: bd)
  have a: "ptr_at_shard p s = 16 * (b' + unat s + 1) + k" "ptr_at_shard q t = 16 * (d' + unat t + 1) + l"
    by (simp_all add: ptr_at_shard_def p q bd)
  have lines: "b' + unat s + 1 = d' + unat t + 1 \<longleftrightarrow> b' = d' \<and> unat s = unat t"
    using apart st by auto
  have div: "ptr_at_shard p s div 16 = b' + unat s + 1" "ptr_at_shard q t div 16 = d' + unat t + 1"
    using p(2) q(2) by (simp_all add: a)
  have same: "ptr_at_shard p s = ptr_at_shard q t \<longleftrightarrow> p = q \<and> s = t"
  proof
    assume eq: "ptr_at_shard p s = ptr_at_shard q t"
    then have "b' = d' \<and> unat s = unat t" using div lines by simp
    then show "p = q \<and> s = t"
      using eq a p(3) q(3) bd by (auto simp: word_unat_eq_iff intro: ShardedDataPtr.expand)
  qed simp
  have flag: "ptr_at_shard p s \<noteq> usage_flag_ptr q"
    using apart st p(2) q(2) by (auto simp: a usage_flag_ptr_def q(3) bd)
  have inside: "in_block c b (ptr_at_shard p s) \<and> in_block c b (usage_flag_ptr p)"
    using st p(2) by (auto simp: a in_block_def data_len_def usage_flag_ptr_def p(3) bd)
  show ?thesis using same flag inside p(1) div lines by (auto simp: word_unat_eq_iff)
qed

text \<open>
  C31: the layout keeps slots apart. Inside the blocks the allocator owns, distinct pairs of
  a slot and a shard have distinct addresses, a data slot is never a usage flag, every data
  slot lies inside its block, and the data of two different shards never share a 128-byte
  cache line, whichever slots they belong to.
\<close>

theorem layout_disjoint:
  assumes "mem_ok c mem" and "slot_of mem p" and "slot_of mem q"
    and "s \<in> set (shard_indexes c)" and "t \<in> set (shard_indexes c)"
  shows "(ptr_at_shard p s = ptr_at_shard q t \<longleftrightarrow> p = q \<and> s = t)
    \<and> ptr_at_shard p s \<noteq> usage_flag_ptr q
    \<and> (\<exists>b\<in>set (blocks mem). in_block c b (ptr_at_shard p s) \<and> in_block c b (usage_flag_ptr p))
    \<and> (s \<noteq> t \<longrightarrow> ptr_at_shard p s div 16 \<noteq> ptr_at_shard q t div 16)"
  using assms by (rule layout_apart)

theorem layout_disjoint_witness:
  "ptr_at_shard (ShardedDataPtr 33) 0 \<noteq> ptr_at_shard (ShardedDataPtr 34) 1"
proof -
  let ?c = "from_exponent_adjusted 1"
  let ?mem = "alloc_unit_new 32 \<lparr>blocks = [], flags = \<lambda>_. 0, vals = (\<lambda>_. None :: nat option)\<rparr>"
  have n: "unat (shard_count ?c) = 2" by (simp add: from_exponent_adjusted_eq)
  have "flags ?mem a = 0" for a
    by (simp add: alloc_unit_new_def USAGE_FLAG_UNUSED_def upt_rec)
  then have "mem_ok ?c ?mem"
    by (simp add: mem_ok_def valid_from_exponent usage_flag_valid_def alloc_unit_new_def)
  moreover have "slot_of ?mem (ShardedDataPtr 33)" "slot_of ?mem (ShardedDataPtr 34)"
    by (simp_all add: slot_of_def alloc_unit_new_def)
  moreover have "0 \<in> set (shard_indexes ?c)" "1 \<in> set (shard_indexes ?c)"
    by (simp_all add: in_shard_indexes valid_from_exponent n)
  ultimately show ?thesis using layout_disjoint [of ?c ?mem] by fastforce
qed

lemma ptr_at_shard_inject:
  assumes "mem_ok c mem" and "slot_of mem p" and "slot_of mem q"
    and "s \<in> set (shard_indexes c)" and "t \<in> set (shard_indexes c)"
  shows "ptr_at_shard p s = ptr_at_shard q t \<longleftrightarrow> p = q \<and> s = t"
  using layout_apart [OF assms] by simp

section \<open>Writing a list of addresses\<close>

lemma fold_upd_other:
  "a \<notin> f ` set xs \<Longrightarrow> fold (\<lambda>x w. w(f x := g x)) xs w a = w a"
  by (induction xs arbitrary: w) auto

lemma fold_upd_changed:
  "fold (\<lambda>x w. w(f x := g x)) xs w a \<noteq> w a \<Longrightarrow> a \<in> f ` set xs"
  by (rule ccontr) (simp add: fold_upd_other)

lemma fold_upd_in:
  assumes "inj_on f (set xs)" and "distinct xs" and "x \<in> set xs"
  shows "fold (\<lambda>x w. w(f x := g x)) xs w (f x) = g x"
  using assms
proof (induction xs arbitrary: w)
  case Nil
  then show ?case by simp
next
  case (Cons y ys)
  show ?case
  proof (cases "x = y")
    case True
    with Cons.prems have "f x \<notin> f ` set ys" by (auto simp: inj_on_def)
    then show ?thesis using True fold_upd_other [of "f x" f ys g] by (simp del: fun_upd_apply) simp
  next
    case False
    then show ?thesis using Cons by simp
  qed
qed

lemma fold_upd_twice:
  "fold (\<lambda>x w. w(f x := h)) xs (fold (\<lambda>x w. w(f x := g x)) xs w) = fold (\<lambda>x w. w(f x := h)) xs w"
proof (rule ext)
  fix a
  have same: "fold (\<lambda>x w. w(f x := h)) ys w a = (if a \<in> f ` set ys then h else w a)" for ys w
    by (induction ys arbitrary: w) auto
  show "fold (\<lambda>x w. w(f x := h)) xs (fold (\<lambda>x w. w(f x := g x)) xs w) a
    = fold (\<lambda>x w. w(f x := h)) xs w a"
    by (simp add: same fold_upd_other)
qed

lemma inj_ptr_at_shard: "inj_on (ptr_at_shard p) A"
  by (auto simp: inj_on_def ptr_at_shard_def word_unat_eq_iff)

section \<open>Taking a slot of a unit\<close>

lemma alloc_unit_new_flags:
  "flags (alloc_unit_new b mem) a = (if b \<le> a \<and> a < b + 16 then 0 else flags mem a)"
proof (cases "b \<le> a \<and> a < b + 16")
  case True
  then have "a = (\<lambda>k. b + k) (a - b)" "a - b \<in> set [0..<16]" by auto
  then show ?thesis
    using True fold_upd_in [of "\<lambda>k. b + k" "[0..<16]" "a - b" "\<lambda>_. 0"]
    by (simp add: alloc_unit_new_def USAGE_FLAG_UNUSED_def)
next
  case False
  then have "a \<notin> (\<lambda>k. b + k) ` set [0..<16]" by auto
  then show ?thesis
    using False by (auto simp: alloc_unit_new_def USAGE_FLAG_UNUSED_def fold_upd_other)
qed

lemma alloc_unit_new_simps [simp]:
  "blocks (alloc_unit_new b mem) = b # blocks mem"
  "vals (alloc_unit_new b mem) = vals mem"
  by (simp_all add: alloc_unit_new_def)

lemma scan_slots_spec:
  assumes "\<And>k. k \<in> set ks \<Longrightarrow> usage_flag_valid (flags mem (u + k))"
  shows "scan_slots u ks mem =
    (case find (\<lambda>k. flags mem (u + k) = 0) ks of
       None \<Rightarrow> (mem, Inr None)
     | Some k \<Rightarrow> (mem\<lparr>flags := (flags mem)(u + k := 1)\<rparr>, Inr (Some (ShardedDataPtr (u + k)))))"
  using assms
proof (induction ks)
  case Nil
  then show ?case by simp
next
  case (Cons k ks)
  have v: "usage_flag_valid (flags mem (u + k))" using Cons.prems by simp
  show ?case
  proof (cases "flags mem (u + k) = 0")
    case True
    then show ?thesis using v by (simp add: USAGE_FLAG_UNUSED_def USAGE_FLAG_USED_def Let_def)
  next
    case False
    then have "mem\<lparr>flags := (flags mem)(u + k := 1)\<rparr> = mem"
      using v by (simp add: usage_flag_valid_def fun_upd_idem)
    then show ?thesis
      using False v Cons by (simp add: USAGE_FLAG_UNUSED_def USAGE_FLAG_USED_def Let_def)
  qed
qed

lemma init_slots_prefix:
  assumes "\<And>s. s \<in> set xs \<Longrightarrow> init_func s \<noteq> None"
  shows "init_slots c init_func p (xs @ rest) mem =
    init_slots c init_func p rest
      (mem\<lparr>vals := fold (\<lambda>s v. v(ptr_at_shard p s := init_func s)) xs (vals mem)\<rparr>)"
  using assms
proof (induction xs arbitrary: mem)
  case Nil
  then show ?case by simp
next
  case (Cons s xs)
  then obtain x where "init_func s = Some x" by fastforce
  then show ?case using Cons by (simp del: fun_upd_apply)
qed

lemma init_slots_total:
  assumes "\<And>s. s \<in> set shards \<Longrightarrow> init_func s \<noteq> None"
  shows "init_slots c init_func p shards mem =
    (mem\<lparr>vals := fold (\<lambda>s v. v(ptr_at_shard p s := init_func s)) shards (vals mem)\<rparr>, Inr (Some p))"
  using init_slots_prefix [OF assms, where rest = "[]"] by (simp del: fun_upd_apply)

lemma init_slots_unwinds:
  assumes "\<And>s. s \<in> set pre \<Longrightarrow> init_func s \<noteq> None" and "init_func s = None"
    and "shard_indexes_until c s = Inr pre" and "flags mem (base_ptr p) = 1"
  shows "init_slots c init_func p (pre @ s # post) mem =
    (mem\<lparr>vals := fold (\<lambda>s v. v(ptr_at_shard p s := None)) pre (vals mem),
         flags := (flags mem)(base_ptr p := 0)\<rparr>, Inl InitPanicked)"
proof -
  have "init_slots c init_func p (pre @ s # post) mem = init_slots c init_func p (s # post)
      (mem\<lparr>vals := fold (\<lambda>s v. v(ptr_at_shard p s := init_func s)) pre (vals mem)\<rparr>)"
    by (rule init_slots_prefix) (rule assms(1))
  then show ?thesis
    using assms(2-4)
    by (simp add: drop_slots_def deallocate_without_dropping_def usage_flag_ptr_def Let_def
        fold_upd_twice del: fun_upd_apply)
qed

lemma any_flag_spec:
  assumes "\<And>v. v \<in> set vs \<Longrightarrow> usage_flag_valid v"
  shows "any_flag wanted vs = Inr (wanted \<in> set vs)"
  using assms by (induction vs) auto


section \<open>Live slots\<close>

definition live :: "'a memory \<Rightarrow> ShardedDataPtr set" where
  "live mem = {p. slot_of mem p \<and> flags mem (base_ptr p) = 1}"

definition keeps :: "ShardCount \<Rightarrow> 'a memory \<Rightarrow> 'a memory \<Rightarrow> bool" where
  "keeps c mem mem' \<longleftrightarrow> (\<forall>p\<in>live mem. \<forall>s\<in>set (shard_indexes c).
     vals mem' (ptr_at_shard p s) = vals mem (ptr_at_shard p s))"

lemma keeps_refl [simp]: "keeps c mem mem"
  by (simp add: keeps_def)

lemma mem_ok_cong:
  assumes "mem_ok c mem" and "blocks mem' = blocks mem"
    and "\<And>a. flags mem' a = flags mem a \<or> usage_flag_valid (flags mem' a)"
  shows "mem_ok c mem'"
  using assms unfolding mem_ok_def by (metis (no_types, lifting))

lemma slot_of_cong: "blocks mem' = blocks mem \<Longrightarrow> slot_of mem' p = slot_of mem p"
  by (simp add: slot_of_def)

lemma keeps_if_elsewhere:
  assumes "mem_ok c mem" and "slot_of mem p" and "p \<notin> live mem"
    and "\<And>a. vals mem' a \<noteq> vals mem a \<Longrightarrow> \<exists>s\<in>set (shard_indexes c). a = ptr_at_shard p s"
  shows "keeps c mem mem'"
  unfolding keeps_def
proof (intro ballI)
  fix q t
  assume q: "q \<in> live mem" "t \<in> set (shard_indexes c)"
  show "vals mem' (ptr_at_shard q t) = vals mem (ptr_at_shard q t)"
  proof (rule ccontr)
    assume "vals mem' (ptr_at_shard q t) \<noteq> vals mem (ptr_at_shard q t)"
    then obtain s where s: "s \<in> set (shard_indexes c)" "ptr_at_shard q t = ptr_at_shard p s"
      using assms(4) by blast
    have "slot_of mem q" using q(1) by (simp add: live_def)
    then have "q = p"
      using ptr_at_shard_inject [OF assms(1) _ assms(2) q(2) s(1)] s(2) by simp
    then show False using q(1) assms(3) by simp
  qed
qed

section \<open>Allocating in a unit\<close>

definition total_init :: "ShardCount \<Rightarrow> (u8 \<Rightarrow> 'a option) \<Rightarrow> bool" where
  "total_init c f \<longleftrightarrow> (\<forall>s\<in>set (shard_indexes c). f s \<noteq> None)"

lemma init_slots_cases:
  assumes "valid_count c" and "flags mem (base_ptr p) = 1"
  obtains (total) "total_init c f"
      "init_slots c f p (shard_indexes c) mem =
        (mem\<lparr>vals := fold (\<lambda>s v. v(ptr_at_shard p s := f s)) (shard_indexes c) (vals mem)\<rparr>,
         Inr (Some p))"
    | (unwound) pre where "\<not> total_init c f" "set pre \<subseteq> set (shard_indexes c)"
      "init_slots c f p (shard_indexes c) mem =
        (mem\<lparr>vals := fold (\<lambda>s v. v(ptr_at_shard p s := None)) pre (vals mem),
            flags := (flags mem)(base_ptr p := 0)\<rparr>, Inl InitPanicked)"
proof (cases "total_init c f")
  case True
  then show ?thesis using total init_slots_total [of "shard_indexes c" f c p mem]
    by (simp add: total_init_def)
next
  case False
  then have "\<exists>s\<in>set (shard_indexes c). f s = None" by (simp add: total_init_def)
  then obtain pre s post where split: "shard_indexes c = pre @ s # post" "f s = None"
    "\<forall>t\<in>set pre. f t \<noteq> None"
    using split_list_first_prop [of "shard_indexes c" "\<lambda>s. f s = None"] by blast
  have "shard_indexes_until c s = Inr pre"
    by (rule shard_indexes_until_split [OF assms(1) split(1)])
  then show ?thesis
    using unwound [of pre] False split init_slots_unwinds [of pre f s c mem p post] assms(2)
    by auto
qed


lemma live_upd:
  assumes "mem_ok c mem" and "u \<in> set (blocks mem)" and "k < 16"
    and "flags mem (u + k) = 0" and "blocks mem' = blocks mem"
    and "flags mem' = (flags mem)(u + k := 1)"
  shows "ShardedDataPtr (u + k) \<notin> live mem" "live mem' = insert (ShardedDataPtr (u + k)) (live mem)"
    "slot_of mem (ShardedDataPtr (u + k))" "mem_ok c mem'"
proof -
  show s: "slot_of mem (ShardedDataPtr (u + k))" using assms by (auto simp: slot_of_def)
  show "ShardedDataPtr (u + k) \<notin> live mem" using assms by (simp add: live_def)
  show "live mem' = insert (ShardedDataPtr (u + k)) (live mem)"
    using s assms(5,6) by (auto simp: live_def slot_of_cong [of mem' mem] intro: ShardedDataPtr.expand)
  show "mem_ok c mem'"
    by (rule mem_ok_cong [OF assms(1,5)]) (simp add: assms(6) usage_flag_valid_def)
qed

lemma unit_flags_valid:
  "\<lbrakk>mem_ok c mem; u \<in> set (blocks mem); k < 16\<rbrakk> \<Longrightarrow> usage_flag_valid (flags mem (u + k))"
  by (auto simp: mem_ok_def)

lemma take_slot_cases:
  assumes "mem_ok c mem" and "u \<in> set (blocks mem)"
  obtains (full) "\<forall>k<16. flags mem (u + k) = 1"
      "allocate_without_initializing u mem = (mem, Inr None)"
    | (taken) k where "k < 16" "flags mem (u + k) = 0"
      "allocate_without_initializing u mem =
        (mem\<lparr>flags := (flags mem)(u + k := 1)\<rparr>, Inr (Some (ShardedDataPtr (u + k))))"
proof -
  have v: "usage_flag_valid (flags mem (u + k))" if "k \<in> set [0..<16]" for k
    using that unit_flags_valid [OF assms] by simp
  note spec = scan_slots_spec [of "[0..<16]" mem u, OF v]
  show ?thesis
  proof (cases "find (\<lambda>k. flags mem (u + k) = 0) [0..<16]")
    case None
    then have "\<forall>k<16. flags mem (u + k) = 1"
      using v by (auto simp: find_None_iff usage_flag_valid_def)
    then show ?thesis using full spec None by (simp add: allocate_without_initializing_def)
  next
    case (Some k)
    then have "k < 16" "flags mem (u + k) = 0" by (auto simp: find_Some_iff)
    then show ?thesis using taken spec Some by (simp add: allocate_without_initializing_def)
  qed
qed

text \<open>The result of an allocation in one unit, on every branch.\<close>

definition gets_slot :: "ShardCount \<Rightarrow> (u8 \<Rightarrow> 'a option) \<Rightarrow> ShardedDataPtr \<Rightarrow> 'a memory \<Rightarrow> 'a memory
    \<Rightarrow> bool" where
  "gets_slot c f p mem mem' \<longleftrightarrow> total_init c f \<and> p \<notin> live mem
     \<and> live mem' = insert p (live mem) \<and> keeps c mem mem'
     \<and> (\<forall>s\<in>set (shard_indexes c). vals mem' (ptr_at_shard p s) = f s)"

definition unwinds :: "ShardCount \<Rightarrow> (u8 \<Rightarrow> 'a option) \<Rightarrow> 'a memory \<Rightarrow> 'a memory \<Rightarrow> bool" where
  "unwinds c f mem mem' \<longleftrightarrow> \<not> total_init c f \<and> live mem' = live mem \<and> keeps c mem mem'"

lemma unit_allocate_cases:
  assumes ok: "mem_ok c mem" and u: "u \<in> set (blocks mem)"
  obtains (full) "\<forall>k<16. flags mem (u + k) = 1" "allocate_and_initialize c f u mem = (mem, Inr None)"
    | (got) p mem' where "allocate_and_initialize c f u mem = (mem', Inr (Some p))"
        "gets_slot c f p mem mem'" "blocks mem' = blocks mem" "mem_ok c mem'"
    | (unwound) mem' where "allocate_and_initialize c f u mem = (mem', Inl InitPanicked)"
        "unwinds c f mem mem'" "blocks mem' = blocks mem" "flags mem' = flags mem" "mem_ok c mem'"
  using take_slot_cases [OF ok u]
proof cases
  case 1
  then show ?thesis using full by (simp add: allocate_and_initialize_def)
next
  case (2 k)
  let ?p = "ShardedDataPtr (u + k)" and ?m = "mem\<lparr>flags := (flags mem)(u + k := 1)\<rparr>"
  have v: "valid_count c" using ok by (simp add: mem_ok_def)
  have "blocks ?m = blocks mem" "flags ?m = (flags mem)(u + k := 1)" by simp_all
  note m = live_upd [OF ok u 2(1,2) this]
  have elsewhere: "keeps c mem mem'" if "vals mem' = fold (\<lambda>s v. v(ptr_at_shard ?p s := g s)) ss (vals mem)"
    "set ss \<subseteq> set (shard_indexes c)" for mem' :: "'a memory" and g ss
  proof (rule keeps_if_elsewhere [OF ok m(3,1)])
    fix a assume "vals mem' a \<noteq> vals mem a"
    then have "fold (\<lambda>s v. v(ptr_at_shard ?p s := g s)) ss (vals mem) a \<noteq> vals mem a"
      unfolding that(1) .
    then have "a \<in> ptr_at_shard ?p ` set ss" by (rule fold_upd_changed)
    then show "\<exists>s\<in>set (shard_indexes c). a = ptr_at_shard ?p s" using that(2) by blast
  qed
  have "flags ?m (base_ptr ?p) = 1" by simp
  with v show ?thesis
  proof (cases rule: init_slots_cases [where f = f])
    case total
    let ?m' = "?m\<lparr>vals := fold (\<lambda>s v. v(ptr_at_shard ?p s := f s)) (shard_indexes c) (vals ?m)\<rparr>"
    have "live ?m' = live ?m" by (simp add: live_def slot_of_def)
    moreover have "vals ?m' (ptr_at_shard ?p s) = f s" if "s \<in> set (shard_indexes c)" for s
      using fold_upd_in [OF inj_ptr_at_shard distinct_shard_indexes [OF v] that, of ?p f]
      by (simp del: fun_upd_apply)
    ultimately have "gets_slot c f ?p mem ?m'"
      using total(1) m elsewhere [of ?m' f "shard_indexes c"] by (simp add: gets_slot_def)
    moreover have "mem_ok c ?m'" by (rule mem_ok_cong [OF m(4)]) simp_all
    ultimately show ?thesis
      using got [of ?m' ?p] total(2) 2(3) by (simp add: allocate_and_initialize_def)
  next
    case (unwound pre)
    let ?m' = "?m\<lparr>vals := fold (\<lambda>s v. v(ptr_at_shard ?p s := None)) pre (vals ?m),
                  flags := (flags ?m)(base_ptr ?p := 0)\<rparr>"
    have fl: "flags ?m' = flags mem" using 2(2) by auto
    then have "live ?m' = live mem" by (simp add: live_def slot_of_def)
    then have "unwinds c f mem ?m'"
      using unwound(1,2) elsewhere [of ?m' "\<lambda>_. None" pre] by (simp add: unwinds_def)
    moreover have "mem_ok c ?m'" by (rule mem_ok_cong [OF ok]) (simp_all add: 2(2))
    ultimately show ?thesis
      using that(3) [of ?m'] unwound(3) 2(3) fl by (simp add: allocate_and_initialize_def)
  qed
qed

section \<open>Allocating in a group\<close>

definition group_ok :: "ShardCount \<Rightarrow> 'a memory \<Rightarrow> AllocUnitGroup \<Rightarrow> bool" where
  "group_ok c mem g \<longleftrightarrow> mem_ok c mem \<and> set (all_units g) \<subseteq> set (blocks mem)
     \<and> (\<forall>i\<in>set (indexes_of_units g). i < length (all_units g))"

lemma set_swap_remove_first: "set (swap_remove_first xs) \<subseteq> set xs"
proof (cases xs rule: swap_remove_first.cases)
  case (3 x y ys)
  have "set (butlast (y # ys)) \<subseteq> set (y # ys)" by (meson in_set_butlastD subsetI)
  then show ?thesis using 3 last_in_set [of "y # ys"] by auto
qed simp_all

lemma fresh_block_new:
  assumes "mem_ok c mem" and "fresh_block c mem b"
  shows "mem_ok c (alloc_unit_new b mem)" "b \<notin> set (blocks mem)"
    "live (alloc_unit_new b mem) = live mem" "keeps c mem (alloc_unit_new b mem)"
proof -
  have pos: "16 \<le> data_len c" by (simp add: data_len_def)
  show nb: "b \<notin> set (blocks mem)"
    using assms(2) pos by (force simp: fresh_block_def disjoint_blocks_def)
  have apart: "\<not> (b \<le> d + k \<and> d + k < b + 16)" if "d \<in> set (blocks mem)" "k < 16" for d k
    using assms(2) that pos by (force simp: fresh_block_def disjoint_blocks_def)
  have fl: "flags (alloc_unit_new b mem) (d + k) = flags mem (d + k)"
    if "d \<in> set (blocks mem)" "k < 16" for d k
    using apart [OF that] by (auto simp: alloc_unit_new_flags)
  have own: "usage_flag_valid (flags (alloc_unit_new b mem) (b + k))" if "k < 16" for k
    using that by (simp add: alloc_unit_new_flags usage_flag_valid_def)
  have "disjoint_blocks c b' b \<and> disjoint_blocks c b b'" if "b' \<in> set (blocks mem)" for b'
    using assms(2) that by (auto simp: fresh_block_def disjoint_blocks_def)
  then show "mem_ok c (alloc_unit_new b mem)"
    using assms nb own fl by (auto simp: mem_ok_def fresh_block_def)
  have z: "flags (alloc_unit_new b mem) (b + k) = 0" if "k < 16" for k
    using that by (simp add: alloc_unit_new_flags)
  show "live (alloc_unit_new b mem) = live mem"
    using fl z by (fastforce simp: live_def slot_of_def)
  show "keeps c mem (alloc_unit_new b mem)" by (simp add: keeps_def)
qed

lemma any_slot_spec:
  assumes "mem_ok c mem" and "u \<in> set (blocks mem)"
  shows "is_any_slot_used u mem = Inr (\<exists>k<16. flags mem (u + k) = 1)"
    and "has_any_free_slot u mem = Inr (\<exists>k<16. flags mem (u + k) = 0)"
proof -
  have "usage_flag_valid v" if "v \<in> set (usage_flag_atomics u mem)" for v
    using that unit_flags_valid [OF assms] by (auto simp: usage_flag_atomics_def)
  then have "any_flag w (usage_flag_atomics u mem) = Inr (w \<in> set (usage_flag_atomics u mem))" for w
    by (rule any_flag_spec)
  moreover have "v \<in> set (usage_flag_atomics u mem) \<longleftrightarrow> (\<exists>k<16. flags mem (u + k) = v)" for v
    by (auto simp: usage_flag_atomics_def)
  ultimately show "is_any_slot_used u mem = Inr (\<exists>k<16. flags mem (u + k) = 1)"
    and "has_any_free_slot u mem = Inr (\<exists>k<16. flags mem (u + k) = 0)"
    by (simp_all add: is_any_slot_used_def has_any_free_slot_def USAGE_FLAG_USED_def
        USAGE_FLAG_UNUSED_def)
qed


definition group_grows :: "'a memory \<Rightarrow> 'a memory \<Rightarrow> AllocUnitGroup \<Rightarrow> AllocUnitGroup \<Rightarrow> nat \<Rightarrow> bool" where
  "group_grows mem mem' g g' b \<longleftrightarrow>
     (blocks mem' = blocks mem \<and> all_units g' = all_units g)
     \<or> (blocks mem' = b # blocks mem \<and> all_units g' = all_units g @ [b])"

lemma keeps_trans:
  assumes "keeps c m1 m2" and "keeps c m2 m3" and "live m1 \<subseteq> live m2"
  shows "keeps c m1 m3"
  using assms unfolding keeps_def by (metis subsetD)

lemma group_allocate_new_unit:
  assumes ok: "group_ok c mem g" and fr: "fresh_block c mem b" and e: "indexes_of_units g = []"
    and run: "group_allocate c f b mem g = (mem', g', r)"
  shows "group_ok c mem' g' \<and> group_grows mem mem' g g' b
    \<and> (case r of Inr p \<Rightarrow> gets_slot c f p mem mem' | Inl e \<Rightarrow> e = InitPanicked \<and> unwinds c f mem mem')"
proof -
  let ?n = "alloc_unit_new b mem"
  have m: "mem_ok c mem" using ok by (simp add: group_ok_def)
  note n = fresh_block_new [OF m fr]
  have units: "set (all_units g) \<subseteq> set (blocks mem)" using ok by (simp add: group_ok_def)
  have b: "b \<in> set (blocks ?n)" by simp
  show ?thesis
    using n(1) b
  proof (cases rule: unit_allocate_cases [where f = f])
    case full
    from this(1) have "flags ?n (b + 0) = 1" by (rule allE [of _ 0]) simp
    then show ?thesis by (simp add: alloc_unit_new_flags)
  next
    case (got p m')
    have "mem' = m'" "r = Inr p" "g' = \<lparr>all_units = all_units g @ [b], indexes_of_units = [length (all_units g)]\<rparr>"
      using run got(1) by (simp_all add: group_allocate.simps [of c f b mem g] e)
    moreover have "gets_slot c f p mem m'"
      using got(2) n(3) keeps_trans [OF n(4), of m'] by (auto simp: gets_slot_def)
    ultimately show ?thesis
      using got(3,4) units by (auto simp: group_ok_def group_grows_def)
  next
    case (unwound m')
    have z: "flags m' (b + k) = 0" if "k < 16" for k
      using that by (simp add: unwound(4) alloc_unit_new_flags)
    then have "is_any_slot_used b m' = Inr False"
      using any_slot_spec(1) [OF unwound(5), of b] unwound(3) by simp
    then have out: "mem' = m'\<lparr>blocks := blocks mem\<rparr>" "r = Inl InitPanicked" "g' = g"
      using run unwound(1,3)
      by (simp_all add: group_allocate.simps [of c f b mem g] e alloc_unit_drop_def)
    have "flags m' (d + k) = flags mem (d + k)" if "d \<in> set (blocks mem)" "k < 16" for d k
      using fr that by (force simp: unwound(4) alloc_unit_new_flags fresh_block_def
          disjoint_blocks_def data_len_def)
    moreover from this have "mem_ok c mem'" using m unfolding mem_ok_def by (simp add: out(1))
    ultimately have "live mem' = live mem" "mem_ok c mem'"
      by (fastforce simp: live_def slot_of_def out(1))+
    moreover have "keeps c mem mem'"
      using keeps_trans [OF n(4), of m'] unwound(2) n(3) by (simp add: unwinds_def keeps_def out(1))
    ultimately show ?thesis
      using ok unwound(2) by (simp add: out group_ok_def group_grows_def unwinds_def)
  qed
qed

lemma group_allocate_spec:
  assumes "group_ok c mem g" and "fresh_block c mem b"
    and "group_allocate c f b mem g = (mem', g', r)"
  shows "group_ok c mem' g' \<and> group_grows mem mem' g g' b
    \<and> (case r of Inr p \<Rightarrow> gets_slot c f p mem mem' | Inl e \<Rightarrow> e = InitPanicked \<and> unwinds c f mem mem')"
  using assms
proof (induction "length (indexes_of_units g)" arbitrary: g rule: less_induct)
  case less
  show ?case
  proof (cases "indexes_of_units g")
    case Nil
    then show ?thesis using group_allocate_new_unit less.prems by blast
  next
    case (Cons i rest)
    have i: "i < length (all_units g)" and m: "mem_ok c mem"
      and u: "all_units g ! i \<in> set (blocks mem)"
      using less.prems(1) Cons by (auto simp: group_ok_def)
    note body = group_allocate.simps [of c f b mem g]
    show ?thesis
      using m u
    proof (cases rule: unit_allocate_cases [where f = f])
      case full
      let ?g = "g\<lparr>indexes_of_units := swap_remove_first (i # rest)\<rparr>"
      have eq: "group_allocate c f b mem ?g = (mem', g', r)"
        using less.prems(3) full(2) i by (simp add: body Cons)
      have "group_ok c mem ?g"
        using less.prems(1) set_swap_remove_first [of "i # rest"] Cons
        by (auto simp: group_ok_def)
      then have "group_ok c mem' g' \<and> group_grows mem mem' ?g g' b
        \<and> (case r of Inr p \<Rightarrow> gets_slot c f p mem mem'
           | Inl e \<Rightarrow> e = InitPanicked \<and> unwinds c f mem mem')"
        using less.hyps [of ?g] less.prems(2) eq Cons by simp
      then show ?thesis by (simp add: group_grows_def)
    next
      case (got p m')
      then have "mem' = m'" "g' = g" "r = Inr p" using less.prems(3) i by (simp_all add: body Cons)
      then show ?thesis using got less.prems(1) by (simp add: group_ok_def group_grows_def)
    next
      case (unwound m')
      then have "mem' = m'" "g' = g" "r = Inl InitPanicked"
        using less.prems(3) i by (simp_all add: body Cons)
      then show ?thesis using unwound less.prems(1) by (simp add: group_ok_def group_grows_def)
    qed
  qed
qed

section \<open>Freeing\<close>

lemma deallocate_live:
  assumes "mem_ok c mem" and "p \<in> live mem"
    and "deallocate_without_dropping p mem = (mem', r)"
  shows "r = Inr () \<and> live mem' = live mem - {p} \<and> mem_ok c mem' \<and> vals mem' = vals mem
    \<and> blocks mem' = blocks mem"
proof -
  have out: "mem' = mem\<lparr>flags := (flags mem)(base_ptr p := 0)\<rparr>" "r = Inr ()"
    using assms(2,3) by (auto simp: deallocate_without_dropping_def usage_flag_ptr_def live_def Let_def)
  have "mem_ok c mem'"
    by (rule mem_ok_cong [OF assms(1)]) (auto simp: out usage_flag_valid_def)
  moreover have "live mem' = live mem - {p}"
    by (auto simp: live_def out slot_of_def intro: ShardedDataPtr.expand)
  ultimately show ?thesis by (simp add: out)
qed

lemma deallocate_not_live:
  assumes "mem_ok c mem" and "slot_of mem p" and "p \<notin> live mem"
    and "deallocate_without_dropping p mem = (mem', r)"
  shows "r = Inl AssertFailed"
  using assms(2-4) by (auto simp: deallocate_without_dropping_def usage_flag_ptr_def live_def Let_def)

section \<open>Maintenance of a group\<close>

definition unit_used :: "'a memory \<Rightarrow> nat \<Rightarrow> bool" where
  "unit_used mem u \<longleftrightarrow> (\<exists>k<16. flags mem (u + k) = 1)"

lemma mem_ok_drop_unit:
  assumes "mem_ok c mem" and "u \<in> set (blocks mem)" and "\<not> unit_used mem u"
  defines "mem' \<equiv> mem\<lparr>blocks := remove1 u (blocks mem)\<rparr>"
  shows "mem_ok c mem'" "live mem' = live mem"
proof -
  have "set (remove1 u (blocks mem)) = set (blocks mem) - {u}"
    using assms(1) by (simp add: mem_ok_def)
  then show "mem_ok c mem'" "live mem' = live mem"
    using assms(1,3) by (fastforce simp: mem_ok_def mem'_def live_def slot_of_def unit_used_def)+
qed

lemma retain_used_spec:
  assumes "mem_ok c mem" and "distinct us" and "set us \<subseteq> set (blocks mem)"
  shows "\<exists>mem'. retain_used us mem = (mem', Inr (filter (unit_used mem) us))
    \<and> mem_ok c mem' \<and> live mem' = live mem \<and> flags mem' = flags mem \<and> vals mem' = vals mem
    \<and> mset (blocks mem') + mset (filter (\<lambda>u. \<not> unit_used mem u) us) = mset (blocks mem)"
  using assms
proof (induction us arbitrary: mem)
  case Nil
  then show ?case by simp
next
  case (Cons u us)
  have u: "u \<in> set (blocks mem)" and d: "u \<notin> set us" using Cons.prems by auto
  show ?case
  proof (cases "unit_used mem u")
    case True
    then have "is_any_slot_used u mem = Inr True"
      using any_slot_spec(1) [OF Cons.prems(1) u] by (simp add: unit_used_def)
    moreover obtain m' where "retain_used us mem = (m', Inr (filter (unit_used mem) us))"
      "mem_ok c m'" "live m' = live mem" "flags m' = flags mem" "vals m' = vals mem"
      "mset (blocks m') + mset (filter (\<lambda>u. \<not> unit_used mem u) us) = mset (blocks mem)"
      using Cons.IH [OF Cons.prems(1)] Cons.prems by auto
    ultimately show ?thesis using True by simp
  next
    case False
    let ?m = "mem\<lparr>blocks := remove1 u (blocks mem)\<rparr>"
    have used: "unit_used ?m = unit_used mem" by (simp add: unit_used_def fun_eq_iff)
    note ok = mem_ok_drop_unit [OF Cons.prems(1) u False]
    have "set us \<subseteq> set (blocks ?m)"
    proof
      fix x assume "x \<in> set us"
      moreover from this have "x \<noteq> u" using d by auto
      ultimately show "x \<in> set (blocks ?m)" using Cons.prems(3) by (auto simp: in_set_remove1)
    qed
    then obtain m' where m': "retain_used us ?m = (m', Inr (filter (unit_used mem) us))"
      "mem_ok c m'" "live m' = live mem" "flags m' = flags mem" "vals m' = vals mem"
      "mset (blocks m') + mset (filter (\<lambda>u. \<not> unit_used mem u) us) = mset (remove1 u (blocks mem))"
      using Cons.IH [OF ok(1)] Cons.prems ok(2) used by auto
    have "is_any_slot_used u mem = Inr False"
      using any_slot_spec(1) [OF Cons.prems(1) u] False by (simp add: unit_used_def)
    then show ?thesis using m' False u by (simp add: alloc_unit_drop_def)
  qed
qed

lemma free_indexes_spec:
  assumes "mem_ok c mem" and "set us \<subseteq> set (blocks mem)"
  shows "free_indexes i us mem =
    Inr (map fst (filter (\<lambda>(i, u). \<exists>k<16. flags mem (u + k) = 0) (enumerate i us)))"
  using assms by (induction us arbitrary: i) (auto simp: any_slot_spec(2))

text \<open>A group as maintenance leaves it: no unit is idle, and the units with a free slot are listed.\<close>

definition tidy :: "'a memory \<Rightarrow> AllocUnitGroup \<Rightarrow> bool" where
  "tidy mem g \<longleftrightarrow> (\<forall>u\<in>set (all_units g). unit_used mem u)
     \<and> (\<forall>i. i \<in> set (indexes_of_units g) \<longleftrightarrow>
          i < length (all_units g) \<and> (\<exists>k<16. flags mem (all_units g ! i + k) = 0))"

lemma do_maintenance_spec:
  assumes "group_ok c mem g" and "distinct (all_units g)"
    and "do_maintenance mem g = (mem', r)"
  shows "\<exists>g'. r = Inr g' \<and> group_ok c mem' g' \<and> live mem' = live mem \<and> vals mem' = vals mem
    \<and> flags mem' = flags mem \<and> tidy mem' g'
    \<and> mset (blocks mem') + mset (all_units g) = mset (blocks mem) + mset (all_units g')"
proof -
  let ?kept = "filter (unit_used mem) (all_units g)"
  have m: "mem_ok c mem" and sub: "set (all_units g) \<subseteq> set (blocks mem)"
    using assms(1) by (simp_all add: group_ok_def)
  obtain m1 where m1: "retain_used (all_units g) mem = (m1, Inr ?kept)"
    "mem_ok c m1" "live m1 = live mem" "flags m1 = flags mem" "vals m1 = vals mem"
    "mset (blocks m1) + mset (filter (\<lambda>u. \<not> unit_used mem u) (all_units g)) = mset (blocks mem)"
    using retain_used_spec [OF m assms(2) sub] by blast
  have part: "mset ?kept + mset (filter (\<lambda>u. \<not> unit_used mem u) (all_units g)) = mset (all_units g)"
    by simp
  have bal: "mset (blocks m1) + mset (all_units g) = mset (blocks mem) + mset ?kept"
    unfolding m1(6) [symmetric] part [symmetric] by (simp only: ac_simps)
  have "set ?kept \<subseteq> set (blocks m1)"
  proof
    fix u assume u: "u \<in> set ?kept"
    then have "u \<in># mset (blocks m1) + mset (filter (\<lambda>u. \<not> unit_used mem u) (all_units g))"
      unfolding m1(6) using sub by auto
    then show "u \<in> set (blocks m1)" using u by auto
  qed
  note idx = free_indexes_spec [OF m1(2) this, of 0] and kept = this
  have used: "\<And>u. u \<in> set ?kept \<Longrightarrow> unit_used mem u" by simp
  have same: "unit_used m1 = unit_used mem" by (simp add: unit_used_def fun_eq_iff m1(4))
  have mem: "i \<in> set (map fst (filter (\<lambda>(i, u). P u) (enumerate 0 us))) \<longleftrightarrow> i < length us \<and> P (us ! i)"
    for i P and us :: "nat list"
    by (force simp: in_set_enumerate_eq)
  let ?idx = "map fst (filter (\<lambda>(i, u). \<exists>k<16. flags m1 (u + k) = 0) (enumerate 0 ?kept))"
  let ?g = "\<lparr>all_units = ?kept, indexes_of_units = ?idx\<rparr>"
  have out: "mem' = m1" "r = Inr ?g" using assms(3) m1(1) idx by (auto simp: do_maintenance_def)
  note member = mem [of _ "\<lambda>u. \<exists>k<16. flags m1 (u + k) = 0" ?kept]
  have "tidy m1 ?g" using used unfolding tidy_def same by (simp add: member del: set_map)
  moreover have "group_ok c m1 ?g"
    using m1(2) kept unfolding group_ok_def by (simp add: member del: set_map set_filter)
  ultimately show ?thesis using m1(3-5) bal out by (intro exI [of _ ?g]) simp
qed

end
