(* ===== verification/FullAlloc.thy ===== *)
theory FullAlloc
  imports ShardedAlloc EnvParams
begin

text \<open>
  The second half of \<open>src/src/sharded_alloc.rs\<close>: the global allocator \<open>FullShardAlloc\<close> with one
  group of units per shard and a temporary filling group, the collector's maintenance with other
  threads allocating and freeing while it has a group swapped out, the status report, and the
  owner \<open>ShardedBox\<close>. The system allocator is the parameter \<open>sys_alloc\<close>: given the blocks in use
  it returns a new one.
\<close>

section \<open>The global allocator\<close>

record FullShardAlloc =
  groups :: "AllocUnitGroup ShardsArr"
  temp_filling_group :: AllocUnitGroup

record 'a alloc_state =
  count :: ShardCount
  sys_alloc :: "nat list \<Rightarrow> nat"
  mem_of :: "'a memory"
  full :: FullShardAlloc

definition initialize :: "ShardCount \<Rightarrow> panic + FullShardAlloc" where
  "initialize c =
     (case shards_arr_new c (\<lambda>_. group_new) of
        Inl e \<Rightarrow> Inl e
      | Inr gs \<Rightarrow> Inr \<lparr>groups = gs, temp_filling_group = group_new\<rparr>)"

definition allocate_and_init :: "u8 \<Rightarrow> (u8 \<Rightarrow> 'a option) \<Rightarrow> 'a alloc_state
    \<Rightarrow> 'a alloc_state \<times> (panic + ShardedDataPtr)" where
  "allocate_and_init cur init_func st =
     (case shards_arr_index (groups (full st)) cur of
        Inl e \<Rightarrow> (st, Inl e)
      | Inr g \<Rightarrow>
          (let (mem', g', r) = group_allocate (count st) init_func
                 (sys_alloc st (blocks (mem_of st))) (mem_of st) g
           in (st\<lparr>mem_of := mem', full := (full st)\<lparr>groups := (groups (full st))[unat cur := g']\<rparr>\<rparr>,
               r)))"

section \<open>The owner of a slot\<close>

text \<open>
  \<open>ShardedBox\<close>: reading or indexing yields \<open>None\<close> when the slot holds no initialised value,
  which would be undefined behaviour.
\<close>

definition box_index :: "ShardedDataPtr \<Rightarrow> u8 \<Rightarrow> 'a alloc_state \<Rightarrow> 'a option" where
  "box_index p s st = vals (mem_of st) (ptr_at_shard p s)"

definition box_at_curr_shard :: "ShardedDataPtr \<Rightarrow> u8 \<Rightarrow> 'a alloc_state \<Rightarrow> 'a option" where
  "box_at_curr_shard p cur st = vals (mem_of st) (ptr_at_shard p cur)"

definition box_index_mut :: "ShardedDataPtr \<Rightarrow> u8 \<Rightarrow> 'a \<Rightarrow> 'a alloc_state \<Rightarrow> 'a alloc_state" where
  "box_index_mut p s x st =
     st\<lparr>mem_of := (mem_of st)\<lparr>vals := (vals (mem_of st))(ptr_at_shard p s := Some x)\<rparr>\<rparr>"

definition box_drop :: "ShardedDataPtr \<Rightarrow> 'a alloc_state \<Rightarrow> 'a alloc_state \<times> (panic + unit)" where
  "box_drop p st =
     (let (mem', r) = deallocate_without_dropping p
            (drop_slots p (shard_indexes (count st)) (mem_of st))
      in (st\<lparr>mem_of := mem'\<rparr>, r))"

section \<open>Maintenance by the collector\<close>

text \<open>
  What other threads may do while the collector holds a shard's group aside. A thread drops
  only a box it owns, so dropping a slot that is not live is not one of its operations.
\<close>

definition is_live :: "ShardedDataPtr \<Rightarrow> 'a memory \<Rightarrow> bool" where
  "is_live p mem \<longleftrightarrow> flags mem (base_ptr p) = 1
     \<and> (\<exists>b\<in>set (blocks mem). b \<le> base_ptr p \<and> base_ptr p < b + SLOT_COUNT_PER_UNIT)"

datatype 'a client_op =
    AllocOp u8 "u8 \<Rightarrow> 'a option"
  | DropOp ShardedDataPtr

fun run_clients :: "'a client_op list \<Rightarrow> 'a alloc_state \<Rightarrow> 'a alloc_state" where
  "run_clients [] st = st"
| "run_clients (AllocOp cur init_func # ops) st =
     run_clients ops (fst (allocate_and_init cur init_func st))"
| "run_clients (DropOp p # ops) st =
     run_clients ops (if is_live p (mem_of st) then fst (box_drop p st) else st)"

definition swap_groups :: "u8 \<Rightarrow> FullShardAlloc \<Rightarrow> panic + FullShardAlloc" where
  "swap_groups s fa =
     (case shards_arr_index (groups fa) s of
        Inl e \<Rightarrow> Inl e
      | Inr g \<Rightarrow> Inr \<lparr>groups = (groups fa)[unat s := temp_filling_group fa],
                     temp_filling_group = g\<rparr>)"

definition maintain_temp :: "'a alloc_state \<Rightarrow> 'a alloc_state \<times> (panic + unit)" where
  "maintain_temp st =
     (case do_maintenance (mem_of st) (temp_filling_group (full st)) of
        (mem', Inl e) \<Rightarrow> (st\<lparr>mem_of := mem'\<rparr>, Inl e)
      | (mem', Inr g) \<Rightarrow>
          (st\<lparr>mem_of := mem', full := (full st)\<lparr>temp_filling_group := g\<rparr>\<rparr>, Inr ()))"

text \<open>
  \<open>before s\<close> and \<open>behind s\<close> are the operations of other threads between the two swaps for shard
  \<open>s\<close>, before and after the maintenance of its group.
\<close>

fun maintain_shards :: "(u8 \<Rightarrow> 'a client_op list) \<Rightarrow> (u8 \<Rightarrow> 'a client_op list) \<Rightarrow> u8 list
    \<Rightarrow> 'a alloc_state \<Rightarrow> 'a alloc_state \<times> (panic + unit)" where
  "maintain_shards before behind [] st = maintain_temp st"
| "maintain_shards before behind (s # rest) st =
     (case swap_groups s (full st) of
        Inl e \<Rightarrow> (st, Inl e)
      | Inr fa \<Rightarrow>
          (case maintain_temp (run_clients (before s) (st\<lparr>full := fa\<rparr>)) of
             (st', Inl e) \<Rightarrow> (st', Inl e)
           | (st', Inr _) \<Rightarrow>
               (let st'' = run_clients (behind s) st'
                in case swap_groups s (full st'') of
                     Inl e \<Rightarrow> (st'', Inl e)
                   | Inr fa' \<Rightarrow> maintain_shards before behind rest (st''\<lparr>full := fa'\<rparr>))))"

definition do_maintenance_by_collector :: "bool \<Rightarrow> (u8 \<Rightarrow> 'a client_op list)
    \<Rightarrow> (u8 \<Rightarrow> 'a client_op list) \<Rightarrow> 'a alloc_state \<Rightarrow> 'a alloc_state \<times> (panic + unit)" where
  "do_maintenance_by_collector disabled before behind st =
     (if disabled then (st, Inr ())
      else maintain_shards before behind (shard_indexes (count st)) st)"

section \<open>Status report\<close>

record ShardedAllocStatusReport =
  per_shard :: "(nat \<times> nat) list"
  filling_group :: "nat \<times> nat"
  total_used_slot_count :: nat
  fragment_rate :: "nat \<times> nat"

text \<open>The fragment rate is the quotient of a pair; the code divides in \<open>f64\<close>.\<close>

definition get_status_report :: "'a alloc_state \<Rightarrow> ShardedAllocStatusReport" where
  "get_status_report st =
     (let counts = count_unused_slot_count_and_all_slot_count (mem_of st);
          per = map counts (groups (full st));
          filling = counts (temp_filling_group (full st));
          total_unused = sum_list (map fst per) + fst filling;
          total_slots = sum_list (map snd per) + snd filling
      in \<lparr>per_shard = per, filling_group = filling,
          total_used_slot_count = total_slots - total_unused,
          fragment_rate = (if total_slots \<noteq> 0 then (total_unused, total_slots) else (0, 1))\<rparr>)"

section \<open>The invariant\<close>

definition good_sys_alloc :: "ShardCount \<Rightarrow> (nat list \<Rightarrow> nat) \<Rightarrow> bool" where
  "good_sys_alloc c alloc \<longleftrightarrow>
     (\<forall>bs. alloc bs mod 16 = 0 \<and> (\<forall>b\<in>set bs. disjoint_blocks c (alloc bs) b))"

definition units_of :: "FullShardAlloc \<Rightarrow> nat multiset" where
  "units_of fa = sum_list (map (\<lambda>g. mset (all_units g)) (groups fa))
     + mset (all_units (temp_filling_group fa))"

definition index_ok :: "AllocUnitGroup \<Rightarrow> bool" where
  "index_ok g \<longleftrightarrow> (\<forall>i\<in>set (indexes_of_units g). i < length (all_units g))"

text \<open>Every block in use is a unit of exactly one group: none is lost, none shared.\<close>

definition alloc_inv :: "'a alloc_state \<Rightarrow> bool" where
  "alloc_inv st \<longleftrightarrow> good_sys_alloc (count st) (sys_alloc st) \<and> mem_ok (count st) (mem_of st)
     \<and> length (groups (full st)) = unat (shard_count (count st))
     \<and> units_of (full st) = mset (blocks (mem_of st))
     \<and> (\<forall>g\<in>set (groups (full st)). index_ok g) \<and> index_ok (temp_filling_group (full st))"

abbreviation live_ptrs :: "'a alloc_state \<Rightarrow> ShardedDataPtr set" where
  "live_ptrs st \<equiv> live (mem_of st)"

lemma alloc_invD:
  assumes "alloc_inv st"
  shows "good_sys_alloc (count st) (sys_alloc st)" "mem_ok (count st) (mem_of st)"
    "length (groups (full st)) = unat (shard_count (count st))"
    "units_of (full st) = mset (blocks (mem_of st))"
    "\<And>g. g \<in> set (groups (full st)) \<Longrightarrow> index_ok g" "index_ok (temp_filling_group (full st))"
  using assms by (auto simp: alloc_inv_def)

lemma fresh_from_sys_alloc:
  "good_sys_alloc c alloc \<Longrightarrow> fresh_block c mem (alloc (blocks mem))"
  by (simp add: good_sys_alloc_def fresh_block_def)

lemma units_of_member:
  "g \<in> set (groups fa) \<Longrightarrow> mset (all_units g) \<subseteq># units_of fa"
  "mset (all_units (temp_filling_group fa)) \<subseteq># units_of fa"
proof -
  assume "g \<in> set (groups fa)"
  then obtain xs ys where "groups fa = xs @ g # ys" by (meson split_list)
  then show "mset (all_units g) \<subseteq># units_of fa"
    by (simp add: units_of_def)
qed (simp add: units_of_def)

lemma in_mset_sum: "b \<in># sum_list (map f gs) \<longleftrightarrow> (\<exists>g\<in>set gs. b \<in># f g)"
  by (induction gs) auto

lemma distinct_submset:
  assumes "mset xs \<subseteq># mset ys" and "distinct ys"
  shows "distinct xs"
proof -
  obtain zs where "mset ys = mset (xs @ zs)"
    using assms(1) by (metis ex_mset mset_append subset_mset.le_iff_add)
  then show ?thesis using mset_eq_imp_distinct_iff [of ys "xs @ zs"] assms(2) by simp
qed

lemma group_okI:
  assumes "alloc_inv st" and "index_ok g" and "mset (all_units g) \<subseteq># units_of (full st)"
  shows "group_ok (count st) (mem_of st) g" "distinct (all_units g)"
proof -
  have sub: "mset (all_units g) \<subseteq># mset (blocks (mem_of st))"
    using assms(3) alloc_invD(4) [OF assms(1)] by simp
  then show "group_ok (count st) (mem_of st) g"
    using assms(1,2) set_mset_mono [OF sub] by (simp add: group_ok_def alloc_inv_def index_ok_def)
  show "distinct (all_units g)"
    using distinct_submset [OF sub] alloc_invD(2) [OF assms(1)] by (simp add: mem_ok_def)
qed

lemma units_of_update:
  assumes "i < length (groups fa)"
  shows "units_of (fa\<lparr>groups := (groups fa)[i := g]\<rparr>) + mset (all_units (groups fa ! i))
    = units_of fa + mset (all_units g)"
  using sum_list_map_update [OF assms, of "\<lambda>g. mset (all_units g)" g]
  by (simp add: units_of_def ac_simps)


section \<open>Every operation keeps the invariant\<close>

text \<open>
  What an operation that does not end the life of a slot keeps: the invariant, the parameters
  and every value of every live slot.
\<close>

definition preserves :: "'a alloc_state \<Rightarrow> 'a alloc_state \<Rightarrow> bool" where
  "preserves st st' \<longleftrightarrow> alloc_inv st' \<and> count st' = count st \<and> sys_alloc st' = sys_alloc st
     \<and> keeps (count st) (mem_of st) (mem_of st')"

lemma allocate_and_init_spec:
  assumes inv: "alloc_inv st" and cur: "cur \<in> set (shard_indexes (count st))"
    and run: "allocate_and_init cur f st = (st', r)"
  shows "preserves st st'
    \<and> (case r of Inr p \<Rightarrow> gets_slot (count st) f p (mem_of st) (mem_of st')
       | Inl e \<Rightarrow> e = InitPanicked \<and> unwinds (count st) f (mem_of st) (mem_of st'))"
proof -
  note I = alloc_invD [OF inv]
  have v: "valid_count (count st)" using I(2) by (simp add: mem_ok_def)
  let ?i = "unat cur" and ?gs = "groups (full st)" and ?b = "sys_alloc st (blocks (mem_of st))"
  have i: "?i < length ?gs" using cur I(3) in_shard_indexes [OF v] by simp
  then have g: "?gs ! ?i \<in> set ?gs" by simp
  obtain mem' g' where ga: "group_allocate (count st) f ?b (mem_of st) (?gs ! ?i) = (mem', g', r)"
    and st': "st' = st\<lparr>mem_of := mem', full := (full st)\<lparr>groups := ?gs[?i := g']\<rparr>\<rparr>"
    using run i by (auto simp: allocate_and_init_def shards_arr_index_def split: prod.splits)
  have ok: "group_ok (count st) (mem_of st) (?gs ! ?i)"
    using group_okI(1) [OF inv I(5) [OF g] units_of_member(1) [OF g]] .
  note s = group_allocate_spec [OF ok fresh_from_sys_alloc [OF I(1)] ga]
  have "units_of (full st') = mset (blocks mem')"
    using units_of_update [OF i, of g'] I(4) s
    by (auto simp: st' group_grows_def ac_simps simp flip: union_assoc)
  moreover have "index_ok h" if "h \<in> set (?gs[?i := g'])" for h
    using set_update_subset_insert [of ?gs ?i g'] that I(5) s by (auto simp: group_ok_def index_ok_def)
  ultimately have "alloc_inv st'"
    using I s by (simp add: alloc_inv_def st' group_ok_def)
  moreover have "keeps (count st) (mem_of st) mem'"
    using s by (auto simp: gets_slot_def unwinds_def split: sum.splits)
  ultimately show ?thesis using s by (cases r) (simp_all add: preserves_def st')
qed

lemma box_drop_state:
  "fst (box_drop p st) = st\<lparr>mem_of := (mem_of st)
     \<lparr>vals := fold (\<lambda>s v. v(ptr_at_shard p s := None)) (shard_indexes (count st)) (vals (mem_of st)),
      flags := (flags (mem_of st))(base_ptr p := 0)\<rparr>\<rparr>"
  by (simp add: box_drop_def drop_slots_def deallocate_without_dropping_def usage_flag_ptr_def Let_def)

lemma box_drop_spec:
  assumes inv: "alloc_inv st" and p: "p \<in> live_ptrs st" and run: "box_drop p st = (st', r)"
  shows "r = Inr ()" "alloc_inv st'" "count st' = count st" "sys_alloc st' = sys_alloc st"
    "live_ptrs st' = live_ptrs st - {p}"
    "\<And>q s. \<lbrakk>q \<in> live_ptrs st; q \<noteq> p; s \<in> set (shard_indexes (count st))\<rbrakk> \<Longrightarrow>
      vals (mem_of st') (ptr_at_shard q s) = vals (mem_of st) (ptr_at_shard q s)"
proof -
  note I = alloc_invD [OF inv]
  have st': "st' = fst (box_drop p st)" using run by simp
  show "r = Inr ()"
    using run p by (auto simp: box_drop_def drop_slots_def deallocate_without_dropping_def
        usage_flag_ptr_def live_def Let_def)
  have "mem_ok (count st) (mem_of st')"
    by (rule mem_ok_cong [OF I(2)]) (auto simp: st' box_drop_state usage_flag_valid_def)
  then show "alloc_inv st'" using inv by (simp add: alloc_inv_def st' box_drop_state)
  show "count st' = count st" "sys_alloc st' = sys_alloc st" by (simp_all add: st' box_drop_state)
  show "live_ptrs st' = live_ptrs st - {p}"
    by (auto simp: live_def st' box_drop_state slot_of_def intro: ShardedDataPtr.expand)
  fix q s
  assume q: "q \<in> live_ptrs st" "q \<noteq> p" "s \<in> set (shard_indexes (count st))"
  have "ptr_at_shard q s \<notin> ptr_at_shard p ` set (shard_indexes (count st))"
    using ptr_at_shard_inject [OF I(2), of q p s] p q by (auto simp: live_def)
  then show "vals (mem_of st') (ptr_at_shard q s) = vals (mem_of st) (ptr_at_shard q s)"
    by (simp add: st' box_drop_state fold_upd_other)
qed

lemma box_drop_not_live:
  assumes "slot_of (mem_of st) p" and "p \<notin> live_ptrs st" and "box_drop p st = (st', r)"
  shows "r = Inl AssertFailed"
  using assms by (auto simp: box_drop_def drop_slots_def deallocate_without_dropping_def
      usage_flag_ptr_def live_def Let_def slot_of_def)

lemma swap_groups_spec:
  assumes inv: "alloc_inv st" and s: "s \<in> set (shard_indexes (count st))"
  shows "\<exists>fa. swap_groups s (full st) = Inr fa \<and> preserves st (st\<lparr>full := fa\<rparr>)"
proof -
  note I = alloc_invD [OF inv]
  have v: "valid_count (count st)" using I(2) by (simp add: mem_ok_def)
  let ?gs = "groups (full st)" and ?t = "temp_filling_group (full st)"
  have i: "unat s < length ?gs" using s I(3) in_shard_indexes [OF v] by simp
  let ?fa = "\<lparr>groups = ?gs[unat s := ?t], temp_filling_group = ?gs ! unat s\<rparr>"
  have "units_of ?fa = units_of (full st)"
    using sum_list_map_update [OF i, of "\<lambda>g. mset (all_units g)" ?t] by (simp add: units_of_def)
  moreover have "index_ok h" if "h \<in> set (?gs[unat s := ?t])" for h
    using set_update_subset_insert [of ?gs "unat s" ?t] that I(5,6) by auto
  ultimately have "alloc_inv (st\<lparr>full := ?fa\<rparr>)" using I i by (simp add: alloc_inv_def)
  then show ?thesis using i by (simp add: swap_groups_def shards_arr_index_def preserves_def)
qed

lemma maintain_temp_spec:
  assumes inv: "alloc_inv st"
  shows "\<exists>st'. maintain_temp st = (st', Inr ()) \<and> preserves st st' \<and> live_ptrs st' = live_ptrs st
    \<and> groups (full st') = groups (full st) \<and> flags (mem_of st') = flags (mem_of st)
    \<and> tidy (mem_of st') (temp_filling_group (full st'))"
proof -
  note I = alloc_invD [OF inv]
  let ?t = "temp_filling_group (full st)"
  note ok = group_okI [OF inv I(6) units_of_member(2)]
  obtain mem' r where run: "do_maintenance (mem_of st) ?t = (mem', r)" by fastforce
  obtain g' where g': "r = Inr g'" "group_ok (count st) mem' g'" "live mem' = live_ptrs st"
    "vals mem' = vals (mem_of st)" "flags mem' = flags (mem_of st) \<and> tidy mem' g'"
    "mset (blocks mem') + mset (all_units ?t) = mset (blocks (mem_of st)) + mset (all_units g')"
    using do_maintenance_spec [OF ok run] by blast
  have "units_of ((full st)\<lparr>temp_filling_group := g'\<rparr>) + mset (all_units ?t)
    = mset (blocks mem') + mset (all_units ?t)"
    using I(4) unfolding g'(6) by (simp add: units_of_def ac_simps flip: I(4))
  then have "units_of ((full st)\<lparr>temp_filling_group := g'\<rparr>) = mset (blocks mem')"
    by (simp only: add_right_cancel)
  then show ?thesis
    using I g'(1-5) run by (simp add: maintain_temp_def preserves_def alloc_inv_def group_ok_def
        index_ok_def keeps_def)
qed

lemma preserves_refl: "alloc_inv st \<Longrightarrow> preserves st st"
  by (simp add: preserves_def)

section \<open>The contract of a slot allocator\<close>

definition box_contents :: "'a alloc_state \<Rightarrow> ShardedDataPtr \<Rightarrow> 'a option list" where
  "box_contents st p = map (\<lambda>s. box_index p s st) (shard_indexes (count st))"

text \<open>
  What a client of the allocator relies on. \<open>acquire\<close> and \<open>release\<close> are the allocation and the
  free, \<open>owned\<close> the live pointers, \<open>contents\<close> what a pointer's slots hold.
\<close>

locale slot_allocator =
  fixes acquire :: "'i \<Rightarrow> 's \<Rightarrow> 's \<times> (panic + 'p)"
    and release :: "'p \<Rightarrow> 's \<Rightarrow> 's \<times> (panic + unit)"
    and owned :: "'s \<Rightarrow> 'p set"
    and contents :: "'s \<Rightarrow> 'p \<Rightarrow> 'v"
    and ok :: "'s \<Rightarrow> bool"
  assumes acquire_ok: "\<lbrakk>ok s; acquire i s = (s', r)\<rbrakk> \<Longrightarrow> ok s'"
    and acquire_new: "\<lbrakk>ok s; acquire i s = (s', Inr p)\<rbrakk> \<Longrightarrow> p \<notin> owned s \<and> owned s' = insert p (owned s)"
    and acquire_fails: "\<lbrakk>ok s; acquire i s = (s', Inl e)\<rbrakk> \<Longrightarrow> owned s' = owned s"
    and acquire_frame: "\<lbrakk>ok s; acquire i s = (s', r); q \<in> owned s\<rbrakk> \<Longrightarrow> contents s' q = contents s q"
    and release_ok: "\<lbrakk>ok s; p \<in> owned s; release p s = (s', u)\<rbrakk>
      \<Longrightarrow> ok s' \<and> u = Inr () \<and> owned s' = owned s - {p}"
    and release_frame: "\<lbrakk>ok s; p \<in> owned s; release p s = (s', u); q \<in> owned s; q \<noteq> p\<rbrakk>
      \<Longrightarrow> contents s' q = contents s q"

text \<open>Several acquisitions, and several releases, in a row.\<close>

fun acquire_all :: "('i \<Rightarrow> 's \<Rightarrow> 's \<times> (panic + 'p)) \<Rightarrow> 'i list \<Rightarrow> 's \<Rightarrow> 's \<times> 'p list" where
  "acquire_all f [] s = (s, [])"
| "acquire_all f (i # is) s =
     (let (s', r) = f i s; (s'', ps) = acquire_all f is s'
      in (s'', case r of Inl e \<Rightarrow> ps | Inr p \<Rightarrow> p # ps))"

fun release_all :: "('p \<Rightarrow> 's \<Rightarrow> 's \<times> (panic + unit)) \<Rightarrow> 'p list \<Rightarrow> 's \<Rightarrow> 's \<times> (panic + unit)" where
  "release_all f [] s = (s, Inr ())"
| "release_all f (p # ps) s =
     (case f p s of (s', Inl e) \<Rightarrow> (s', Inl e) | (s', Inr _) \<Rightarrow> release_all f ps s')"

context slot_allocator
begin

lemma acquire_all_spec:
  assumes "ok s" and "acquire_all acquire is s = (s', ps)"
  shows "ok s' \<and> distinct ps \<and> set ps \<inter> owned s = {} \<and> owned s' = owned s \<union> set ps
    \<and> (\<forall>q\<in>owned s. contents s' q = contents s q)"
  using assms
proof (induction "is" arbitrary: s ps)
  case Nil
  then show ?case by simp
next
  case (Cons i rest)
  obtain s1 r where one: "acquire i s = (s1, r)" by fastforce
  obtain ps1 where rest: "acquire_all acquire rest s1 = (s', ps1)"
    and ps: "ps = (case r of Inl e \<Rightarrow> ps1 | Inr p \<Rightarrow> p # ps1)"
    using Cons.prems(2) one by (auto split: prod.splits)
  note ih = Cons.IH [OF acquire_ok [OF Cons.prems(1) one] rest]
  note frame = acquire_frame [OF Cons.prems(1) one]
  show ?case
  proof (cases r)
    case (Inl e)
    then show ?thesis using ih frame acquire_fails [OF Cons.prems(1)] one ps by auto
  next
    case (Inr p)
    then show ?thesis using ih frame acquire_new [OF Cons.prems(1)] one ps by auto
  qed
qed

lemma release_all_spec:
  assumes "ok s" and "distinct ps" and "set ps \<subseteq> owned s" and "release_all release ps s = (s', r)"
  shows "ok s' \<and> r = Inr () \<and> owned s' = owned s - set ps
    \<and> (\<forall>q\<in>owned s - set ps. contents s' q = contents s q)"
  using assms
proof (induction ps arbitrary: s)
  case Nil
  then show ?case by simp
next
  case (Cons p ps)
  obtain s1 r1 where one: "release p s = (s1, r1)" by fastforce
  have p: "p \<in> owned s" using Cons.prems by simp
  note free = release_ok [OF Cons.prems(1) p one]
  note frame = release_frame [OF Cons.prems(1) p one]
  have "release_all release ps s1 = (s', r)" using Cons.prems(4) one free by simp
  moreover have "set ps \<subseteq> owned s1" using Cons.prems free by auto
  ultimately show ?case using Cons.IH [of s1] Cons.prems(2) free frame by auto
qed

lemma acquire_release_balanced:
  assumes "ok s" and "acquire_all acquire is s = (s1, ps)" and "release_all release ps s1 = (s', r)"
  shows "r = Inr () \<and> owned s' = owned s \<and> (\<forall>q\<in>owned s. contents s' q = contents s q)"
proof -
  note a = acquire_all_spec [OF assms(1,2)]
  have "set ps \<subseteq> owned s1" and rest: "owned s1 - set ps = owned s" using a by auto
  then have "r = Inr () \<and> owned s' = owned s \<and> (\<forall>q\<in>owned s. contents s' q = contents s1 q)"
    using release_all_spec [OF _ _ _ assms(3)] a unfolding rest by blast
  then show ?thesis using a by simp
qed

end

lemma contents_kept:
  assumes "preserves st st'" and "q \<in> live_ptrs st"
  shows "box_contents st' q = box_contents st q"
  using assms by (simp add: preserves_def keeps_def box_contents_def box_index_def)

lemma allocate_out_of_range:
  assumes "alloc_inv st" and "cur \<notin> set (shard_indexes (count st))"
  shows "allocate_and_init cur f st = (st, Inl IndexOutOfBounds)"
  using assms alloc_invD(2,3) [OF assms(1)]
  by (simp add: allocate_and_init_def shards_arr_index_def in_shard_indexes mem_ok_def)

lemma allocate_and_init_preserves:
  assumes "alloc_inv st" and "allocate_and_init cur f st = (st', r)"
  shows "preserves st st' \<and> (case r of Inr p \<Rightarrow> p \<notin> live_ptrs st \<and> live_ptrs st' = insert p (live_ptrs st)
    | Inl e \<Rightarrow> live_ptrs st' = live_ptrs st)"
proof (cases "cur \<in> set (shard_indexes (count st))")
  case True
  then show ?thesis
    using allocate_and_init_spec [OF assms(1) True assms(2)]
    by (cases r) (simp_all add: gets_slot_def unwinds_def)
next
  case False
  then show ?thesis using allocate_out_of_range [OF assms(1) False] assms by (auto simp: preserves_refl)
qed

interpretation full_alloc: slot_allocator "\<lambda>(cur, f). allocate_and_init cur f" box_drop live_ptrs
  box_contents alloc_inv
proof (unfold_locales, goal_cases)
  case (1 s i s' r)
  then show ?case using allocate_and_init_preserves [OF 1(1)] by (cases i) (simp add: preserves_def)
next
  case (2 s i s' p)
  then show ?case using allocate_and_init_preserves [OF 2(1)] by (cases i) fastforce
next
  case (3 s i s' e)
  then show ?case using allocate_and_init_preserves [OF 3(1)] by (cases i) fastforce
next
  case (4 s i s' r q)
  then show ?case
    using allocate_and_init_preserves [OF 4(1)] contents_kept by (cases i) fastforce
next
  case (5 s p s' r)
  then show ?case using box_drop_spec [OF 5] by simp
next
  case (6 s p s' r q)
  then show ?case
    using box_drop_spec [OF 6(1-3)] by (simp add: box_contents_def box_index_def)
qed

section \<open>Maintenance\<close>

lemma is_live_iff: "is_live p mem \<longleftrightarrow> p \<in> live mem"
proof -
  have "(\<exists>b\<in>set (blocks mem). b \<le> base_ptr p \<and> base_ptr p < b + 16) \<longleftrightarrow> slot_of mem p"
    unfolding slot_of_def by (metis le_add1 le_add_diff_inverse nat_add_left_cancel_less)
  then show ?thesis by (auto simp: is_live_def live_def)
qed

text \<open>
  The slots not in \<open>D\<close> survive from \<open>st\<close> to \<open>st'\<close> with their contents, and the invariant holds.
\<close>

definition survives :: "ShardedDataPtr set \<Rightarrow> 'a alloc_state \<Rightarrow> 'a alloc_state \<Rightarrow> bool" where
  "survives D st st' \<longleftrightarrow> alloc_inv st' \<and> count st' = count st
     \<and> (\<forall>p\<in>live_ptrs st - D. p \<in> live_ptrs st' \<and> box_contents st' p = box_contents st p)"

lemma survives_trans: "\<lbrakk>survives D st1 st2; survives D st2 st3\<rbrakk> \<Longrightarrow> survives D st1 st3"
  unfolding survives_def by (metis DiffD2 DiffI)

lemma preserves_survives:
  "\<lbrakk>preserves st st'; live_ptrs st \<subseteq> live_ptrs st'\<rbrakk> \<Longrightarrow> survives D st st'"
  by (auto simp: survives_def preserves_def keeps_def box_contents_def box_index_def)

lemma run_clients_survives:
  assumes "alloc_inv st" and "\<And>p. DropOp p \<in> set ops \<Longrightarrow> p \<in> D"
  shows "survives D st (run_clients ops st)"
  using assms
proof (induction ops st rule: run_clients.induct)
  case (1 st)
  then show ?case by (simp add: survives_def)
next
  case (2 cur f ops st)
  obtain st' r where run: "allocate_and_init cur f st = (st', r)" by fastforce
  have "preserves st st'" "live_ptrs st \<subseteq> live_ptrs st'"
    using allocate_and_init_preserves [OF "2.prems"(1) run] by (cases r; auto)+
  then have one: "survives D st st'" by (rule preserves_survives)
  then have "alloc_inv st'" by (simp add: survives_def)
  then show ?case using survives_trans [OF one] 2 run by simp
next
  case (3 p ops st)
  show ?case
  proof (cases "p \<in> live_ptrs st")
    case True
    obtain st' r where run: "box_drop p st = (st', r)" by fastforce
    note d = box_drop_spec [OF "3.prems"(1) True run]
    have "p \<in> D" using "3.prems"(2) by simp
    then have one: "survives D st st'"
      using d by (auto simp: survives_def box_contents_def box_index_def)
    then show ?thesis using survives_trans [OF one] 3 run True d(2) by (simp add: is_live_iff)
  next
    case False
    then show ?thesis using 3 by (simp add: is_live_iff)
  qed
qed

lemma maintain_shards_survives:
  assumes "alloc_inv st" and "set shards \<subseteq> set (shard_indexes (count st))"
    and "\<And>s p. DropOp p \<in> set (before s) \<union> set (behind s) \<Longrightarrow> p \<in> D"
  shows "\<exists>st'. maintain_shards before behind shards st = (st', Inr ()) \<and> survives D st st'"
  using assms
proof (induction before behind shards st rule: maintain_shards.induct)
  case (1 before behind st)
  then show ?case using maintain_temp_spec [OF "1.prems"(1)] preserves_survives by fastforce
next
  case (2 before behind s rest st)
  have s: "s \<in> set (shard_indexes (count st))" using "2.prems" by simp
  obtain fa where fa: "swap_groups s (full st) = Inr fa" "preserves st (st\<lparr>full := fa\<rparr>)"
    using swap_groups_spec [OF "2.prems"(1) s] by blast
  let ?s1 = "st\<lparr>full := fa\<rparr>" and ?s2 = "run_clients (before s) (st\<lparr>full := fa\<rparr>)"
  have a: "survives D st ?s1" using fa(2) by (rule preserves_survives) simp
  have b: "survives D ?s1 ?s2"
    by (rule run_clients_survives) (use a "2.prems"(3) in \<open>auto simp: survives_def\<close>)
  then obtain s3 where s3: "maintain_temp ?s2 = (s3, Inr ())" and c: "survives D ?s2 s3"
    using maintain_temp_spec [of ?s2] preserves_survives by (fastforce simp: survives_def)
  let ?s4 = "run_clients (behind s) s3"
  have d: "survives D s3 ?s4"
    by (rule run_clients_survives) (use c "2.prems"(3) in \<open>auto simp: survives_def\<close>)
  have s4: "survives D st ?s4" using a b c d survives_trans by blast
  then obtain fb where fb: "swap_groups s (full ?s4) = Inr fb" "preserves ?s4 (?s4\<lparr>full := fb\<rparr>)"
    using swap_groups_spec [of ?s4 s] s by (auto simp: survives_def)
  have "survives D ?s4 (?s4\<lparr>full := fb\<rparr>)" using fb(2) by (rule preserves_survives) simp
  then have s5: "survives D st (?s4\<lparr>full := fb\<rparr>)" using s4 survives_trans by blast
  have "\<exists>st'. maintain_shards before behind rest (?s4\<lparr>full := fb\<rparr>) = (st', Inr ())
    \<and> survives D (?s4\<lparr>full := fb\<rparr>) st'"
    by (rule "2.IH" [OF fa(1) s3 [symmetric] refl refl fb(1)])
      (use s5 "2.prems" in \<open>auto simp: survives_def\<close>)
  then show ?case using fa(1) s3 fb(1) survives_trans [OF s5] by auto
qed

text \<open>Maintenance with no other thread at work.\<close>

abbreviation quiet :: "u8 \<Rightarrow> 'a client_op list" where
  "quiet \<equiv> \<lambda>_. []"

lemma tidy_cong: "flags mem' = flags mem \<Longrightarrow> tidy mem' g = tidy mem g"
  by (simp add: tidy_def unit_used_def)

lemma maintain_quiet:
  assumes "alloc_inv st" and "set ss \<subseteq> set (shard_indexes (count st))"
    and "maintain_shards quiet quiet ss st = (st', r)"
  shows "live_ptrs st' = live_ptrs st \<and> flags (mem_of st') = flags (mem_of st)
    \<and> tidy (mem_of st') (temp_filling_group (full st'))
    \<and> length (groups (full st')) = length (groups (full st))
    \<and> (\<forall>i<length (groups (full st)). i \<in> unat ` set ss \<or> tidy (mem_of st) (groups (full st) ! i)
         \<longrightarrow> tidy (mem_of st') (groups (full st') ! i))"
  using assms
proof (induction ss arbitrary: st)
  case Nil
  then show ?case using maintain_temp_spec [OF Nil.prems(1)] tidy_cong by fastforce
next
  case (Cons s rest)
  have s: "s \<in> set (shard_indexes (count st))" using Cons.prems by simp
  have v: "valid_count (count st)" using alloc_invD(2) [OF Cons.prems(1)] by (simp add: mem_ok_def)
  let ?gs = "groups (full st)"
  have len: "unat s < length ?gs"
    using s alloc_invD(3) [OF Cons.prems(1)] in_shard_indexes [OF v] by simp
  let ?fa = "\<lparr>groups = ?gs[unat s := temp_filling_group (full st)], temp_filling_group = ?gs ! unat s\<rparr>"
  have fa: "swap_groups s (full st) = Inr ?fa" using len by (simp add: swap_groups_def shards_arr_index_def)
  have inv1: "alloc_inv (st\<lparr>full := ?fa\<rparr>)"
    using swap_groups_spec [OF Cons.prems(1) s] fa by (auto simp: preserves_def)
  obtain s3 where s3: "maintain_temp (st\<lparr>full := ?fa\<rparr>) = (s3, Inr ())" "live_ptrs s3 = live_ptrs st"
    "groups (full s3) = groups ?fa" "flags (mem_of s3) = flags (mem_of st)"
    "tidy (mem_of s3) (temp_filling_group (full s3))" "alloc_inv s3" "count s3 = count st"
    using maintain_temp_spec [OF inv1] by (auto simp: preserves_def)
  let ?fb = "\<lparr>groups = ?gs[unat s := temp_filling_group (full s3)],
               temp_filling_group = temp_filling_group (full st)\<rparr>"
  have fb: "swap_groups s (full s3) = Inr ?fb"
    using len s3(3) by (simp add: swap_groups_def shards_arr_index_def)
  have inv4: "alloc_inv (s3\<lparr>full := ?fb\<rparr>)"
    using swap_groups_spec [OF s3(6), of s] s s3(7) fb by (auto simp: preserves_def)
  have "maintain_shards quiet quiet rest (s3\<lparr>full := ?fb\<rparr>) = (st', r)"
    using Cons.prems(3) fa s3(1) fb by simp
  note ih = Cons.IH [OF inv4 _ this]
  have "set rest \<subseteq> set (shard_indexes (count (s3\<lparr>full := ?fb\<rparr>)))" using Cons.prems(2) s3(7) by simp
  note ih = ih [OF this]
  have "tidy (mem_of st') (groups (full st') ! i)"
    if i: "i < length ?gs" and d: "i \<in> unat ` set (s # rest) \<or> tidy (mem_of st) (?gs ! i)" for i
  proof (cases "i = unat s")
    case True
    then show ?thesis using ih i len s3(4,5) by simp
  next
    case False
    then show ?thesis using ih i d tidy_cong [OF s3(4)] by auto
  qed
  then show ?case using ih s3 by simp
qed

section \<open>A starting state\<close>

definition start_state :: "ShardCount \<Rightarrow> (nat list \<Rightarrow> nat) \<Rightarrow> FullShardAlloc \<Rightarrow> 'a alloc_state" where
  "start_state c alloc fa = \<lparr>count = c, sys_alloc = alloc,
     mem_of = \<lparr>blocks = [], flags = \<lambda>_. 0, vals = \<lambda>_. None\<rparr>, full = fa\<rparr>"

definition bump_alloc :: "nat list \<Rightarrow> nat" where
  "bump_alloc bs = 16 * (257 + sum_list bs)"

lemma bump_alloc_good:
  assumes "valid_count c"
  shows "good_sys_alloc c bump_alloc"
proof -
  have "data_len c \<le> 16 * 257" using count_le_256 [OF assms] by (simp add: data_len_def)
  then have "b + data_len c \<le> bump_alloc bs" if "b \<in> set bs" for b bs
    using member_le_sum_list [OF that] by (simp add: bump_alloc_def)
  then show ?thesis by (auto simp: good_sys_alloc_def disjoint_blocks_def bump_alloc_def)
qed

lemma start_state_inv:
  assumes "valid_count c" and "good_sys_alloc c alloc"
  shows "\<exists>fa. initialize c = Inr fa \<and> alloc_inv (start_state c alloc fa)
    \<and> live_ptrs (start_state c alloc fa) = {}"
proof -
  have "sum_list (map (\<lambda>_. {#}) xs) = {#}" for xs :: "nat list" by (induction xs) simp_all
  then show ?thesis
    using assms by (auto simp: initialize_def shards_arr_new_def shard_indexes_def alloc_inv_def
        start_state_def mem_ok_def units_of_def index_ok_def group_new_def live_def slot_of_def o_def)
qed

lemma witness_state:
  obtains st :: "nat alloc_state" where "alloc_inv st" "count st = from_exponent_adjusted 1"
    "live_ptrs st = {}"
proof -
  obtain fa where "alloc_inv (start_state (from_exponent_adjusted 1) bump_alloc fa :: nat alloc_state)"
    "live_ptrs (start_state (from_exponent_adjusted 1) bump_alloc fa :: nat alloc_state) = {}"
    using start_state_inv [OF valid_from_exponent bump_alloc_good [OF valid_from_exponent]] by blast
  then show ?thesis
    using that [of "start_state (from_exponent_adjusted 1) bump_alloc fa"]
    by (simp add: start_state_def)
qed

section \<open>Properties\<close>

lemma contents_init:
  assumes "\<forall>s\<in>set (shard_indexes (count st)). vals (mem_of st') (ptr_at_shard p s) = f s"
    and "count st' = count st"
  shows "box_contents st' p = map f (shard_indexes (count st))"
  using assms by (simp add: box_contents_def box_index_def)



text \<open>
  C30: an \<open>init_func\<close> that panics for some shard leaks nothing: the allocation unwinds with that
  panic and no other, the set of live pointers and all their contents are as before, and the
  allocator's invariant holds (in particular, a unit obtained for this allocation alone has been
  given back).
\<close>

theorem panicking_init_leaks_nothing:
  assumes "alloc_inv st" and "cur \<in> set (shard_indexes (count st))"
    and "\<exists>s\<in>set (shard_indexes (count st)). f s = None"
    and "allocate_and_init cur f st = (st', r)"
  shows "r = Inl InitPanicked \<and> live_ptrs st' = live_ptrs st
    \<and> (\<forall>q\<in>live_ptrs st. box_contents st' q = box_contents st q) \<and> alloc_inv st'"
proof -
  note spec = allocate_and_init_spec [OF assms(1,2,4)]
  then have "r = Inl InitPanicked"
    using assms(3) by (cases r) (auto simp: gets_slot_def total_init_def)
  then show ?thesis
    using spec contents_kept [of st st'] by (auto simp: unwinds_def preserves_def)
qed

theorem panicking_init_leaks_nothing_witness:
  "\<exists>(st :: nat alloc_state) st'.
     allocate_and_init 0 (\<lambda>s. if s = 1 then None else Some 7) st = (st', Inl InitPanicked)
     \<and> live_ptrs st' = live_ptrs st"
proof -
  obtain st :: "nat alloc_state" where st: "alloc_inv st" "count st = from_exponent_adjusted 1"
    using witness_state .
  have n: "unat (shard_count (from_exponent_adjusted 1)) = 2" by (simp add: from_exponent_adjusted_eq)
  have idx: "shard_indexes (count st) = [0, 1]" by (simp add: shard_indexes_def st(2) n upt_rec)
  obtain st' r where
    run: "allocate_and_init 0 (\<lambda>s. if s = 1 then None else Some 7) st = (st', r)" by fastforce
  then have "r = Inl InitPanicked \<and> live_ptrs st' = live_ptrs st"
    using panicking_init_leaks_nothing [OF st(1) _ _ run] by (simp add: idx)
  then show ?thesis using run by blast
qed

text \<open>
  C29: dropping a box frees exactly its slot: the drop succeeds, the pointer is no longer live,
  all other live pointers keep their contents, and dropping the same box once more hits the
  assertion on the usage flag.
\<close>

theorem box_drop_frees_exactly:
  assumes "alloc_inv st" and "p \<in> live_ptrs st" and "box_drop p st = (st', r)"
  shows "r = Inr () \<and> live_ptrs st' = live_ptrs st - {p} \<and> alloc_inv st'
    \<and> (\<forall>q\<in>live_ptrs st - {p}. box_contents st' q = box_contents st q)
    \<and> snd (box_drop p st') = Inl AssertFailed"
proof -
  note d = box_drop_spec [OF assms]
  have "slot_of (mem_of st') p"
    using assms(2,3) box_drop_state [of p st] by (auto simp: live_def slot_of_def)
  moreover have "p \<notin> live_ptrs st'" using d(5) by simp
  ultimately have "snd (box_drop p st') = Inl AssertFailed"
    using box_drop_not_live [of st' p] by (metis prod.collapse)
  then show ?thesis using d by (simp add: box_contents_def box_index_def)
qed

lemma witness_live:
  obtains st :: "nat alloc_state" and p where "alloc_inv st" "count st = from_exponent_adjusted 1"
    "live_ptrs st = {p}"
proof -
  obtain st0 :: "nat alloc_state" where st0: "alloc_inv st0" "count st0 = from_exponent_adjusted 1"
    "live_ptrs st0 = {}"
    using witness_state .
  have n: "unat (shard_count (from_exponent_adjusted 1)) = 2" by (simp add: from_exponent_adjusted_eq)
  have zero: "0 \<in> set (shard_indexes (count st0))" by (simp add: shard_indexes_def st0(2) n upt_rec)
  obtain st r where run: "allocate_and_init 0 (\<lambda>s. Some 7) st0 = (st, r)" by fastforce
  note spec = allocate_and_init_spec [OF st0(1) zero run]
  show ?thesis
  proof (cases r)
    case (Inl e)
    then show ?thesis using spec by (simp add: unwinds_def total_init_def)
  next
    case (Inr p)
    then show ?thesis using that [of st p] spec st0 by (simp add: gets_slot_def preserves_def)
  qed
qed

theorem box_drop_frees_exactly_witness:
  "\<exists>(st :: nat alloc_state) st' p. box_drop p st = (st', Inr ()) \<and> live_ptrs st' = {}
     \<and> snd (box_drop p st') = Inl AssertFailed"
proof -
  obtain st :: "nat alloc_state" and p where st: "alloc_inv st" "live_ptrs st = {p}"
    using witness_live .
  obtain st' r where run: "box_drop p st = (st', r)" by fastforce
  show ?thesis using box_drop_frees_exactly [OF st(1) _ run] st(2) run by auto
qed



text \<open>
  maintenance reclaims. With no other thread at work it leaves the live slots as they are,
  gives back every idle block (each remaining block has a slot in use), and leaves in every
  group's list exactly the units that still have a free slot, so the next allocation looks at
  those only.
\<close>

theorem maintenance_reclaims:
  assumes "alloc_inv st" and "do_maintenance_by_collector False quiet quiet st = (st', r)"
  shows "live_ptrs st' = live_ptrs st
    \<and> (\<forall>b\<in>set (blocks (mem_of st')). \<exists>p\<in>live_ptrs st'. in_block (count st') b (base_ptr p))
    \<and> (\<forall>g\<in>set (groups (full st')). tidy (mem_of st') g)"
proof -
  have run: "maintain_shards quiet quiet (shard_indexes (count st)) st = (st', r)"
    using assms(2) by (simp add: do_maintenance_by_collector_def)
  note q = maintain_quiet [OF assms(1) subset_refl run]
  note I = alloc_invD [OF assms(1)]
  have v: "valid_count (count st)" using I(2) by (simp add: mem_ok_def)
  have "i \<in> unat ` set (shard_indexes (count st))" if "i < length (groups (full st))" for i
    using that I(3) arg_cong [OF map_unat_shard_indexes [OF v], of set] by auto
  then have groups: "tidy (mem_of st') g" if "g \<in> set (groups (full st'))" for g
    using q that by (auto simp: in_set_conv_nth)
  obtain sv where "maintain_shards quiet quiet (shard_indexes (count st)) st = (sv, Inr ())"
    "survives {} st sv"
    using maintain_shards_survives [OF assms(1) subset_refl, of quiet quiet "{}"] by auto
  then have inv: "alloc_inv st'" using run by (simp add: survives_def)
  have "\<exists>p\<in>live_ptrs st'. in_block (count st') b (base_ptr p)" if b: "b \<in> set (blocks (mem_of st'))" for b
  proof -
    have "b \<in># units_of (full st')" using b alloc_invD(4) [OF inv] by simp
    then have "unit_used (mem_of st') b"
      using q groups by (auto simp: units_of_def tidy_def in_mset_sum)
    then obtain k where "k < 16" "flags (mem_of st') (b + k) = 1" by (auto simp: unit_used_def)
    then have "ShardedDataPtr (b + k) \<in> live_ptrs st'" "in_block (count st') b (b + k)"
      using b by (auto simp: live_def slot_of_def in_block_def data_len_def)
    then show ?thesis by force
  qed
  then show ?thesis using q groups by blast
qed

theorem maintenance_reclaims_witness:
  "\<exists>(st :: nat alloc_state) st' p. do_maintenance_by_collector False quiet quiet st = (st', Inr ())
     \<and> live_ptrs st' = {p} \<and> (\<forall>g\<in>set (groups (full st')). tidy (mem_of st') g)"
proof -
  obtain st :: "nat alloc_state" and p where st: "alloc_inv st" "live_ptrs st = {p}"
    using witness_live .
  obtain st' where run: "do_maintenance_by_collector False quiet quiet st = (st', Inr ())"
    using maintain_shards_survives [OF st(1) subset_refl, of quiet quiet "{}"]
    by (auto simp: do_maintenance_by_collector_def)
  show ?thesis using maintenance_reclaims [OF st(1) run] st(2) run by auto
qed

lemma get_unused_slot_count_eq:
  assumes "mem_ok c mem" and "u \<in> set (blocks mem)"
  shows "get_unused_slot_count u mem + card {k. k < 16 \<and> flags mem (u + k) = 1} = 16"
proof -
  have "get_unused_slot_count u mem = card {k. k < 16 \<and> flags mem (u + k) = 0}"
    by (simp add: get_unused_slot_count_def usage_flag_atomics_def USAGE_FLAG_UNUSED_def
        length_filter_conv_card)
      (rule arg_cong [where f = card], auto)
  moreover have "{k. k < 16 \<and> flags mem (u + k) = 0} \<union> {k. k < 16 \<and> flags mem (u + k) = 1} = {..<16}"
    using unit_flags_valid [OF assms] by (auto simp: usage_flag_valid_def)
  moreover have "{k. k < 16 \<and> flags mem (u + k) = 0} \<inter> {k. k < 16 \<and> flags mem (u + k) = 1} = {}"
    by auto
  ultimately show ?thesis
    using card_Un_disjoint [of "{k. k < 16 \<and> flags mem (u + k) = 0}"
        "{k. k < 16 \<and> flags mem (u + k) = 1}"] by simp
qed

lemma card_live:
  assumes "mem_ok c mem"
  shows "card (live mem) = (\<Sum>b\<in>set (blocks mem). card {k. k < 16 \<and> flags mem (b + k) = 1})"
proof -
  let ?S = "\<lambda>b. (\<lambda>k. ShardedDataPtr (b + k)) ` {k. k < 16 \<and> flags mem (b + k) = 1}"
  have eq: "p = ShardedDataPtr a \<longleftrightarrow> base_ptr p = a" for p a by (cases p) simp
  have "live mem = (\<Union>b\<in>set (blocks mem). ?S b)"
    by (auto simp: live_def slot_of_def image_iff eq) blast+
  moreover have "?S b \<inter> ?S d = {}" if "b \<in> set (blocks mem)" "d \<in> set (blocks mem)" "b \<noteq> d" for b d
    using assms that unfolding mem_ok_def by (fastforce simp: disjoint_blocks_def data_len_def)
  moreover have "card (?S b) = card {k. k < 16 \<and> flags mem (b + k) = 1}" for b
    by (rule card_image) (simp add: inj_on_def)
  ultimately show ?thesis by (simp add: card_UN_disjoint)
qed

lemma group_counts:
  assumes "mem_ok c mem" and "set us \<subseteq> set (blocks mem)"
  shows "sum_list (map (\<lambda>u. get_unused_slot_count u mem) us)
      + sum_list (map (\<lambda>u. card {k. k < 16 \<and> flags mem (u + k) = 1}) us) = length us * 16"
  using assms(2)
proof (induction us)
  case (Cons u us)
  then show ?case using get_unused_slot_count_eq [OF assms(1), of u] by simp
qed simp

lemma report_counts:
  assumes "mem_ok c mem" and "\<And>g. g \<in> set gs \<Longrightarrow> set (all_units g) \<subseteq> set (blocks mem)"
  shows "sum_list (map (fst \<circ> count_unused_slot_count_and_all_slot_count mem) gs)
      + sum_list (map (\<lambda>g. sum_list (map (\<lambda>u. card {k. k < 16 \<and> flags mem (u + k) = 1}) (all_units g))) gs)
    = sum_list (map (snd \<circ> count_unused_slot_count_and_all_slot_count mem) gs)"
  using assms(2)
proof (induction gs)
  case (Cons g gs)
  then show ?case
    using group_counts [OF assms(1), of "all_units g"]
    by (simp add: count_unused_slot_count_and_all_slot_count_def)
qed simp

lemma sum_over_mset: "(\<Sum>u\<in>#mset xs. h u) = sum_list (map h xs)"
  by (metis mset_map sum_mset_sum_list)

lemma used_in_units:
  "(\<Sum>u\<in>#sum_list (map (\<lambda>g. mset (all_units g)) gs). h u)
    = sum_list (map (\<lambda>g. sum_list (map h (all_units g))) gs)"
  by (induction gs) (simp_all flip: sum_mset_sum_list)

text \<open>
  The status report counts exactly: its \<open>total_used_slot_count\<close>, obtained by subtracting
  the unused flags from the number of slots of all groups, is the number of live pointers, and
  the subtraction cannot go below zero.
\<close>

theorem status_report_counts_live:
  assumes "alloc_inv st"
  shows "total_used_slot_count (get_status_report st) = card (live_ptrs st)
    \<and> sum_list (map fst (per_shard (get_status_report st))) + fst (filling_group (get_status_report st))
      \<le> sum_list (map snd (per_shard (get_status_report st))) + snd (filling_group (get_status_report st))"
proof -
  note I = alloc_invD [OF assms]
  let ?h = "\<lambda>u. card {k. k < 16 \<and> flags (mem_of st) (u + k) = 1}"
  let ?gs = "groups (full st) @ [temp_filling_group (full st)]"
  have sub: "set (all_units g) \<subseteq> set (blocks (mem_of st))" if "g \<in> set ?gs" for g
    using that set_mset_mono [OF units_of_member(1) [of g "full st"]]
      set_mset_mono [OF units_of_member(2) [of "full st"]] I(4) by auto
  have "(\<Sum>u\<in>#units_of (full st). ?h u) = card (live_ptrs st)"
    unfolding I(4) card_live [OF I(2)]
    using I(2) by (simp add: mem_ok_def sum_over_mset sum_list_distinct_conv_sum_set)
  then have used: "sum_list (map (\<lambda>g. sum_list (map ?h (all_units g))) ?gs) = card (live_ptrs st)"
    using used_in_units [of ?h "groups (full st)"]
    by (simp add: units_of_def sum_over_mset)
  show ?thesis
    using report_counts [OF I(2), of ?gs, OF sub] used
    by (simp add: get_status_report_def Let_def)
qed

theorem status_report_counts_live_witness:
  "\<exists>st :: nat alloc_state. total_used_slot_count (get_status_report st) = 1"
proof -
  obtain st :: "nat alloc_state" and p where "alloc_inv st" "live_ptrs st = {p}"
    using witness_live .
  then show ?thesis using status_report_counts_live [of st] by auto
qed

text \<open>
  Boxes are independent of each other. Any number of boxes allocated in a row, from any
  shards and with \<open>init_func\<close>s that may panic, are distinct from each other and from those that
  were live, and dropping them all brings back exactly the live slots and contents of before.
\<close>

theorem boxes_balance:
  assumes "alloc_inv st"
    and "acquire_all (\<lambda>(cur, f). allocate_and_init cur f) requests st = (st1, ps)"
    and "release_all box_drop ps st1 = (st2, r)"
  shows "distinct ps \<and> set ps \<inter> live_ptrs st = {} \<and> r = Inr () \<and> live_ptrs st2 = live_ptrs st
    \<and> (\<forall>q\<in>live_ptrs st. box_contents st2 q = box_contents st q)"
  using full_alloc.acquire_all_spec [OF assms(1,2)]
    full_alloc.acquire_release_balanced [OF assms] by blast

theorem boxes_balance_witness:
  "\<exists>(st :: nat alloc_state) st1 st2 ps.
     acquire_all (\<lambda>(cur, f). allocate_and_init cur f) [(0, \<lambda>_. Some 1), (1, \<lambda>_. None)] st = (st1, ps)
     \<and> release_all box_drop ps st1 = (st2, Inr ()) \<and> live_ptrs st2 = {}"
proof -
  obtain st :: "nat alloc_state" where st: "alloc_inv st" "live_ptrs st = {}"
    using witness_state .
  obtain st1 ps where a: "acquire_all (\<lambda>(cur, f). allocate_and_init cur f)
      [(0, \<lambda>_. Some 1), (1, \<lambda>_. None)] st = (st1, ps)" by fastforce
  obtain st2 r where b: "release_all box_drop ps st1 = (st2, r)" by fastforce
  show ?thesis using boxes_balance [OF st(1) a b] st(2) a b by auto
qed

end
