(* ===== verification/CountersInSlots.thy ===== *)
theory CountersInSlots
  imports Safety FullAlloc
begin

text \<open>
  The counters where they really are. In the machine an object has a list of unbounded counters;
  in the code \<open>SdarcInner::counters\<close> is a \<open>ShardedBox\<close> of 64-bit words in slots of the sharded
  allocator. Here every step of the machine is mirrored by the word operations on those slots,
  and the two are shown to agree as long as no shard's count leaves the range of a word.
\<close>

section \<open>Operations on the slots\<close>

record store =
  slot_memory :: "i64 alloc_state"
  counters_ptr :: "addr \<Rightarrow> ShardedDataPtr option"

text \<open>
  \<open>SdarcInner::new\<close>: the allocation on shard \<open>cur\<close>, then the first increment on shard \<open>i\<close>.
\<close>

definition slots_new :: "nat \<Rightarrow> nat \<Rightarrow> addr \<Rightarrow> store \<Rightarrow> panic + store" where
  "slots_new cur i a st =
     (case allocate_and_init (of_nat cur) (\<lambda>_. Some new_counter) (slot_memory st) of
        (m, Inl e) \<Rightarrow> Inl e
      | (m, Inr p) \<Rightarrow>
          (case box_at_curr_shard p (of_nat i) m of
             None \<Rightarrow> Inl UnwrapFailed
           | Some v \<Rightarrow> Inr \<lparr>slot_memory = box_index_mut p (of_nat i) (increment_ref_count v) m,
                             counters_ptr = (counters_ptr st)(a \<mapsto> p)\<rparr>))"

text \<open>One atomic operation on the word of object \<open>a\<close> in shard \<open>i\<close>.\<close>

definition slots_update :: "(i64 \<Rightarrow> i64) \<Rightarrow> addr \<Rightarrow> nat \<Rightarrow> store \<Rightarrow> panic + store" where
  "slots_update f a i st =
     (case counters_ptr st a of
        None \<Rightarrow> Inl UnwrapFailed
      | Some p \<Rightarrow>
          (case box_at_curr_shard p (of_nat i) (slot_memory st) of
             None \<Rightarrow> Inl UnwrapFailed
           | Some v \<Rightarrow> Inr (st\<lparr>slot_memory := box_index_mut p (of_nat i) (f v) (slot_memory st)\<rparr>)))"

definition slots_increment :: "addr \<Rightarrow> nat \<Rightarrow> store \<Rightarrow> panic + store" where
  "slots_increment = slots_update increment_ref_count"

definition slots_decrement :: "addr \<Rightarrow> nat \<Rightarrow> store \<Rightarrow> panic + store" where
  "slots_decrement = slots_update decremented"

definition slots_clear_tag :: "addr \<Rightarrow> nat \<Rightarrow> store \<Rightarrow> panic + store" where
  "slots_clear_tag = slots_update (\<lambda>v. snd (fetch_and_clear_tag v))"

text \<open>The drop of \<open>counters\<close> when \<open>SdarcInner\<close> is freed.\<close>

definition slots_free :: "addr \<Rightarrow> store \<Rightarrow> panic + store" where
  "slots_free a st =
     (case counters_ptr st a of
        None \<Rightarrow> Inl UnwrapFailed
      | Some p \<Rightarrow>
          (case box_drop p (slot_memory st) of
             (m, Inl e) \<Rightarrow> Inl e
           | (m, Inr _) \<Rightarrow> Inr \<lparr>slot_memory = m, counters_ptr = (counters_ptr st)(a := None)\<rparr>))"

text \<open>
  What a step of the machine does to the slots; \<open>cur\<close> is the shard on which a new object's slot is
  allocated. Steps that are not listed touch no counter.
\<close>

fun mirror :: "nat \<Rightarrow> label \<Rightarrow> sys \<Rightarrow> store \<Rightarrow> panic + store" where
  "mirror cur (LNew a i j) s st = slots_new cur i a st"
| "mirror cur (LClone a i) s st = slots_increment a i st"
| "mirror cur (LDrop a i) s st = slots_decrement a i st"
| "mirror cur (LDowngradeInit a w i j) s st = slots_new cur i w st"
| "mirror cur (LDowngradeClone a i) s st =
     (case obj_at s a of
        None \<Rightarrow> Inr st
      | Some x \<Rightarrow> (case weak_ref x of None \<Rightarrow> Inr st | Some w \<Rightarrow> slots_increment w i st))"
| "mirror cur (LCompareAndSet c m p i) s st =
     (if cells s ! c = m then case p of None \<Rightarrow> Inr st | Some a \<Rightarrow> slots_increment a i st else Inr st)"
| "mirror cur (LLoadInc t i) s st =
     (case at_pc (thrs s ! t) of LoadInc a \<Rightarrow> slots_increment a i st | _ \<Rightarrow> Inr st)"
| "mirror cur (LGuardClone t j i) s st =
     (case guards (thrs s ! t) j of None \<Rightarrow> Inr st | Some a \<Rightarrow> slots_increment a i st)"
| "mirror cur CClearTags s st =
     (case at_cpc s of
        CClear a k acc \<Rightarrow> if k < nshards s then slots_clear_tag a k st else Inr st
      | _ \<Rightarrow> Inr st)"
| "mirror cur (CFree i) s st =
     (case tofree s of
        [] \<Rightarrow> Inr st
      | a # rest \<Rightarrow>
          (case slots_free a st of
             Inl e \<Rightarrow> Inl e
           | Inr st' \<Rightarrow>
               (case obj_at s a of
                  None \<Rightarrow> Inr st'
                | Some x \<Rightarrow> (case weak_ref x of None \<Rightarrow> Inr st' | Some w \<Rightarrow> slots_decrement w i st'))))"
| "mirror cur l s st = Inr st"

section \<open>Agreement\<close>

definition counters_of :: "sys \<Rightarrow> addr \<Rightarrow> acounter list option" where
  "counters_of s a = map_option shards (obj_at s a)"

text \<open>
  Every live object has a slot of its own whose word in each shard encodes the machine's counter,
  and no other object has one.
\<close>

definition slots_hold :: "nat \<Rightarrow> (addr \<Rightarrow> acounter list option) \<Rightarrow> store \<Rightarrow> bool" where
  "slots_hold n M st \<longleftrightarrow> alloc_inv (slot_memory st) \<and> n = unat (shard_count (count (slot_memory st)))
     \<and> (\<forall>a. M a = None \<longleftrightarrow> counters_ptr st a = None)
     \<and> (\<forall>a p. counters_ptr st a = Some p \<longrightarrow> p \<in> live_ptrs (slot_memory st))
     \<and> (\<forall>a b p. counters_ptr st a = Some p \<longrightarrow> counters_ptr st b = Some p \<longrightarrow> a = b)
     \<and> (\<forall>a cs p. M a = Some cs \<longrightarrow> counters_ptr st a = Some p \<longrightarrow> length cs = n
          \<and> (\<forall>k<n. map_option decode (box_index p (of_nat k) (slot_memory st)) = Some (cs ! k)))"

definition counts_fit :: "sys \<Rightarrow> bool" where
  "counts_fit s \<longleftrightarrow> (\<forall>a cs. counters_of s a = Some cs \<longrightarrow>
     (\<forall>c\<in>set cs. - (2 ^ 62) < acount c \<and> acount c < 2 ^ 62 - 1))"

lemma slots_holdD:
  assumes "slots_hold n M st"
  shows "alloc_inv (slot_memory st)" "n = unat (shard_count (count (slot_memory st)))"
    "M a = None \<longleftrightarrow> counters_ptr st a = None"
    "counters_ptr st a = Some p \<Longrightarrow> p \<in> live_ptrs (slot_memory st)"
    "\<lbrakk>counters_ptr st a = Some p; counters_ptr st b = Some p\<rbrakk> \<Longrightarrow> a = b"
    "\<lbrakk>M a = Some cs; counters_ptr st a = Some p\<rbrakk> \<Longrightarrow> length cs = n"
    "\<lbrakk>M a = Some cs; counters_ptr st a = Some p; k < n\<rbrakk> \<Longrightarrow>
       map_option decode (box_index p (of_nat k) (slot_memory st)) = Some (cs ! k)"
  using assms unfolding slots_hold_def by blast+

lemma shard_word:
  assumes "alloc_inv m" and "k < unat (shard_count (count m))"
  shows "(of_nat k :: u8) \<in> set (shard_indexes (count m))" "unat (of_nat k :: u8) = k"
proof -
  have "valid_count (count m)" using alloc_invD(2) [OF assms(1)] by (simp add: mem_ok_def)
  then have "k < 256" using count_le_256 [of "count m"] assms(2) by simp
  then show "unat (of_nat k :: u8) = k" by (simp add: unat_of_nat)
  show "(of_nat k :: u8) \<in> set (shard_indexes (count m))" using assms(2) by (auto simp: shard_indexes_def)
qed

lemma box_index_mut_simps [simp]:
  "count (box_index_mut p k v m) = count m" "live_ptrs (box_index_mut p k v m) = live_ptrs m"
  "alloc_inv (box_index_mut p k v m) = alloc_inv m"
  by (simp_all add: box_index_mut_def live_def slot_of_def alloc_inv_def mem_ok_def)

lemma box_index_after_mut:
  assumes "alloc_inv m" and "p \<in> live_ptrs m" and "q \<in> live_ptrs m"
    and "i < unat (shard_count (count m))" and "k < unat (shard_count (count m))"
  shows "box_index q (of_nat k) (box_index_mut p (of_nat i) v m)
    = (if q = p \<and> k = i then Some v else box_index q (of_nat k) m)"
proof -
  have "ptr_at_shard q (of_nat k) = ptr_at_shard p (of_nat i) \<longleftrightarrow> q = p \<and> (of_nat k :: u8) = of_nat i"
    using layout_apart [OF alloc_invD(2) [OF assms(1)], of q p] assms(2,3) shard_word(1) [OF assms(1)] assms(4,5)
    by (simp add: live_def)
  moreover have "(of_nat k :: u8) = of_nat i \<longleftrightarrow> k = i"
    using shard_word(2) [OF assms(1)] assms(4,5) by metis
  ultimately show ?thesis by (simp add: box_index_def box_index_mut_def)
qed

text \<open>A word operation on one slot changes that object's counter in that shard and nothing else.\<close>

lemma slots_update_holds:
  assumes h: "slots_hold n M st" and a: "M a = Some cs" and i: "i < n"
    and g: "\<And>v. decode v = cs ! i \<Longrightarrow> decode (f v) = g (cs ! i)"
  shows "\<exists>st'. slots_update f a i st = Inr st' \<and> slots_hold n (M(a \<mapsto> cs[i := g (cs ! i)])) st'"
proof -
  note H = slots_holdD [OF h]
  obtain p where p: "counters_ptr st a = Some p" using H(3) [of a] a by auto
  have live: "p \<in> live_ptrs (slot_memory st)" by (rule H(4) [OF p])
  obtain v where v: "box_index p (of_nat i) (slot_memory st) = Some v" "decode v = cs ! i"
    using H(7) [OF a p i] by auto
  let ?m = "box_index_mut p (of_nat i) (f v) (slot_memory st)"
  let ?st = "st\<lparr>slot_memory := ?m\<rparr>"
  have box: "box_index q (of_nat k) ?m = (if q = p \<and> k = i then Some (f v) else box_index q (of_nat k) (slot_memory st))"
    if "q \<in> live_ptrs (slot_memory st)" "k < n" for q k
    using box_index_after_mut [OF H(1) live that(1)] i that(2) H(2) by simp
  have "map_option decode (box_index q (of_nat k) ?m) = Some (ds ! k) \<and> length ds = n"
    if "(M(a \<mapsto> cs[i := g (cs ! i)])) b = Some ds" "counters_ptr st b = Some q" "k < n" for b ds q k
  proof (cases "b = a")
    case True
    then have q: "q = p" and ds: "ds = cs[i := g (cs ! i)]" using that p by simp_all
    show ?thesis
    proof (cases "k = i")
      case True
      then show ?thesis using box [OF live i] q ds g [OF v(2)] H(6) [OF a p] i by simp
    next
      case False
      then show ?thesis using box [OF live that(3)] q ds H(6,7) [OF a p] that(3) by simp
    qed
  next
    case False
    then have "q \<noteq> p" using H(5) [OF p] that(2) by blast
    then show ?thesis using box [OF H(4) [OF that(2)] that(3)] H(6,7) [of b ds q] that False by simp
  qed
  then have "slots_hold n (M(a \<mapsto> cs[i := g (cs ! i)])) ?st"
    unfolding slots_hold_def using H(1-5) a p H(6) by (auto split: if_splits)
  moreover have "slots_update f a i st = Inr ?st"
    using p v(1) by (simp add: slots_update_def box_at_curr_shard_def box_index_def)
  ultimately show ?thesis by blast
qed

lemma slots_free_holds:
  assumes h: "slots_hold n M st" and a: "M a = Some cs"
  shows "\<exists>st'. slots_free a st = Inr st' \<and> slots_hold n (M(a := None)) st'"
proof -
  note H = slots_holdD [OF h]
  obtain p where p: "counters_ptr st a = Some p" using H(3) [of a] a by auto
  obtain m r where run: "box_drop p (slot_memory st) = (m, r)" by fastforce
  note d = box_drop_spec [OF H(1) H(4) [OF p] run]
  let ?st = "\<lparr>slot_memory = m, counters_ptr = (counters_ptr st)(a := None)\<rparr>"
  have "q \<in> live_ptrs m \<and> (k < n \<longrightarrow> box_index q (of_nat k) m = box_index q (of_nat k) (slot_memory st))"
    if "counters_ptr st b = Some q" "b \<noteq> a" for b q k
  proof -
    have "q \<noteq> p" using H(5) [OF p] that by blast
    then show ?thesis
      using d(5) d(6) [OF H(4) [OF that(1)]] H(4) [OF that(1)] shard_word(1) [OF H(1)] H(2)
      by (simp add: box_index_def)
  qed
  then have "slots_hold n (M(a := None)) ?st"
    unfolding slots_hold_def using H d(2,3) by (auto split: if_splits)
  moreover have "slots_free a st = Inr ?st" using p run d(1) by (simp add: slots_free_def)
  ultimately show ?thesis by blast
qed

lemma slots_new_holds:
  assumes h: "slots_hold n M st" and a: "M a = None" and i: "i < n" and cur: "cur < n"
  shows "\<exists>st'. slots_new cur i a st = Inr st'
    \<and> slots_hold n (M(a \<mapsto> (replicate n a_new)[i := a_increment a_new])) st'"
proof -
  note H = slots_holdD [OF h]
  obtain m r where run: "allocate_and_init (of_nat cur) (\<lambda>_. Some new_counter) (slot_memory st) = (m, r)" by fastforce
  have cur': "(of_nat cur :: u8) \<in> set (shard_indexes (count (slot_memory st)))"
    using shard_word(1) [OF H(1)] cur H(2) by simp
  note spec = allocate_and_init_spec [OF H(1) cur' run]
  obtain p where r: "r = Inr p" using spec by (cases r) (auto simp: unwinds_def total_init_def)
  have m: "alloc_inv m" "count m = count (slot_memory st)" "p \<notin> live_ptrs (slot_memory st)"
    "live_ptrs m = insert p (live_ptrs (slot_memory st))"
    and old: "\<And>q k. \<lbrakk>q \<in> live_ptrs (slot_memory st); k < n\<rbrakk>
      \<Longrightarrow> box_index q (of_nat k) m = box_index q (of_nat k) (slot_memory st)"
    and new: "\<And>k. k < n \<Longrightarrow> box_index p (of_nat k) m = Some new_counter"
    using spec shard_word(1) [OF H(1)] H(2)
    by (simp_all add: r preserves_def gets_slot_def keeps_def box_index_def)
  let ?m = "box_index_mut p (of_nat i) (increment_ref_count new_counter) m"
  let ?st = "\<lparr>slot_memory = ?m, counters_ptr = (counters_ptr st)(a \<mapsto> p)\<rparr>"
  have pm: "p \<in> live_ptrs m" using m(4) by simp
  have box: "box_index q (of_nat k) ?m = (if q = p \<and> k = i then Some (increment_ref_count new_counter) else box_index q (of_nat k) m)"
    if "q \<in> live_ptrs m" "k < n" for q k
    using box_index_after_mut [OF m(1) pm that(1)] i that(2) H(2) m(2) by simp
  have inc: "decode (increment_ref_count new_counter) = a_increment a_new"
    using counter_laws [of new_counter] decode_new
    by (simp add: decode_def a_new_def)
  let ?M = "M(a \<mapsto> (replicate n a_new)[i := a_increment a_new])"
  have "map_option decode (box_index q (of_nat k) ?m) = Some (ds ! k) \<and> length ds = n"
    if b: "?M b = Some ds" "((counters_ptr st)(a \<mapsto> p)) b = Some q" "k < n" for b ds q k
  proof (cases "b = a")
    case True
    then show ?thesis
      using b box [OF pm b(3)] new [OF b(3)] inc decode_new by (auto simp: nth_list_update)
  next
    case False
    then have q: "q \<in> live_ptrs (slot_memory st)" "q \<noteq> p" using H(4) [of b q] b m(3) by auto
    then show ?thesis using b False box [of q k] old [OF q(1) b(3)] H(6,7) [of b ds q] m(4) by simp
  qed
  then have "slots_hold n ?M ?st"
    unfolding slots_hold_def using H(1-5) a i m
    by (auto split: if_splits)
  moreover have "slots_new cur i a st = Inr ?st"
    using run r new [OF i] by (simp add: slots_new_def box_at_curr_shard_def box_index_def)
  ultimately show ?thesis by blast
qed

section \<open>Every step\<close>

definition changes_heap :: "label \<Rightarrow> bool" where
  "changes_heap l = (case l of
     LNew a i j \<Rightarrow> True | LClone a i \<Rightarrow> True | LDrop a i \<Rightarrow> True | LDowngradeInit a w i j \<Rightarrow> True
   | LDowngradeClone a i \<Rightarrow> True | LCompareAndSet c m p i \<Rightarrow> True | LLoadInc t i \<Rightarrow> True
   | LGuardClone t j i \<Rightarrow> True | CClearTags \<Rightarrow> True | CClearWeak \<Rightarrow> True | CFree i \<Rightarrow> True
   | _ \<Rightarrow> False)"

lemma step_keeps_heap:
  assumes "step l s = Next s'" and "\<not> changes_heap l"
  shows "heap s' = heap s \<and> nshards s' = nshards s \<and> mirror cur l s st = Inr st"
  using assms
  by (cases l; simp only: step.simps changes_heap_def label.case simp_thms mirror.simps;
    auto simp: thr_step_def read_ptr_def deref_def sdarc_deref_def ptr_swap_def hazard_data_claim_def
      hazard_data_push_def release_hazard_data_def slot_reaches_memory_def flag_reaches_memory_def
      load_begin_def reader_critical_section_enter_def load_atomic_ptr_def reader_critical_section_exit_def
      borrow_preload_def try_publish_def borrow_reload_def guard_deref_def guard_drop_def
      add_handle_opt_def take_handle_opt_def take_new_counters_to_track_def begin_iteration_def
      traverse_begin_def traverse_step_def visit_next_def read_relaxed_step_def check_step_def set_state_def
      split: option.splits if_splits pc.splits cellref.splits list.splits cpc.splits tstate.splits)

lemma counters_of_cong: "heap s' = heap s \<Longrightarrow> counters_of s' = counters_of s"
  by (rule ext) (simp add: counters_of_def obj_at_def)

lemma counters_of_put:
  assumes "heap s' = heap (put a y s)" and "a < length (heap s)"
  shows "counters_of s' = (counters_of s)(a \<mapsto> shards y)"
  using assms by (intro ext) (simp add: counters_of_def obj_at_def put_def nth_list_update)

lemma counters_of_free:
  assumes "heap s' = (heap s)[a := None]"
  shows "counters_of s' = (counters_of s)(a := None)"
  using assms by (intro ext) (simp add: counters_of_def obj_at_def nth_list_update)

text \<open>A machine step that changes one counter of one object, and the word operation on its slot.\<close>

definition follows :: "nat \<Rightarrow> sys \<Rightarrow> panic + store \<Rightarrow> bool" where
  "follows n s r \<longleftrightarrow> (\<exists>st. r = Inr st \<and> slots_hold n (counters_of s) st)"

lemma follows_update:
  assumes h: "slots_hold (nshards s) (counters_of s) st" and x: "obj_at s a = Some x" and i: "i < nshards s"
    and g: "\<And>v. decode v = shards x ! i \<Longrightarrow> decode (f v) = g (shards x ! i)"
    and s': "heap s' = heap (put a (on_shard i g x) s)"
  shows "follows (nshards s) s' (slots_update f a i st)"
proof -
  have a: "counters_of s a = Some (shards x)" using x by (simp add: counters_of_def)
  have "counters_of s' = (counters_of s)(a \<mapsto> (shards x)[i := g (shards x ! i)])"
    using counters_of_put [OF s' obj_at_less [OF x]] by (simp add: on_shard_def)
  then show ?thesis
    using slots_update_holds [where f = f and g = g, OF h a i g] by (simp add: follows_def)
qed

lemma decode_increment: "acount (decode v) < 2 ^ 62 - 1 \<Longrightarrow> decode (increment_ref_count v) = a_increment (decode v)"
  by (simp add: decode_def counter_laws)

lemma decode_decremented: "- (2 ^ 62) < acount (decode v) \<Longrightarrow> decode (decremented v) = a_decremented (decode v)"
  by (simp add: decode_def counter_laws)

lemma decode_cleared: "decode (snd (fetch_and_clear_tag v)) = a_clear_tag (decode v)"
  by (simp add: decode_def counter_laws)

lemma counts_fitD:
  assumes "counts_fit s" and "reach s" and "obj_at s a = Some x" and "i < nshards s"
  shows "- (2 ^ 62) < acount (shards x ! i)" "acount (shards x ! i) < 2 ^ 62 - 1"
proof -
  have "length (shards x) = nshards s" using res_invD(2) reach_invariants [OF assms(2)] assms(3) by blast
  then have "shards x ! i \<in> set (shards x)" using assms(4) by simp
  then show "- (2 ^ 62) < acount (shards x ! i)" "acount (shards x ! i) < 2 ^ 62 - 1"
    using assms(1,3) by (auto simp: counts_fit_def counters_of_def)
qed

lemma follows_increment:
  assumes "reach s" and "counts_fit s" and "slots_hold (nshards s) (counters_of s) st" and "obj_at s a = Some x"
    and "i < nshards s" and "heap s' = heap (put a (on_shard i a_increment x) s)"
  shows "follows (nshards s) s' (slots_increment a i st)"
  unfolding slots_increment_def
  using follows_update [OF assms(3-5) _ assms(6), of increment_ref_count] decode_increment
    counts_fitD(2) [OF assms(2,1,4,5)] by metis

lemma follows_decrement:
  assumes "- (2 ^ 62) < acount (shards x ! i)" and "slots_hold (nshards s) (counters_of s) st" and "obj_at s a = Some x"
    and "i < nshards s" and "heap s' = heap (put a (on_shard i a_decremented x) s)"
  shows "follows (nshards s) s' (slots_decrement a i st)"
  unfolding slots_decrement_def
  using follows_update [OF assms(2-4) _ assms(5), of decremented] decode_decremented assms(1) by metis

lemma follows_new:
  assumes "slots_hold (nshards s) (counters_of s) st" and "obj_at s a = None" and "a < length (heap s)"
    and "i < nshards s" and "cur < nshards s" and "counters_of s' = (counters_of s)(a \<mapsto> shards (new_obj (nshards s) i b))"
  shows "follows (nshards s) s' (slots_new cur i a st)"
proof -
  have "counters_of s a = None" using assms(2) by (simp add: counters_of_def)
  then show ?thesis
    using slots_new_holds [OF assms(1) _ assms(4,5), of a] assms(6) by (simp add: follows_def new_obj_def)
qed

lemma followsI: "slots_hold n (counters_of s) st \<Longrightarrow> follows n s (Inr st)"
  by (simp add: follows_def)

lemma same_counters:
  "\<lbrakk>slots_hold n (counters_of s) st; heap s' = heap s\<rbrakk> \<Longrightarrow> follows n s' (Inr st)"
  using counters_of_cong [of s' s] by (simp add: follows_def)

lemma free_follows:
  assumes fit: "counts_fit s" and h: "slots_hold (nshards s) (counters_of s) st" and r: "reach s"
    and st: "free_step i s = Next s'"
  shows "follows (nshards s) s' (mirror cur (CFree i) s st)"
proof (cases "tofree s")
  case Nil
  then have "heap s' = heap s" using st by (auto simp: free_step_def split: if_splits)
  then show ?thesis using same_counters [OF h] Nil by simp
next
  case (Cons a rest)
  let ?s = "s\<lparr>tracked := (tracked s)(a := None), tofree := rest, heap := (heap s)[a := None]\<rparr>"
  obtain x where x: "obj_at s a = Some x" and i: "i < nshards s"
    and d: "drop_weak_inner_ref (weak_ref x) i ?s = Next s'"
    using st Cons by (auto simp: free_step_def deref_def split: if_splits option.splits)
  have M: "counters_of ?s = (counters_of s)(a := None)" by (rule counters_of_free) simp
  obtain st' where st': "slots_free a st = Inr st'" "slots_hold (nshards s) (counters_of ?s) st'"
    using slots_free_holds [OF h, of a "shards x"] x M by (auto simp: counters_of_def)
  show ?thesis
  proof (cases "weak_ref x")
    case None
    then show ?thesis using d st' Cons x by (simp add: drop_weak_inner_ref_def follows_def)
  next
    case (Some w)
    then obtain y where y: "obj_at ?s w = Some y" and s': "s' = put w (on_shard i a_decremented y) ?s"
      using d by (auto simp: drop_weak_inner_ref_def deref_def split: option.splits)
    have "obj_at s w = Some y" using y by (cases "w = a") (auto simp: obj_at_def split: if_splits)
    then have "- (2 ^ 62) < acount (shards y ! i)" by (rule counts_fitD(1) [OF fit r _ i])
    then have "follows (nshards s) s' (slots_decrement w i st')"
      using follows_decrement [of y i ?s st' w s'] st'(2) y i s' by simp
    then show ?thesis using Cons st'(1) x Some by simp
  qed
qed

lemma machine_step_follows:
  assumes r: "reach s" and fit: "counts_fit s" and h: "slots_hold (nshards s) (counters_of s) st"
    and cur: "cur < nshards s" and st: "step l s = Next s'"
  shows "follows (nshards s) s' (mirror cur l s st)"
proof (cases "changes_heap l")
  case False
  then show ?thesis using step_keeps_heap [OF st False] same_counters [OF h] by simp
next
  case True
  note inc = follows_increment [OF r fit h]
  show ?thesis
  proof (cases l)
    case (LNew a i j)
    then have a: "a < length (heap s)" "heap s ! a = None" "i < nshards s"
      and s': "s' = add_handle a (on_new_sdarc_allocated j a (put a (new_obj (nshards s) i None) s))"
      using st by (auto simp: sdarc_new_def split: if_splits)
    have "counters_of s' = (counters_of s)(a \<mapsto> shards (new_obj (nshards s) i None))"
      by (rule counters_of_put [OF _ a(1)]) (simp add: s')
    then show ?thesis
      using follows_new [OF h _ a(1,3) cur] a LNew by (simp add: obj_at_def)
  next
    case (LClone a i)
    then obtain x where "obj_at s a = Some x" "i < nshards s" "s' = add_handle a (put a (on_shard i a_increment x) s)"
      using st by (auto simp: sdarc_clone_def deref_def split: if_splits option.splits)
    then show ?thesis using inc [of a x i s'] LClone by simp
  next
    case (LDrop a i)
    then obtain x where x: "obj_at s a = Some x" "i < nshards s" "s' = take_handle a (put a (on_shard i a_decremented x) s)"
      using st by (auto simp: sdarc_drop_def deref_def split: if_splits option.splits)
    have "- (2 ^ 62) < acount (shards x ! i)" by (rule counts_fitD(1) [OF fit r x(1,2)])
    then show ?thesis using follows_decrement [OF _ h x(1,2), of s'] x(3) LDrop by simp
  next
    case (LDowngradeInit a w i j)
    then obtain x where w: "w < length (heap s)" "heap s ! w = None" "i < nshards s" and x: "obj_at s a = Some x"
      and s': "s' = on_new_sdarc_allocated j w
        (put a (x\<lparr>weak_ref := Some w\<rparr>) (put w (new_obj (nshards s) i (Some a)) s))"
      using st by (auto simp: downgrade_init_def deref_def split: if_splits option.splits)
    let ?s = "put w (new_obj (nshards s) i (Some a)) s"
    have aw: "a \<noteq> w" using x w by (auto simp: obj_at_def)
    have 1: "counters_of ?s = (counters_of s)(w \<mapsto> shards (new_obj (nshards s) i (Some a)))"
      by (rule counters_of_put [OF refl w(1)])
    have "counters_of s' = (counters_of ?s)(a \<mapsto> shards x)"
      using counters_of_put [of s' a "x\<lparr>weak_ref := Some w\<rparr>" ?s] obj_at_less [OF x] by (simp add: s')
    also have "\<dots> = counters_of ?s" using 1 x aw by (auto simp: counters_of_def fun_upd_idem_iff)
    finally have "counters_of s' = (counters_of s)(w \<mapsto> shards (new_obj (nshards s) i (Some a)))" using 1 by simp
    then show ?thesis
      using follows_new [OF h _ w(1,3) cur] w LDowngradeInit by (simp add: obj_at_def)
  next
    case (LDowngradeClone a i)
    then obtain x w y where "obj_at s a = Some x" "weak_ref x = Some w" "obj_at s w = Some y" "i < nshards s"
      "s' = add_handle w (put w (on_shard i a_increment y) s)"
      using st by (auto simp: downgrade_clone_def deref_def split: if_splits option.splits)
    then show ?thesis using inc [of w y i s'] LDowngradeClone by simp
  next
    case (LCompareAndSet c m p i)
    show ?thesis
    proof (cases "cells s ! c = m \<and> p \<noteq> None")
      case True
      then obtain a x where p: "p = Some a" and x: "obj_at s a = Some x" "i < nshards s"
        and s': "s' = add_handle_opt m (put a (on_shard i a_increment x) (cas_exchange c p s))"
        using st LCompareAndSet
        by (auto simp: compare_and_set_def cas_increment_def deref_def cas_exchange_def split: if_splits option.splits)
      have "heap s' = heap (put a (on_shard i a_increment x) s)"
        by (cases m) (simp_all add: s' put_def cas_exchange_def)
      then show ?thesis using inc [OF x] LCompareAndSet True p by simp
    next
      case False
      then have "heap s' = heap s"
        using st LCompareAndSet
        by (cases m) (auto simp: compare_and_set_def cas_increment_def cas_exchange_def split: if_splits)
      then show ?thesis using same_counters [OF h] LCompareAndSet False by auto
    qed
  next
    case (LLoadInc t i)
    then obtain a x where "at_pc (thrs s ! t) = LoadInc a" "obj_at s a = Some x" "i < nshards s"
      "heap s' = heap (put a (on_shard i a_increment x) s)"
      using st by (auto simp: load_increment_def thr_step_def deref_def split: if_splits option.splits pc.splits)
    then show ?thesis using inc [of a x i s'] LLoadInc by simp
  next
    case (LGuardClone t j i)
    then obtain a x where "guards (thrs s ! t) j = Some a" "obj_at s a = Some x" "i < nshards s"
      "heap s' = heap (put a (on_shard i a_increment x) s)"
      using st by (auto simp: guard_clone_def thr_step_def deref_def split: if_splits option.splits)
    then show ?thesis using inc [of a x i s'] LGuardClone by simp
  next
    case CClearTags
    then obtain a k acc where pc: "at_cpc s = CClear a k acc"
      using st by (auto simp: clear_tags_step_def split: cpc.splits)
    show ?thesis
    proof (cases "k < nshards s")
      case True
      then obtain x where x: "obj_at s a = Some x" and s': "heap s' = heap (put a (on_shard k a_clear_tag x) s)"
        using st CClearTags pc by (auto simp: clear_tags_step_def deref_def put_def split: option.splits)
      show ?thesis
        using follows_update [OF h x True _ s', of "\<lambda>v. snd (fetch_and_clear_tag v)"] decode_cleared CClearTags pc True
        by (simp add: slots_clear_tag_def)
    next
      case False
      then have "heap s' = heap s" using st CClearTags pc by (auto simp: clear_tags_step_def set_state_def split: if_splits)
      then show ?thesis using same_counters [OF h] CClearTags pc False by simp
    qed
  next
    case CClearWeak
    then obtain a where pc: "at_cpc s = CWeak a" using st by (auto simp: clear_weak_backref_def split: cpc.splits)
    have "counters_of s' = counters_of s"
    proof (cases "heap s' = heap s")
      case False
      then obtain w y where y: "obj_at s w = Some y" and s': "heap s' = heap (put w (y\<lparr>back_ref := None\<rparr>) s)"
        using st CClearWeak pc
        by (auto simp: clear_weak_backref_def deref_def ready_to_free_def set_state_def put_def
            split: option.splits if_splits)
      have "counters_of s' = (counters_of s)(w \<mapsto> shards y)"
        using counters_of_put [OF s' obj_at_less [OF y]] by simp
      then show ?thesis using y by (simp add: counters_of_def fun_upd_idem_iff)
    qed (rule counters_of_cong)
    then show ?thesis using h CClearWeak by (simp add: follows_def)
  next
    case (CFree i)
    then show ?thesis using free_follows [OF fit h r, of i s' cur] st by simp
  qed (use True in \<open>simp_all add: changes_heap_def\<close>)
qed

lemma step_nshards:
  assumes "step l s = Next s'"
  shows "nshards s' = nshards s"
proof (cases "changes_heap l")
  case True
  then show ?thesis
    using assms
    by (cases l; simp only: step.simps changes_heap_def label.case simp_thms;
      auto simp: sdarc_new_def sdarc_clone_def sdarc_drop_def downgrade_init_def downgrade_clone_def
        compare_and_set_def cas_increment_def cas_exchange_def load_increment_def guard_clone_def
        clear_tags_step_def clear_weak_backref_def free_step_def drop_weak_inner_ref_def thr_step_def deref_def
        set_state_def ready_to_free_def add_handle_opt_def
        split: option.splits if_splits pc.splits cpc.splits list.splits)
qed (use step_keeps_heap [OF assms] in simp)

section \<open>Properties\<close>

lemma initial_slots:
  assumes "valid_count c"
  shows "\<exists>m. slots_hold (unat (shard_count c)) (counters_of (start (unat (shard_count c)) addrs cs))
    \<lparr>slot_memory = m, counters_ptr = \<lambda>_. None\<rparr>"
proof -
  obtain fa where "alloc_inv (start_state c bump_alloc fa :: i64 alloc_state)"
    using start_state_inv [OF assms bump_alloc_good [OF assms]] by blast
  then have "slots_hold (unat (shard_count c)) (counters_of (start (unat (shard_count c)) addrs cs))
      \<lparr>slot_memory = start_state c bump_alloc fa, counters_ptr = \<lambda>_. None\<rparr>"
    by (simp add: slots_hold_def counters_of_def obj_at_def start_def start_state_def)
  then show ?thesis by blast
qed

text \<open>
  C25: the 64-bit words in the allocator's slots follow the machine. Whatever step any thread or the
  collector takes in a reachable state, as long as every shard's count is inside the range of a
  word, the word operations of that step succeed (no panic, no uninitialised slot, no double
  free) and afterwards every live object again owns one slot whose words encode exactly the
  machine's counters, every other object none; so two objects never share a counter.
\<close>

theorem words_in_slots_follow_machine:
  assumes "reach s" and "counts_fit s" and "slots_hold (nshards s) (counters_of s) st" and "cur < nshards s"
    and "step l s = Next s'"
  shows "\<exists>st'. mirror cur l s st = Inr st' \<and> slots_hold (nshards s') (counters_of s') st'"
proof -
  have "reach s'" by (rule reach_step [OF assms(1,5)])
  obtain st' where st': "mirror cur l s st = Inr st'" "slots_hold (nshards s) (counters_of s') st'"
    using machine_step_follows [OF assms(1-5)] by (auto simp: follows_def)
  moreover have "nshards s' = nshards s"
    by (rule step_nshards [OF assms(5)])
  ultimately show ?thesis by simp
qed

text \<open>A new object on two shards, with its first reference counted on the second.\<close>

theorem words_in_slots_follow_machine_witness:
  "\<exists>st st' p. mirror 0 (LNew 0 1 0) (start 2 1 1) st = Inr st' \<and> counters_ptr st' 0 = Some p
    \<and> map_option decode (box_index p 0 (slot_memory st')) = Some (ACounter 0 False)
    \<and> map_option decode (box_index p 1 (slot_memory st')) = Some (ACounter 1 False)"
proof -
  let ?c = "from_exponent_adjusted 1" and ?s = "start 2 1 1"
  have n: "unat (shard_count ?c) = 2" by (simp add: from_exponent_adjusted_eq)
  obtain m where m: "slots_hold 2 (counters_of ?s) \<lparr>slot_memory = m, counters_ptr = \<lambda>_. None\<rparr>"
    using initial_slots [OF valid_from_exponent [of 1], of 1 1] unfolding n by blast
  have r: "reach ?s" by (rule reach_start) simp
  have fit: "counts_fit ?s" by (simp add: counts_fit_def counters_of_def obj_at_def start_def)
  have two: "nshards ?s = 2" by (simp add: start_def)
  have "is_next (step (LNew 0 1 0) ?s)" by code_simp
  then obtain s' where s': "step (LNew 0 1 0) ?s = Next s'" by (cases "step (LNew 0 1 0) ?s") simp_all
  obtain st' where st': "mirror 0 (LNew 0 1 0) ?s \<lparr>slot_memory = m, counters_ptr = \<lambda>_. None\<rparr> = Inr st'"
      "slots_hold (nshards s') (counters_of s') st'"
    using words_in_slots_follow_machine [OF r fit _ _ s', of _ 0] m two by auto
  have cs: "counters_of s' 0 = Some [ACounter 0 False, ACounter 1 False]" and "nshards s' = 2"
    using s' by (auto simp: sdarc_new_def start_def counters_of_def new_obj_def a_new_def put_def obj_at_def
        numeral_2_eq_2 on_new_sdarc_allocated_def add_handle_def)
  then obtain p where p: "counters_ptr st' 0 = Some p" using slots_holdD(3) [OF st'(2), of 0] by auto
  have "map_option decode (box_index p (of_nat k) (slot_memory st')) = Some ([ACounter 0 False, ACounter 1 False] ! k)"
    if "k < 2" for k
    using slots_holdD(7) [OF st'(2) cs p] that \<open>nshards s' = 2\<close> by simp
  from this [of 0] this [of 1] show ?thesis using st'(1) p by auto
qed

end
