(* ===== verification/SlotReads.thy ===== *)
theory SlotReads
  imports CountersInSlots InnerIteration
begin

text \<open>
  The collector's three ways of reading an object's counters, on the words in the slots of the
  sharded allocator: \<open>src/src/collector.rs\<close> sums \<open>i64\<close> values with wrap-around, shard by shard. They
  agree with the sums of unbounded counters of \<open>CollectorThread\<close> whenever the total fits in an
  \<open>i64\<close>, whatever the partial sums do; the clearing read leaves the slots as the machine's does.
\<close>

section \<open>The reads\<close>

text \<open>\<open>load_relaxed\<close> and \<open>load_acquire\<close> of the word in shard \<open>k\<close>. Reading a freed slot is undefined behaviour.\<close>

definition slots_load :: "addr \<Rightarrow> nat \<Rightarrow> store \<Rightarrow> i64 outcome" where
  "slots_load a k st =
     (case counters_ptr st a of
        None \<Rightarrow> Fault
      | Some p \<Rightarrow> (case box_index p (of_nat k) (slot_memory st) of None \<Rightarrow> Fault | Some v \<Rightarrow> Next v))"

fun slots_read_sum :: "nat list \<Rightarrow> i64 \<Rightarrow> addr \<Rightarrow> store \<Rightarrow> i64 outcome" where
  "slots_read_sum [] n a st = Next n"
| "slots_read_sum (k # ks) n a st =
     bind_outcome (slots_load a k st) (\<lambda>v. slots_read_sum ks (n + ref_count v) a st)"

fun slots_clear_and_read_sum :: "nat list \<Rightarrow> i64 \<Rightarrow> addr \<Rightarrow> store \<Rightarrow> (i64 \<times> store) outcome" where
  "slots_clear_and_read_sum [] n a st = Next (n, st)"
| "slots_clear_and_read_sum (k # ks) n a st =
     bind_outcome (slots_load a k st) (\<lambda>v.
       case slots_clear_tag a k st of
         Inl e \<Rightarrow> Fault
       | Inr st' \<Rightarrow> slots_clear_and_read_sum ks (n + ref_count (fst (fetch_and_clear_tag v))) a st')"

fun slots_read_sum_if_untagged :: "nat list \<Rightarrow> i64 \<Rightarrow> addr \<Rightarrow> store \<Rightarrow> i64 option outcome" where
  "slots_read_sum_if_untagged [] n a st = Next (Some n)"
| "slots_read_sum_if_untagged (k # ks) n a st =
     bind_outcome (slots_load a k st) (\<lambda>v.
       if tag v then Next None else slots_read_sum_if_untagged ks (n + ref_count v) a st)"

section \<open>Agreement\<close>

lemma slots_load_word:
  assumes h: "slots_hold n M st" and a: "M a = Some cs" and k: "k < n"
  shows "\<exists>v. slots_load a k st = Next v \<and> decode v = cs ! k"
proof -
  note H = slots_holdD [OF h]
  obtain p where p: "counters_ptr st a = Some p" using H(3) [of a] a by auto
  then show ?thesis using H(7) [OF a p k] by (auto simp: slots_load_def)
qed

lemma ref_count_word: "decode v = c \<Longrightarrow> ref_count v = word_of_int (acount c)"
  by (auto simp: decode_def count_of_def)

lemma tag_word: "decode v = c \<Longrightarrow> tag v = atag c"
  by (auto simp: decode_def)

lemma read_sum_agrees:
  assumes h: "slots_hold n M st" and a: "M a = Some (shards x)" and ks: "\<forall>k\<in>set ks. k < n"
  shows "slots_read_sum ks (word_of_int acc) a st
    = Next (word_of_int (acc + read_ref_count_sum_relaxed ks x))"
  using ks
proof (induction ks arbitrary: acc)
  case (Cons k ks)
  obtain v where v: "slots_load a k st = Next v" "decode v = shards x ! k"
    using slots_load_word [OF h a] Cons.prems by auto
  then show ?case
    using Cons.IH [of "acc + acount (shards x ! k)"] Cons.prems by (simp add: ref_count_word add.assoc)
qed simp

lemma read_untagged_agrees:
  assumes h: "slots_hold n M st" and a: "M a = Some (shards x)" and ks: "\<forall>k\<in>set ks. k < n"
  shows "slots_read_sum_if_untagged ks (word_of_int acc) a st
    = Next (map_option (\<lambda>t. word_of_int (acc + t)) (read_ref_count_sum_if_all_tags_unset_acquire ks x))"
  using ks
proof (induction ks arbitrary: acc)
  case (Cons k ks)
  obtain v where v: "slots_load a k st = Next v" "decode v = shards x ! k"
    using slots_load_word [OF h a] Cons.prems by auto
  then show ?case
    using Cons.IH [of "acc + acount (shards x ! k)"] Cons.prems
    by (auto simp: ref_count_word tag_word add.assoc split: option.split)
qed simp

lemma clear_sum_agrees:
  assumes "slots_hold n M st" and "M a = Some (shards x)" and "\<forall>k\<in>set ks. k < n"
  shows "\<exists>st'. slots_clear_and_read_sum ks (word_of_int acc) a st
      = Next (word_of_int (acc + fst (clear_tags_and_read_ref_count_sum_acquire ks x)), st')
    \<and> slots_hold n (M(a \<mapsto> shards (snd (clear_tags_and_read_ref_count_sum_acquire ks x)))) st'"
  using assms
proof (induction ks arbitrary: acc x st M)
  case Nil
  then have "M(a \<mapsto> shards x) = M" by auto
  then show ?case using Nil by simp
next
  case (Cons k ks)
  let ?c = "shards x ! k" and ?x = "on_shard k a_clear_tag x"
  have k: "k < n" using Cons.prems(3) by simp
  obtain v where v: "slots_load a k st = Next v" "decode v = ?c"
    using slots_load_word [OF Cons.prems(1,2) k] by blast
  obtain st1 where st1: "slots_clear_tag a k st = Inr st1"
    and h1: "slots_hold n (M(a \<mapsto> (shards x)[k := a_clear_tag ?c])) st1"
    using slots_update_holds [OF Cons.prems(1,2) k, of "\<lambda>v. snd (fetch_and_clear_tag v)" a_clear_tag]
      decode_cleared unfolding slots_clear_tag_def by auto
  have "shards ?x = (shards x)[k := a_clear_tag ?c]" by (simp add: on_shard_def)
  then have h2: "slots_hold n (M(a \<mapsto> shards ?x)) st1" using h1 by simp
  obtain m y where my: "clear_tags_and_read_ref_count_sum_acquire ks ?x = (m, y)" by fastforce
  have ks: "\<forall>k\<in>set ks. k < n" using Cons.prems(3) by simp
  have "(M(a \<mapsto> shards ?x)) a = Some (shards ?x)" by simp
  note ih = Cons.IH [OF h2 this ks, where acc = "acc + acount ?c"]
  obtain st2 where "slots_clear_and_read_sum ks (word_of_int (acc + acount ?c)) a st1
      = Next (word_of_int (acc + acount ?c + m), st2)" "slots_hold n (M(a \<mapsto> shards y)) st2"
    using ih my by (auto simp: add.assoc simp del: fun_upd_apply)
  then show ?case
    using v st1 my by (auto simp: ref_count_word fetch_and_clear_tag_def add.assoc simp del: fun_upd_apply)
qed

text \<open>
  C38: the collector's sums of 64-bit words are the sums of the counters. For an object whose
  slots hold the machine's counters, if the sum of all shards fits in an \<open>i64\<close>, the relaxed read,
  the clearing read and the read that stops at a tag return that sum although each adds with
  wrap-around, none reads a freed slot, and the clearing read leaves the slots of the object with
  its tags cleared.
\<close>

theorem slot_sums_exact:
  assumes "slots_hold (nshards s) (counters_of s) st" and "obj_at s a = Some x"
    and "- (2 ^ 63) \<le> total x" and "total x < 2 ^ 63"
  shows "(\<exists>w. slots_read_sum [0..<nshards s] 0 a st = Next w
        \<and> sint w = read_ref_count_sum_relaxed [0..<nshards s] x)
    \<and> (\<exists>w st'. slots_clear_and_read_sum [0..<nshards s] 0 a st = Next (w, st')
        \<and> sint w = fst (clear_tags_and_read_ref_count_sum_acquire [0..<nshards s] x)
        \<and> slots_hold (nshards s)
            (counters_of (put a (snd (clear_tags_and_read_ref_count_sum_acquire [0..<nshards s] x)) s)) st')
    \<and> (\<exists>r. slots_read_sum_if_untagged [0..<nshards s] 0 a st = Next r
        \<and> map_option sint r = read_ref_count_sum_if_all_tags_unset_acquire [0..<nshards s] x)"
proof (intro conjI)
  let ?n = "nshards s"
  let ?all = "[0..<?n]"
  have a: "counters_of s a = Some (shards x)" using assms(2) by (simp add: counters_of_def)
  have ks: "\<forall>k\<in>set ?all. k < ?n" by simp
  obtain p where p: "counters_ptr st a = Some p" using slots_holdD(3) [OF assms(1), of a] a by auto
  have len: "length (shards x) = ?n" by (rule slots_holdD(6) [OF assms(1) a p])
  have sint: "sint (word_of_int (total x) :: i64) = total x" by (rule sint_word_of_int_small [OF assms(3,4)])
  have sums: "read_ref_count_sum_relaxed ?all x = total x"
    "fst (clear_tags_and_read_ref_count_sum_acquire ?all x) = total x"
    "\<And>t. read_ref_count_sum_if_all_tags_unset_acquire ?all x = Some t \<Longrightarrow> t = total x"
    using sum_relaxed [OF len] clear_tags_all(1) [OF len surjective_pairing] read_untagged [OF len]
    by (simp_all split: if_splits)
  show "\<exists>w. slots_read_sum ?all 0 a st = Next w \<and> sint w = read_ref_count_sum_relaxed ?all x"
    using read_sum_agrees [OF assms(1) a ks, of 0] sums(1) sint by simp
  show "\<exists>w st'. slots_clear_and_read_sum ?all 0 a st = Next (w, st')
      \<and> sint w = fst (clear_tags_and_read_ref_count_sum_acquire ?all x)
      \<and> slots_hold ?n (counters_of (put a (snd (clear_tags_and_read_ref_count_sum_acquire ?all x)) s)) st'"
    using clear_sum_agrees [OF assms(1) a ks, of 0] sums(2) sint
      counters_of_put [OF refl obj_at_less [OF assms(2)]] by auto
  show "\<exists>r. slots_read_sum_if_untagged ?all 0 a st = Next r
      \<and> map_option sint r = read_ref_count_sum_if_all_tags_unset_acquire ?all x"
    using read_untagged_agrees [OF assms(1) a ks, of 0] sums(3) sint
    by (cases "read_ref_count_sum_if_all_tags_unset_acquire ?all x") auto
qed

theorem slot_sums_exact_witness:
  "\<exists>st w. slots_read_sum [0, 1] 0 0 st = Next w \<and> sint w = 1"
proof -
  let ?c = "from_exponent_adjusted 1" and ?s = "start 2 1 1"
  let ?s' = "after (step (LNew 0 1 0) ?s)"
  let ?x = "new_obj 2 1 None"
  have n: "unat (shard_count ?c) = 2" by (simp add: from_exponent_adjusted_eq)
  obtain m where m: "slots_hold 2 (counters_of ?s) \<lparr>slot_memory = m, counters_ptr = \<lambda>_. None\<rparr>"
    using initial_slots [OF valid_from_exponent [of 1], of 1 1] unfolding n by blast
  have r: "reach ?s" by (rule reach_start) simp
  have fit: "counts_fit ?s" by (simp add: counts_fit_def counters_of_def obj_at_def start_def)
  have two: "nshards ?s = 2" by (simp add: start_def)
  have s': "step (LNew 0 1 0) ?s = Next ?s'" "obj_at ?s' 0 = Some ?x" "nshards ?s' = 2"
    by (simp_all add: sdarc_new_def start_def put_def obj_at_def on_new_sdarc_allocated_def add_handle_def)
  have "follows (nshards ?s) ?s' (mirror 0 (LNew 0 1 0) ?s \<lparr>slot_memory = m, counters_ptr = \<lambda>_. None\<rparr>)"
    by (rule machine_step_follows [OF r fit _ _ s'(1)]) (use m two in simp_all)
  then obtain st where st: "slots_hold (nshards ?s') (counters_of ?s') st"
    using two s'(3) by (auto simp: follows_def)
  have tot: "total ?x = 1" by (simp add: new_obj_def total_def a_new_def numeral_2_eq_2)
  have up: "[0..<nshards ?s'] = [0, 1]" unfolding s'(3) by (simp add: upt_rec)
  have "\<exists>w. slots_read_sum [0..<nshards ?s'] 0 0 st = Next w
      \<and> sint w = read_ref_count_sum_relaxed [0..<nshards ?s'] ?x"
    by (rule conjunct1 [OF slot_sums_exact [OF st s'(2)]]) (simp_all add: tot [simplified])
  moreover have "read_ref_count_sum_relaxed [0, 1] ?x = 1"
    by (simp add: new_obj_def a_new_def numeral_2_eq_2)
  ultimately show ?thesis unfolding up by metis
qed

end
