(* ===== verification/Interleaved.thy ===== *)
theory Interleaved
  imports Calls
begin

text \<open>
  Reclamation while the other threads go on. An object that no thread has is out of their reach:
  whatever they do between the collector's accesses, its counters stay, nobody reads its address
  and no hazard slot comes to hold it. Each complete inner iteration that visits it then moves it
  one stage towards its free.
\<close>

section \<open>What threads can do to an object nobody has\<close>

text \<open>The addresses a thread holds in the middle of a load or a borrow.\<close>

fun remembers :: "pc \<Rightarrow> addr \<Rightarrow> bool" where
  "remembers (LoadInc b) a = (b = a)"
| "remembers (LoadExit p) a = (p = Some a)"
| "remembers (BorrowPub r b) a = (b = a)"
| "remembers (BorrowReload r b j) a = (b = a)"
| "remembers _ a = False"

definition no_thread_has :: "sys \<Rightarrow> addr \<Rightarrow> bool" where
  "no_thread_has s a \<longleftrightarrow> (\<forall>th\<in>set (thrs s). \<not> remembers (at_pc th) a \<and> (\<forall>j. guards th j \<noteq> Some a))"

definition nobody_has :: "sys \<Rightarrow> addr \<Rightarrow> bool" where
  "nobody_has s a \<longleftrightarrow> tokens s a = 0 \<and> no_thread_has s a"

text \<open>No handle and no atomic pointer: what is left are the weak references of other objects.\<close>

definition lonely :: "sys \<Rightarrow> addr \<Rightarrow> bool" where
  "lonely s a \<longleftrightarrow> handles s a = 0 \<and> Some a \<notin> set (cells s) \<and> no_thread_has s a"

text \<open>
  Nobody can come by the object any more: nobody has it, and nobody has the weak object that
  points back to it, if there is one.
\<close>

definition forgotten :: "sys \<Rightarrow> addr \<Rightarrow> bool" where
  "forgotten s a \<longleftrightarrow> nobody_has s a
     \<and> (\<forall>w y. obj_at s w = Some y \<longrightarrow> back_ref y = Some a \<longrightarrow> lonely s w \<and> weak_ref y = None)"

lemma nobody_lonely: "nobody_has s a \<Longrightarrow> lonely s a"
proof -
  assume "nobody_has s a"
  then have "handles s a = 0" "\<not> count_where (\<lambda>c. c = Some a) (cells s) > 0" "no_thread_has s a"
    by (simp_all add: nobody_has_def tokens_def)
  then show ?thesis unfolding count_where_pos by (auto simp: lonely_def)
qed

lemma tokens_no_owner: "tokens s a = 0 \<Longrightarrow> no_weak_owner s a"
proof -
  assume "tokens s a = 0"
  then have n: "\<not> count_where (holds_weak a) (heap s) > 0" by (simp add: tokens_def)
  have "weak_ref x \<noteq> Some a" if "obj_at s c = Some x" for c x
  proof
    assume "weak_ref x = Some a"
    then have "holds_weak a (heap s ! c)" "heap s ! c \<in> set (heap s)"
      using that heap_obj_at [OF that] nth_mem [OF obj_at_less [OF that]] by (simp_all add: holds_weak_def)
    then show False using n unfolding count_where_pos by blast
  qed
  then show ?thesis by (simp add: no_weak_owner_def)
qed

lemma no_thread_simps:
  "no_thread_has s a \<Longrightarrow> \<not> guard_on s t j a" "no_thread_has s a \<Longrightarrow> \<not> loading s t a"
  by (auto simp: no_thread_has_def guard_on_def loading_def) (metis nth_mem remembers.simps(1))

lemma no_thread_cong: "thrs s' = thrs s \<Longrightarrow> no_thread_has s' a = no_thread_has s a"
  by (simp add: no_thread_has_def)

lemma no_thread_set:
  "\<lbrakk>no_thread_has s a; thrs s' = (thrs s)[t := th]; \<not> remembers (at_pc th) a; \<And>j. guards th j \<noteq> Some a\<rbrakk>
    \<Longrightarrow> no_thread_has s' a"
  using set_update_subset_insert [of "thrs s" t th] by (auto simp: no_thread_has_def)

definition lacks :: "thr \<Rightarrow> addr \<Rightarrow> bool" where
  "lacks th a \<longleftrightarrow> \<not> remembers (at_pc th) a \<and> (\<forall>j. guards th j \<noteq> Some a)"

lemma lacks_simps [simp]:
  "lacks (th\<lparr>slots := f\<rparr>) a = lacks th a" "lacks (th\<lparr>flag := l\<rparr>) a = lacks th a"
  "lacks (th\<lparr>is_used := u\<rparr>) a = lacks th a"
  "lacks th a \<Longrightarrow> lacks (th\<lparr>at_pc := p\<rparr>) a = (\<not> remembers p a)"
  "lacks th a \<Longrightarrow> lacks (th\<lparr>guards := (guards th)(j := q)\<rparr>) a = (q \<noteq> Some a)"
  by (auto simp: lacks_def)

lemma lacks_nth: "no_thread_has s a \<Longrightarrow> t < length (thrs s) \<Longrightarrow> lacks (thrs s ! t) a"
  by (simp add: no_thread_has_def lacks_def)

lemma lacks_set: "no_thread_has s a \<Longrightarrow> thrs s' = (thrs s)[t := th] \<Longrightarrow> lacks th a \<Longrightarrow> no_thread_has s' a"
  unfolding lacks_def using no_thread_set by blast

lemma no_thread_nth:
  "no_thread_has s a \<Longrightarrow> t < length (thrs s) \<Longrightarrow> \<not> remembers (at_pc (thrs s ! t)) a \<and> guards (thrs s ! t) j \<noteq> Some a"
  by (simp add: no_thread_has_def)

lemma thread_effect:
  assumes "res_inv s" and "\<not> is_collector l" and "step l s = Next s'"
  shows "effect s s'"
proof (cases "\<exists>t. l = LRelease t")
  case True
  then obtain t where "l = LRelease t" by blast
  then show ?thesis using release_outcome [OF assms(1), of t] assms(3) by auto
next
  case False
  note g = good_steps [OF assms(1)]
  have "good s (step l s)"
    using False assms(2) by (cases l) (simp_all only: step.simps g is_collector.simps simp_thms, blast)
  then show ?thesis using assms(3) by simp
qed

text \<open>No handle leads to the object by a weak reference either.\<close>

definition unowned :: "sys \<Rightarrow> addr \<Rightarrow> bool" where
  "unowned s b \<longleftrightarrow> lonely s b \<and> (\<forall>c y. obj_at s c = Some y \<longrightarrow> weak_ref y = Some b \<or> back_ref y = Some b
     \<longrightarrow> handles s c = 0)"

lemma unowned_object:
  assumes "\<not> is_collector l" and "step l s = Next s'" and "obj_at s b = Some x" and "lonely s b"
    and "\<And>c y. \<lbrakk>obj_at s c = Some y; weak_ref y = Some b\<rbrakk> \<Longrightarrow> handles s c = 0"
  shows "obj_at s' b = Some x"
proof -
  have h: "handles s b = 0" and nt: "no_thread_has s b" and b: "heap s ! b = Some x" "b < length (heap s)"
    using assms(3,4) heap_obj_at obj_at_less by (auto simp: lonely_def)
  show ?thesis
  proof (cases l)
    case (LDowngradeClone a i)
    have "weak_ref y \<noteq> Some b" if "obj_at s a = Some y" "0 < handles s a" for y
      using assms(5) that by auto
    then show ?thesis using assms(2) LDowngradeClone b
      by (auto simp: downgrade_clone_def deref_def put_def add_handle_def obj_at_def nth_list_update
          split: option.splits if_splits)
  next
    case (LLoadInc t i)
    then show ?thesis using assms(2) no_thread_nth [OF nt, of t] b
      by (auto simp: memory_defs load_increment_def obj_at_def nth_list_update split: pc.splits if_splits option.splits)
  next
    case (LGuardClone t j i)
    then show ?thesis using assms(2) no_thread_nth [OF nt, of t j] b
      by (auto simp: memory_defs guard_clone_def obj_at_def nth_list_update split: if_splits option.splits)
  qed (use assms(1,2) b h in \<open>simp_all only: step.simps is_collector.simps simp_thms,
    auto simp: memory_defs handle_defs reader_defs obj_at_def nth_list_update
        split: option.splits if_splits pc.splits cellref.splits\<close>)
qed

lemma unowned_thread:
  assumes "no_thread_has s b" and "t < length (thrs s)" and "thrs s' = (thrs s)[t := th]"
    and "\<not> remembers (at_pc th) b" and "\<And>j. guards th j \<noteq> Some b"
  shows "no_thread_has s' b"
  using assms no_thread_set by blast

lemma unowned_read:
  assumes "unowned s b" and "read_ptr s r k = Next s'"
  shows "\<exists>p. k p = Next s' \<and> p \<noteq> Some b"
  using assms
  by (auto simp: read_ptr_def deref_def unowned_def lonely_def split: cellref.splits if_splits option.splits)
    (metis nth_mem)+

lemma handle_labels_threads:
  assumes "case l of LNew a i j \<Rightarrow> True | LClone a i \<Rightarrow> True | LDrop a i \<Rightarrow> True | LDeref a \<Rightarrow> True
      | LDowngradeInit a w i j \<Rightarrow> True | LDowngradeClone a i \<Rightarrow> True | LSwap c p \<Rightarrow> True
      | LCompareAndSet c m p i \<Rightarrow> True | _ \<Rightarrow> False"
    and "step l s = Next s'"
  shows "thrs s' = thrs s"
  using assms
  by (cases l) (auto simp: handle_defs deref_def put_def add_handle_def take_handle_def add_handle_opt_def
      take_handle_opt_def split: if_splits option.splits)

text \<open>The atomic pointer a step of a thread loads.\<close>

fun reads :: "label \<Rightarrow> sys \<Rightarrow> cellref option" where
  "reads (LLoadPtr t) s = (case at_pc (thrs s ! t) of LoadPtr r \<Rightarrow> Some r | _ \<Rightarrow> None)"
| "reads (LBorrowPreload t r) s = Some r"
| "reads (LBorrowReload t) s = (case at_pc (thrs s ! t) of BorrowReload r a j \<Rightarrow> Some r | _ \<Rightarrow> None)"
| "reads _ s = None"

lemma unread_no_thread:
  assumes "\<not> is_collector l" and "step l s = Next s'" and nt: "no_thread_has s b"
    and rd: "\<And>r k. \<lbrakk>reads l s = Some r; read_ptr s r k = Next s'\<rbrakk> \<Longrightarrow> \<exists>p. k p = Next s' \<and> p \<noteq> Some b"
  shows "no_thread_has s' b"
proof -
  note t = no_thread_nth [OF nt] no_thread_set [OF nt]
  show ?thesis
  proof (cases l)
    case (LLoadPtr t)
    then obtain r where t0: "t < length (thrs s)" "at_pc (thrs s ! t) = LoadPtr r" "read_ptr s r (\<lambda>p. Next (set_thr t
        ((thrs s ! t)\<lparr>at_pc := (case p of None \<Rightarrow> LoadExit None | Some a \<Rightarrow> LoadInc a)\<rparr>) s)) = Next s'"
      using assms(2) by (auto simp: load_atomic_ptr_def thr_step_def split: if_splits pc.splits)
    then obtain p where t1: "t < length (thrs s)" "p \<noteq> Some b"
      "s' = set_thr t ((thrs s ! t)\<lparr>at_pc := (case p of None \<Rightarrow> LoadExit None | Some a \<Rightarrow> LoadInc a)\<rparr>) s"
      using rd [OF _ t0(3)] LLoadPtr by auto
    then show ?thesis
      using no_thread_nth [OF nt t1(1)] by (intro no_thread_set [OF nt, of _ t]) (auto split: option.splits)
  next
    case (LBorrowPreload t r)
    then have t0: "t < length (thrs s)" "read_ptr s r (\<lambda>p. Next (set_thr t
        ((thrs s ! t)\<lparr>at_pc := (case p of None \<Rightarrow> Idle | Some a \<Rightarrow> BorrowPub r a)\<rparr>) s)) = Next s'"
      using assms(2) by (auto simp: borrow_preload_def thr_step_def split: if_splits)
    then obtain p where t1: "t < length (thrs s)" "p \<noteq> Some b"
      "s' = set_thr t ((thrs s ! t)\<lparr>at_pc := (case p of None \<Rightarrow> Idle | Some a \<Rightarrow> BorrowPub r a)\<rparr>) s"
      using rd [OF _ t0(2)] LBorrowPreload by auto
    then show ?thesis
      using no_thread_nth [OF nt t1(1)] by (intro no_thread_set [OF nt, of _ t]) (auto split: option.splits)
  next
    case (LBorrowReload t)
    then obtain r a j where t1: "t < length (thrs s)" "at_pc (thrs s ! t) = BorrowReload r a j"
      using assms(2) by (auto simp: borrow_reload_def thr_step_def split: if_splits pc.splits)
    let ?k = "\<lambda>p. if p = Some a
         then Next (set_thr t ((thrs s ! t)\<lparr>at_pc := Idle, guards := (guards (thrs s ! t))(j := Some a)\<rparr>) s)
         else Next (set_thr t ((thrs s ! t)\<lparr>at_pc := LoadStart r,
                slots := (slots (thrs s ! t))(j := write_to None (slots (thrs s ! t) j))\<rparr>) s)"
    have "read_ptr s r ?k = Next s'"
      using assms(2) LBorrowReload t1 by (simp add: borrow_reload_def thr_step_def split: if_splits)
    then obtain p where t2: "?k p = Next s'" using rd [of r ?k] LBorrowReload t1(2) by auto
    have a: "a \<noteq> b" using no_thread_nth [OF nt t1(1)] t1(2) by auto
    show ?thesis
      using no_thread_nth [OF nt t1(1)] a t2
      by (cases "p = Some a") (auto intro!: no_thread_set [OF nt, of _ t] split: if_splits)
  next
    case LPush
    then show ?thesis using nt assms(2) by (auto simp: hazard_data_push_def no_thread_has_def new_thr_def)
  next
    case (LLoadInc t i)
    then show ?thesis using assms(2) no_thread_nth [OF nt, of t]
      by (auto simp: load_increment_def memory_defs split: pc.splits if_splits option.splits
          intro!: no_thread_set [OF nt, of _ t])
  next
    case (LPublish t)
    then show ?thesis using assms(2) no_thread_nth [OF nt, of t]
      by (auto simp: try_publish_def memory_defs split: pc.splits if_splits option.splits
          intro!: no_thread_set [OF nt, of _ t])
  next
    case (LRelease t)
    then show ?thesis using assms(2) lacks_nth [OF nt, of t]
      by (auto simp: release_hazard_data_def thr_step_def intro!: lacks_set [OF nt, of _ t] split: if_splits)
  next
    case (LGuardDrop t j)
    then show ?thesis using assms(2) lacks_nth [OF nt, of t]
      by (auto simp: guard_drop_def thr_step_def intro!: lacks_set [OF nt, of _ t] split: if_splits option.splits)
  next
    case (LGuardClone t j i)
    then show ?thesis using assms(2) lacks_nth [OF nt, of t] nt
      by (auto simp: guard_clone_def memory_defs no_thread_has_def split: if_splits option.splits)
  next
    case (LLoadExit t)
    then show ?thesis using assms(2) lacks_nth [OF nt, of t] nt
      by (auto simp: reader_critical_section_exit_def thr_step_def add_handle_opt_def
          intro!: lacks_set [OF nt, of _ t] split: if_splits pc.splits option.splits)
  next
    case (LClaim t)
    then show ?thesis using assms(2) lacks_nth [OF nt, of t] nt
      by (auto simp: hazard_data_claim_def thr_step_def deref_def intro!: lacks_set [OF nt, of _ t] split: if_splits pc.splits option.splits)
  next
    case (LSlotMem t j)
    then show ?thesis using assms(2) lacks_nth [OF nt, of t] nt
      by (auto simp: slot_reaches_memory_def thr_step_def deref_def intro!: lacks_set [OF nt, of _ t] split: if_splits pc.splits option.splits)
  next
    case (LFlagMem t)
    then show ?thesis using assms(2) lacks_nth [OF nt, of t] nt
      by (auto simp: flag_reaches_memory_def thr_step_def deref_def intro!: lacks_set [OF nt, of _ t] split: if_splits pc.splits option.splits)
  next
    case (LLoadBegin t r)
    then show ?thesis using assms(2) lacks_nth [OF nt, of t] nt
      by (auto simp: load_begin_def thr_step_def deref_def intro!: lacks_set [OF nt, of _ t] split: if_splits pc.splits option.splits)
  next
    case (LLoadEnter t)
    then show ?thesis using assms(2) lacks_nth [OF nt, of t] nt
      by (auto simp: reader_critical_section_enter_def thr_step_def deref_def intro!: lacks_set [OF nt, of _ t] split: if_splits pc.splits option.splits)
  next
    case (LGuardDeref t j)
    then show ?thesis using assms(2) lacks_nth [OF nt, of t] nt
      by (auto simp: guard_deref_def thr_step_def deref_def intro!: lacks_set [OF nt, of _ t] split: if_splits pc.splits option.splits)
  qed (use assms(1) nt no_thread_cong [OF handle_labels_threads [OF _ assms(2)], of b] in simp_all)
qed

lemma unowned_no_thread:
  assumes "\<not> is_collector l" and "step l s = Next s'" and "unowned s b"
  shows "no_thread_has s' b"
  using unread_no_thread [OF assms(1,2) _ unowned_read [OF assms(3)]] assms(3)
  by (simp add: unowned_def lonely_def)

lemma unowned_handles:
  assumes "\<not> is_collector l" and "step l s = Next s'" and "unowned s b" and "obj_at s b \<noteq> None"
  shows "handles s' b = 0 \<and> Some b \<notin> set (cells s')"
proof -
  have h: "handles s b = 0" "Some b \<notin> set (cells s)" and nt: "no_thread_has s b"
    and b: "heap s ! b \<noteq> None"
    using assms(3,4) by (auto simp: unowned_def lonely_def obj_at_def split: if_splits)
  have cell: "cells s ! c \<noteq> Some b" if "c < length (cells s)" for c using h(2) that by (metis nth_mem)
  have up: "q = Some b" if "Some b \<in> set ((cells s)[c := q])" for c q
    using set_update_subset_insert [of "cells s" c q] that h(2) by auto
  show ?thesis
  proof (cases l)
    case (LDowngradeClone a i)
    have "weak_ref y \<noteq> Some b" if "obj_at s a = Some y" "0 < handles s a" for y
      using assms(3) that by (auto simp: unowned_def)
    then show ?thesis using assms(2) LDowngradeClone h
      by (auto simp: downgrade_clone_def deref_def put_def add_handle_def split: option.splits if_splits)
  next
    case (LGuardClone t j i)
    then show ?thesis using assms(2) no_thread_nth [OF nt, of t j] h
      by (auto simp: memory_defs guard_clone_def split: if_splits option.splits)
  next
    case (LLoadExit t)
    then show ?thesis using assms(2) no_thread_nth [OF nt, of t] h
      by (auto simp: memory_defs reader_critical_section_exit_def split: if_splits option.splits pc.splits)
  next
    case (LSwap c p)
    then show ?thesis using assms(2) h cell [of c]
      by (auto simp: memory_defs ptr_swap_def split: if_splits option.splits dest!: up)
  next
    case (LCompareAndSet c m p i)
    then show ?thesis using assms(2) h
      by (auto simp: memory_defs compare_and_set_def cas_increment_def cas_exchange_def
          split: if_splits option.splits dest!: up)
  qed (use assms(1,2) h b in \<open>simp_all only: step.simps is_collector.simps simp_thms,
    auto simp: memory_defs handle_defs reader_defs
        split: option.splits if_splits pc.splits cellref.splits\<close>)
qed

lemma unowned_lonely:
  assumes "\<not> is_collector l" and "step l s = Next s'" and "unowned s b" and "obj_at s b \<noteq> None"
  shows "lonely s' b"
  using unowned_handles [OF assms] unowned_no_thread [OF assms(1-3)] by (simp add: lonely_def)

section \<open>What nobody has stays so\<close>

lemma tokens_zero:
  "tokens s a = 0 \<longleftrightarrow> handles s a = 0 \<and> Some a \<notin> set (cells s)
    \<and> (\<forall>th\<in>set (thrs s). at_pc th \<noteq> LoadExit (Some a)) \<and> no_weak_owner s a"
proof
  assume z: "tokens s a = 0"
  then have "\<not> count_where (\<lambda>c. c = Some a) (cells s) > 0"
    "\<not> count_where (\<lambda>th. at_pc th = LoadExit (Some a)) (thrs s) > 0" "handles s a = 0"
    by (simp_all add: tokens_def)
  then show "handles s a = 0 \<and> Some a \<notin> set (cells s)
      \<and> (\<forall>th\<in>set (thrs s). at_pc th \<noteq> LoadExit (Some a)) \<and> no_weak_owner s a"
    using tokens_no_owner [OF z] unfolding count_where_pos by auto
next
  assume z: "handles s a = 0 \<and> Some a \<notin> set (cells s)
      \<and> (\<forall>th\<in>set (thrs s). at_pc th \<noteq> LoadExit (Some a)) \<and> no_weak_owner s a"
  have "\<not> holds_weak a q" if "q \<in> set (heap s)" for q
  proof -
    obtain c where "c < length (heap s)" "heap s ! c = q" using \<open>q \<in> set (heap s)\<close> by (auto simp: in_set_conv_nth)
    then have "obj_at s c = q" by (simp add: obj_at_def)
    then show ?thesis using z by (auto simp: holds_weak_def no_weak_owner_def split: option.splits)
  qed
  then have "\<not> count_where (\<lambda>c. c = Some a) (cells s) > 0" "\<not> count_where (holds_weak a) (heap s) > 0"
    "\<not> count_where (\<lambda>th. at_pc th = LoadExit (Some a)) (thrs s) > 0"
    using z unfolding count_where_pos by auto
  then show "tokens s a = 0" using z by (simp add: tokens_def)
qed

lemma collector_label:
  assumes "is_collector l" and "step l s = Next s'"
  shows "(\<exists>j. l = CTake j) \<or> (\<exists>visit. l = CBegin visit) \<or> (\<exists>i. collector_step i s = Next s')"
  using assms
  by (cases l; simp only: step.simps is_collector.simps;
    auto simp: collector_step_def traverse_begin_def traverse_step_def visit_next_def read_relaxed_step_def
      clear_tags_step_def check_step_def clear_weak_backref_def free_step_def split: cpc.splits if_splits)

lemma collector_pointers:
  assumes "is_collector l" and "step l s = Next s'"
  shows "pointers_kept s s'"
proof -
  consider (tracking) j where "l = CTake j" | (start) visit where "l = CBegin visit"
    | (rest) i where "collector_step i s = Next s'"
    using collector_label [OF assms] by blast
  then show ?thesis
  proof cases
    case rest
    then show ?thesis by (rule pointers_kept_step)
  qed (use assms(2) in \<open>auto intro!: pointers_kept_same simp: take_new_counters_to_track_def
      begin_iteration_def split: if_splits option.splits\<close>)
qed

lemma nobody_has_collector:
  assumes "is_collector l" and "step l s = Next s'" and "nobody_has s a"
  shows "nobody_has s' a"
proof -
  note fr = collector_frame [OF assms(1,2)] pointers_keptD(1) [OF collector_pointers [OF assms(1,2)], of a]
  have n: "no_thread_has s' a" using fr(1) assms(3) by (auto simp: nobody_has_def no_thread_has_def drain_thr_def)
  then have "\<forall>th\<in>set (thrs s'). at_pc th \<noteq> LoadExit (Some a)" by (auto simp: no_thread_has_def)
  then show ?thesis using n fr assms(3) by (simp add: nobody_has_def tokens_zero)
qed

lemma forgotten_collector:
  assumes "is_collector l" and "step l s = Next s'" and "forgotten s a"
  shows "forgotten s' a"
proof -
  note fr = collector_frame [OF assms(1,2)]
  have "lonely s' w \<and> weak_ref z = None" if z: "obj_at s' w = Some z" "back_ref z = Some a" for w z
  proof -
    obtain y where y: "obj_at s w = Some y" "weak_ref z = weak_ref y" "back_ref y = Some a"
      using collector_pointers [OF assms(1,2)] z unfolding pointers_kept_def by fastforce
    then have "lonely s w" "weak_ref y = None" using assms(3) by (auto simp: forgotten_def)
    then show ?thesis using y(2) fr by (auto simp: lonely_def no_thread_has_def drain_thr_def)
  qed
  then show ?thesis using nobody_has_collector [OF assms(1,2)] assms(3) by (simp add: forgotten_def)
qed

lemma forgotten_thread:
  assumes inv: "res_inv s" and st: "\<not> is_collector l" "step l s = Next s'" and f: "forgotten s a"
    and x: "obj_at s a = Some x"
  shows "forgotten s' a"
proof -
  have e: "effect s s'" by (rule thread_effect [OF inv st])
  have z: "tokens s a = 0" and nt: "no_thread_has s a" using f by (simp_all add: forgotten_def nobody_has_def)
  have lon: "lonely s a" using f nobody_lonely by (simp add: forgotten_def)
  have wk: "lonely s w \<and> weak_ref y = None" if "obj_at s w = Some y" "back_ref y = Some a" for w y
    using f that by (auto simp: forgotten_def)
  have un: "unowned s a"
    using lon tokens_no_owner [OF z] wk by (auto simp: unowned_def no_weak_owner_def lonely_def)
  have same: "obj_at s' a = Some x"
    using unowned_object [OF st x lon] tokens_no_owner [OF z] by (auto simp: no_weak_owner_def)
  have "tokens s' a = 0"
    using e z x no_thread_simps [OF nt] unfolding effect_def token_effect_def by blast
  then have n: "nobody_has s' a"
    using unowned_no_thread [OF st un] by (simp add: nobody_has_def)
  have "lonely s' w \<and> weak_ref y' = None" if y': "obj_at s' w = Some y'" "back_ref y' = Some a" for w y'
  proof -
    have "obj_at s w \<noteq> None"
    proof
      assume w: "obj_at s w = None"
      have "heap_effect s s'" using e by (simp add: effect_def)
      then have "case obj_at s' w of None \<Rightarrow> tokens s' w = 0 | Some y \<Rightarrow> new_ok s' w y"
        using w unfolding heap_effect_def by blast
      then have "new_ok s' w y'" using y'(1) by simp
      then have "weak_ref x = Some w" using y'(2) same by (auto simp: new_ok_def)
      then show False using weak_ref_alive(2) [OF inv x] w by auto
    qed
    then obtain y where y: "obj_at s w = Some y" by blast
    obtain y2 where "obj_at s' w = Some y2" "grows y y2"
      using effect_grows [OF _ y, of s'] e unfolding effect_def by metis
    then have b: "back_ref y = Some a" using y' by (simp add: grows_def)
    have lw: "lonely s w" "weak_ref y = None" using wk [OF y b] by simp_all
    have own: "c = a" if "obj_at s c = Some u" "weak_ref u = Some w" for c u
      using res_invD(8) [OF inv that y] b by simp
    have nob: "back_ref u \<noteq> Some w" if "obj_at s c = Some u" for c u
      using res_invD(6) [OF inv that, of w] y lw(2) by auto
    have uw: "unowned s w" using lw(1) own nob lon by (auto simp: unowned_def lonely_def)
    have "obj_at s' w = Some y"
      using unowned_object [OF st y lw(1)] own lon by (auto simp: lonely_def)
    then show ?thesis using unowned_lonely [OF st uw] y y'(1) lw(2) by simp
  qed
  then show ?thesis using n by (simp add: forgotten_def)
qed

section \<open>No hazard slot comes to hold it\<close>

definition slot_free :: "addr \<Rightarrow> addr option location \<Rightarrow> bool" where
  "slot_free a l \<longleftrightarrow> mem l \<noteq> Some a \<and> Some a \<notin> set (buffered l)"

lemma slot_free_simps [simp]:
  "slot_free a (new_location None)" "slot_free a l \<Longrightarrow> slot_free a (commit l)"
  "slot_free a l \<Longrightarrow> slot_free a (drain l)"
  "slot_free a l \<Longrightarrow> slot_free a (write_to v l) = (v \<noteq> Some a)"
  by (auto simp: slot_free_def new_location_def commit_def drain_def view_def write_to_def
      split: list.splits if_splits) (metis last_in_set)

lemma slot_free_drain: "view l \<noteq> Some a \<Longrightarrow> slot_free a (drain l)"
  by (simp add: slot_free_def drain_def)

definition slots_free :: "sys \<Rightarrow> addr \<Rightarrow> bool" where
  "slots_free s a \<longleftrightarrow> (\<forall>th\<in>set (thrs s). \<forall>j. slot_free a (slots th j))"

definition unseen :: "sys \<Rightarrow> addr \<Rightarrow> bool" where
  "unseen s a \<longleftrightarrow> a \<notin> set (hz s) \<and> slots_free s a"

lemma unseen_unlisted: "unseen s a \<Longrightarrow> unlisted s a"
  by (simp add: unseen_def slots_free_def slot_free_def unlisted_def)

lemma slots_free_nth: "slots_free s a \<Longrightarrow> t < length (thrs s) \<Longrightarrow> slot_free a (slots (thrs s ! t) j)"
  by (simp add: slots_free_def)

lemma slots_free_set:
  "\<lbrakk>slots_free s a; thrs s' = (thrs s)[t := th]; \<And>j. slot_free a (slots th j)\<rbrakk> \<Longrightarrow> slots_free s' a"
  using set_update_subset_insert [of "thrs s" t th] by (auto simp: slots_free_def)

lemma slots_free_same: "slots_free s a \<Longrightarrow> thrs s' = thrs s \<Longrightarrow> slots_free s' a"
  by (simp add: slots_free_def)

lemma slots_free_thread:
  assumes "\<not> is_collector l" and "step l s = Next s'" and "no_thread_has s a" and sf: "slots_free s a"
  shows "slots_free s' a"
proof (cases l)
  case (LPublish t)
  then show ?thesis using assms(2) no_thread_nth [OF assms(3), of t] slots_free_nth [OF sf, of t]
    by (auto simp: try_publish_def thr_step_def split: pc.splits if_splits option.splits
        intro!: slots_free_set [OF sf, of _ t])
next
  case LPush
  then show ?thesis using sf assms(2) by (auto simp: hazard_data_push_def slots_free_def new_thr_def)
next
  case (LClaim t)
  then show ?thesis using assms(2) slots_free_nth [OF sf, of t]
    by (auto simp: hazard_data_claim_def split: if_splits intro!: slots_free_set [OF sf, of _ t])
next
  case (LRelease t)
  then show ?thesis using assms(2) slots_free_nth [OF sf, of t]
    by (auto simp: release_hazard_data_def thr_step_def split: if_splits intro!: slots_free_set [OF sf, of _ t])
next
  case (LSlotMem t j)
  then show ?thesis using assms(2) slots_free_nth [OF sf, of t]
    by (auto simp: slot_reaches_memory_def split: if_splits intro!: slots_free_set [OF sf, of _ t])
next
  case (LFlagMem t)
  then show ?thesis using assms(2) slots_free_nth [OF sf, of t]
    by (auto simp: flag_reaches_memory_def split: if_splits intro!: slots_free_set [OF sf, of _ t])
next
  case (LLoadBegin t r)
  then show ?thesis using assms(2) slots_free_nth [OF sf, of t]
    by (auto simp: load_begin_def thr_step_def split: if_splits intro!: slots_free_set [OF sf, of _ t])
next
  case (LLoadEnter t)
  then show ?thesis using assms(2) slots_free_nth [OF sf, of t]
    by (auto simp: reader_critical_section_enter_def thr_step_def split: if_splits pc.splits
        intro!: slots_free_set [OF sf, of _ t])
next
  case (LLoadPtr t)
  then show ?thesis using assms(2) slots_free_nth [OF sf, of t]
    by (auto simp: load_atomic_ptr_def thr_step_def read_ptr_def deref_def split: if_splits pc.splits cellref.splits
        option.splits intro!: slots_free_set [OF sf, of _ t])
next
  case (LLoadInc t i)
  then show ?thesis using assms(2) slots_free_nth [OF sf, of t]
    by (auto simp: load_increment_def thr_step_def deref_def split: if_splits pc.splits option.splits
        intro!: slots_free_set [OF sf, of _ t])
next
  case (LLoadExit t)
  then show ?thesis using assms(2) slots_free_nth [OF sf, of t]
    by (auto simp: reader_critical_section_exit_def thr_step_def add_handle_opt_def split: if_splits pc.splits
        option.splits intro!: slots_free_set [OF sf, of _ t])
next
  case (LBorrowPreload t r)
  then show ?thesis using assms(2) slots_free_nth [OF sf, of t]
    by (auto simp: borrow_preload_def thr_step_def read_ptr_def deref_def split: if_splits cellref.splits
        option.splits intro!: slots_free_set [OF sf, of _ t])
next
  case (LBorrowReload t)
  then show ?thesis using assms(2) slots_free_nth [OF sf, of t]
    by (auto simp: borrow_reload_def thr_step_def read_ptr_def deref_def split: if_splits pc.splits cellref.splits
        option.splits intro!: slots_free_set [OF sf, of _ t])
next
  case (LGuardDeref t j)
  then show ?thesis using assms(2) sf
    by (auto simp: guard_deref_def thr_step_def deref_def split: if_splits option.splits)
next
  case (LGuardClone t j i)
  then show ?thesis using assms(2)
    by (auto simp: guard_clone_def thr_step_def deref_def split: if_splits option.splits
        intro!: slots_free_same [OF sf])
next
  case (LGuardDrop t j)
  then show ?thesis using assms(2) slots_free_nth [OF sf, of t]
    by (auto simp: guard_drop_def thr_step_def split: if_splits option.splits intro!: slots_free_set [OF sf, of _ t])
qed (use assms(1) slots_free_same [OF sf handle_labels_threads [OF _ assms(2)]] in simp_all)

lemma unseen_thread:
  assumes "res_inv s" and "\<not> is_collector l" and "step l s = Next s'" and "no_thread_has s a" and "unseen s a"
  shows "unseen s' a"
  using slots_free_thread [OF assms(2-4)] gc_same_simps [OF thread_effect [OF assms(1-3)]] assms(5)
  by (simp add: unseen_def)

lemma unseen_step:
  assumes "collector_step i s = Next s'" and "gc_inv s" and "unseen s a"
  shows "unseen s' a"
  using unlisted_step [OF assms(1,2) unseen_unlisted [OF assms(3)]] slots_free_same [of s a s']
    collector_step_frame(2) [OF assms(1)] assms(3)
  by (simp add: unseen_def unlisted_def)

lemma unseen_begin:
  assumes "res_inv s" and "begin_iteration visit s = Next s'" and "no_thread_has s a"
  shows "unseen s' a"
proof -
  have "view (slots th j) \<noteq> Some a" if "th \<in> set (thrs s)" for th j
  proof -
    have "thr_ok th" "\<not> remembers (at_pc th) a" "guards th j \<noteq> Some a"
      using assms(1,3) that by (auto simp: res_inv_def no_thread_has_def)
    then show ?thesis by (auto simp: thr_ok_def slot_value_def split: pc.splits if_splits)
  qed
  then show ?thesis
    using assms(2) by (auto simp: begin_iteration_def unseen_def slots_free_def slot_free_drain split: if_splits)
qed

section \<open>The stages of an object nobody has\<close>

text \<open>What \<open>clear_weak_backref\<close> looks at.\<close>

definition back_ref_set :: "sys \<Rightarrow> addr \<Rightarrow> bool" where
  "back_ref_set s a = (case obj_at s a of
     None \<Rightarrow> False
   | Some x \<Rightarrow> (case weak_ref x of
       None \<Rightarrow> False
     | Some w \<Rightarrow> (case obj_at s w of None \<Rightarrow> False | Some y \<Rightarrow> back_ref y \<noteq> None)))"

text \<open>How many visits the object still needs at most.\<close>

definition stage :: "sys \<Rightarrow> addr \<Rightarrow> nat" where
  "stage s a = (case tracked s a of
     None \<Rightarrow> 6
   | Some DefaultState \<Rightarrow> 4
   | Some RequiresReChecking \<Rightarrow>
       if \<exists>k\<in>{..<nshards s}. atag (shards_of s a ! k) then 5 else if back_ref_set s a then 3 else 2
   | Some ReadyToFree \<Rightarrow> 1)"

fun reading_ok :: "cpc \<Rightarrow> addr \<Rightarrow> sys \<Rightarrow> bool" where
  "reading_ok (CRelax b k acc) a s = (b = a \<longrightarrow> acc = part s a k \<and> k \<le> nshards s)"
| "reading_ok (CClear b k acc) a s = (b = a \<longrightarrow> acc = part s a k \<and> k \<le> nshards s \<and> untagged s a k)"
| "reading_ok (CCheck b k acc) a s = (b = a \<longrightarrow> acc = part s a k \<and> k \<le> nshards s \<and> untagged s a k)"
| "reading_ok (CWeak b) a s = (b = a \<longrightarrow> untagged s a (nshards s))"
| "reading_ok _ a s = True"

text \<open>In an iteration that began at stage \<open>v\<close>: once the object has been visited, it is past \<open>v\<close>.\<close>

definition fading :: "nat \<Rightarrow> addr \<Rightarrow> sys \<Rightarrow> bool" where
  "fading v a s \<longleftrightarrow> obj_at s a \<noteq> None \<and> tracked s a \<noteq> None \<and> unseen s a \<and> reading_ok (at_cpc s) a s
     \<and> (if a \<in> set (todo s) \<or> at_object (at_cpc s) a then stage s a \<le> v else stage s a < v)"

lemma stage_cong:
  "\<lbrakk>tracked s' a = tracked s a; nshards s' = nshards s; shards_of s' a = shards_of s a;
    back_ref_set s' a = back_ref_set s a\<rbrakk> \<Longrightarrow> stage s' a = stage s a"
  by (simp add: stage_def cong: option.case_cong tstate.case_cong)

lemma reading_cong:
  "\<lbrakk>nshards s' = nshards s; shards_of s' a = shards_of s a\<rbrakk> \<Longrightarrow> reading_ok c a s' = reading_ok c a s"
  by (cases c) (simp_all add: part_def untagged_def)

lemma back_ref_thread:
  assumes "res_inv s" and "heap_effect s s'" and "obj_at s a = Some x" and "obj_at s' a = Some x"
  shows "back_ref_set s' a = back_ref_set s a"
proof (cases "weak_ref x")
  case (Some w)
  obtain y where y: "obj_at s w = Some y" using weak_ref_alive(2) [OF assms(1,3) Some] by blast
  obtain z where "obj_at s' w = Some z" "grows y z" using effect_grows [OF assms(2) y] .
  then show ?thesis using Some y assms(3,4) by (simp add: back_ref_set_def grows_def)
qed (use assms(3,4) in \<open>simp add: back_ref_set_def\<close>)

lemma fading_thread:
  assumes inv: "res_inv s" and st: "\<not> is_collector l" "step l s = Next s'" and n: "nobody_has s a"
    and f: "fading v a s"
  shows "fading v a s'"
proof -
  have e: "effect s s'" by (rule thread_effect [OF inv st])
  then have he: "heap_effect s s'" by (simp add: effect_def)
  note same = gc_same_simps [OF e] effect_nshards [OF he]
  have z: "tokens s a = 0" and nt: "no_thread_has s a" using n by (simp_all add: nobody_has_def)
  obtain x where x: "obj_at s a = Some x" using f by (auto simp: fading_def)
  have x': "obj_at s' a = Some x"
    using unowned_object [OF st x nobody_lonely [OF n]] tokens_no_owner [OF z] by (auto simp: no_weak_owner_def)
  have sh: "shards_of s' a = shards_of s a" by (simp add: shards_of_def x x')
  have "stage s' a = stage s a"
    by (rule stage_cong) (simp_all add: same sh back_ref_thread [OF inv he x x'])
  moreover have "reading_ok c a s' = reading_ok c a s" for c by (rule reading_cong) (simp_all add: same sh)
  ultimately show ?thesis
    using f x' unseen_thread [OF inv st nt] by (simp add: fading_def same)
qed

lemma back_ref_set_iff: "back_ref_set s a \<longleftrightarrow> (\<exists>x w y. obj_at s a = Some x \<and> weak_ref x = Some w
    \<and> obj_at s w = Some y \<and> back_ref y \<noteq> None)"
  by (simp add: back_ref_set_def split: option.split)

lemma back_ref_same: "heap s' = heap s \<Longrightarrow> back_ref_set s' a = back_ref_set s a"
  by (simp add: back_ref_set_iff obj_at_def)

lemma back_ref_route:
  assumes "res_inv s"
  shows "back_ref_set s a = weak_route s a"
proof
  assume "back_ref_set s a"
  then obtain x w y where x: "obj_at s a = Some x" "weak_ref x = Some w" "obj_at s w = Some y" "back_ref y \<noteq> None"
    unfolding back_ref_set_iff by blast
  have "back_ref y = Some a" using res_invD(8) [OF assms x(1-3)] x(4) by auto
  then show "weak_route s a" using x unfolding weak_route_def by blast
qed (auto simp: weak_route_def back_ref_set_iff)

lemma back_ref_mono:
  assumes "pointers_kept s s'" and "back_ref_set s' a"
  shows "back_ref_set s a"
proof -
  obtain x w y where x: "obj_at s' a = Some x" "weak_ref x = Some w" "obj_at s' w = Some y" "back_ref y \<noteq> None"
    using assms(2) unfolding back_ref_set_iff by blast
  obtain x0 where "obj_at s a = Some x0" "weak_ref x0 = Some w" using assms(1) x(1,2) unfolding pointers_kept_def by metis
  moreover obtain y0 where "obj_at s w = Some y0" "back_ref y0 \<noteq> None"
    using assms(1) x(3,4) unfolding pointers_kept_def by metis
  ultimately show ?thesis unfolding back_ref_set_iff by blast
qed

lemma stage_mono:
  "\<lbrakk>tracked s' a = tracked s a; nshards s' = nshards s; shards_of s' a = shards_of s a;
    back_ref_set s' a \<longrightarrow> back_ref_set s a\<rbrakk> \<Longrightarrow> stage s' a \<le> stage s a"
  by (auto simp: stage_def split: option.splits tstate.splits)

lemma stage_simps:
  "tracked s a = Some DefaultState \<Longrightarrow> stage s a = 4"
  "tracked s a = Some ReadyToFree \<Longrightarrow> stage s a = 1"
  "tracked s a = Some RequiresReChecking \<Longrightarrow> k < nshards s \<Longrightarrow> atag (shards_of s a ! k) \<Longrightarrow> stage s a = 5"
  "tracked s a = Some RequiresReChecking \<Longrightarrow> untagged s a (nshards s) \<Longrightarrow>
     stage s a = (if back_ref_set s a then 3 else 2)"
  by (auto simp: stage_def untagged_def)

lemma fading_step:
  assumes st: "collector_step i s = Next s'" and inv: "res_inv s" and gc: "gc_inv s" and inv': "res_inv s'"
    and n: "nobody_has s a" and f: "fading v a s"
  shows "obj_at s' a = None \<or> fading v a s'"
proof -
  note fr = collector_step_frame(1) [OF st]
  have z: "tokens s a = 0" using n by (simp add: nobody_has_def)
  have no: "no_weak_owner s a" by (rule tokens_no_owner [OF z])
  have un: "unseen s a" "unseen s' a" and tr: "tracked s a \<noteq> None"
    using f unseen_step [OF st gc] by (simp_all add: fading_def)
  obtain x where x: "obj_at s a = Some x" using f by (auto simp: fading_def)
  have sx: "shards_of s a = shards x" by (simp add: shards_of_def x)
  have len: "length (shards x) = nshards s" "nshards s > 0" using res_invD(1,2) [OF inv] x by simp_all
  have c: "calm s a"
    using res_invD(2) [OF inv x] z no unseen_unlisted [OF un(1)] by (simp add: calm_def sx total_def)
  note mono = back_ref_mono [OF pointers_kept_step [OF st], of a]
  have live: "obj_at s' a \<noteq> None" if "length (shards_of s' a) = length (shards x)"
    using that len by (auto simp: shards_of_def split: option.splits)
  have same: "shards_of s' a = shards_of s a \<and> obj_at s' a \<noteq> None \<and> part s' a k = part s a k
      \<and> untagged s' a k = untagged s a k"
    if "\<And>k acc. at_cpc s \<noteq> CClear a k acc" "at_cpc s = CFreeing \<Longrightarrow> tofree s = [] \<or> hd (tofree s) \<noteq> a" for k
    using shards_of_step [OF st no that] live sx part_cong [of s' a s k] by simp
  note ph = gc_invD(9) [OF gc]
  consider (visit) rest where "at_cpc s = CVisit" "todo s = a # rest"
    | (freed) rest where "at_cpc s = CFreeing" "tofree s = a # rest"
    | (relax) k acc where "at_cpc s = CRelax a k acc" | (clear) k acc where "at_cpc s = CClear a k acc"
    | (check) k acc where "at_cpc s = CCheck a k acc" | (weak) "at_cpc s = CWeak a"
    | (other) "\<not> at_object (at_cpc s) a" "at_cpc s = CVisit \<Longrightarrow> todo s = [] \<or> hd (todo s) \<noteq> a"
        "at_cpc s = CFreeing \<Longrightarrow> tofree s = [] \<or> hd (tofree s) \<noteq> a"
  proof (cases "at_object (at_cpc s) a")
    case True
    then show ?thesis using that(3-6) by (cases "at_cpc s") auto
  next
    case False
    then show ?thesis
      using that(1,2,7) by (cases "todo s"; cases "tofree s"; cases "at_cpc s") auto
  qed
  then show ?thesis
  proof cases
    case visit
    have m: "shards_of s' a = shards_of s a" "obj_at s' a \<noteq> None" using same visit(1) by simp_all
    have "tracked s a \<noteq> Some ReadyToFree" using gc_invD(4,8) [OF gc] visit(2) by auto
    then obtain s0 where s0: "s0 \<in> {CRelax a 0 0, CCheck a 0 0}" "s' = s\<lparr>todo := rest, at_cpc := s0\<rparr>"
      using st visit un(1) tr by (auto simp: collector_step_def visit_next_def unseen_def
        split: option.splits tstate.splits)
    have "stage s' a \<le> stage s a" by (rule stage_mono) (use m mono s0(2) in simp_all)
    then show ?thesis using f visit m(2) un(2) tr s0 by (auto simp: fading_def untagged_def)
  next
    case freed
    then show ?thesis using free_head [OF st freed no] by simp
  next
    case (relax k acc)
    have m: "shards_of s' a = shards_of s a" "obj_at s' a \<noteq> None" "part s' a j = part s a j" for j
      using same relax by simp_all
    have r: "acc = part s a k" "k \<le> nshards s" "a \<notin> set (todo s)" "stage s a \<le> v"
      using f relax ph by (auto simp: fading_def)
    have st': "stage s' a = 4" "stage s a = 4" if "tracked s' a = tracked s a"
      using that ph relax by (simp_all add: stage_simps)
    show ?thesis
    proof (cases "k < nshards s")
      case True
      then have "s' = s\<lparr>at_cpc := CRelax a (Suc k) (part s a (Suc k))\<rparr>"
        using st relax x r(1) by (simp add: collector_step_def read_relaxed_step_def deref_def sx)
      then show ?thesis using m un(2) tr r True st' by (simp add: fading_def del: part_simps)
    next
      case False
      then have "s' = s\<lparr>at_cpc := CClear a 0 0\<rparr>"
        using st relax r part_all [OF c] by (simp add: collector_step_def read_relaxed_step_def)
      then show ?thesis using m un(2) tr r st' by (simp add: fading_def untagged_def)
    qed
  next
    case (clear k acc)
    have r: "acc = part s a k" "k \<le> nshards s" "untagged s a k" "a \<notin> set (todo s)" "stage s a \<le> v"
      "tracked s a = Some DefaultState" "stage s a = 4"
      using f clear ph by (auto simp: fading_def stage_simps)
    show ?thesis
    proof (cases "k < nshards s")
      case True
      let ?y = "on_shard k a_clear_tag x"
      have s': "s' = put a ?y (s\<lparr>at_cpc := CClear a (Suc k) (part s a (Suc k))\<rparr>)"
        using st clear True x r(1) by (simp add: collector_step_def clear_tags_step_def deref_def sx)
      have lk: "k < length (shards x)" using len True by simp
      have sh: "shards_of s' a = (shards x)[k := a_clear_tag (shards x ! k)]"
        using obj_at_less [OF x] by (simp add: s' shards_of_def on_shard_def obj_at_def put_def)
      have "acount (shards_of s' a ! j) = acount (shards_of s a ! j)" for j
        using sx by (cases "j = k") (simp_all add: sh lk)
      then have "part s' a j = part s a j" for j by (simp add: part_def)
      moreover have "untagged s' a (Suc k)"
        using r(3) lk by (auto simp: untagged_def sh sx less_Suc_eq nth_list_update)
      moreover have "obj_at s' a \<noteq> None" using live by (simp add: sh)
      moreover have "stage s' a = 4" using r(6) by (simp add: stage_simps s')
      ultimately show ?thesis using un(2) r True by (simp add: fading_def s' del: part_simps)
    next
      case False
      then have s': "s' = set_state a RequiresReChecking s"
        using st clear r part_all [OF c] by (simp add: collector_step_def clear_tags_step_def)
      have sh: "shards_of s' a = shards_of s a" by (rule shards_of_same) (simp add: s' set_state_def)
      have "untagged s' a (nshards s')" using r False part_cong [OF sh] fr by simp
      then have "stage s' a \<le> 3" by (subst stage_simps(4)) (simp_all add: s' set_state_def)
      moreover have "obj_at s' a \<noteq> None" using x by (simp add: s' set_state_def)
      ultimately show ?thesis using un(2) r by (simp add: fading_def s' set_state_def)
    qed
  next
    case (check k acc)
    have m: "shards_of s' a = shards_of s a" "obj_at s' a \<noteq> None" "part s' a j = part s a j"
      "untagged s' a j = untagged s a j" for j
      using same check by simp_all
    have r: "acc = part s a k" "k \<le> nshards s" "untagged s a k" "a \<notin> set (todo s)" "stage s a \<le> v"
      "tracked s a = Some RequiresReChecking"
      using f check ph by (auto simp: fading_def)
    have le: "stage s' a \<le> stage s a" if "tracked s' a = tracked s a" by (rule stage_mono) (use m mono fr that in simp_all)
    show ?thesis
    proof (cases "k < nshards s")
      case True
      show ?thesis
      proof (cases "atag (shards x ! k)")
        case True
        then have s': "s' = set_state a DefaultState s"
          using st check x \<open>k < nshards s\<close> by (simp add: collector_step_def check_step_def deref_def)
        have "stage s a = 5" using stage_simps(3) [OF r(6) \<open>k < nshards s\<close>] True by (simp add: sx)
        moreover have "stage s' a = 4" by (rule stage_simps) (simp add: s' set_state_def)
        ultimately show ?thesis using m(2) un(2) r by (simp add: fading_def s' set_state_def)
      next
        case False
        then have s': "s' = s\<lparr>at_cpc := CCheck a (Suc k) (part s a (Suc k))\<rparr>"
          using st check x r(1) True by (simp add: collector_step_def check_step_def deref_def sx)
        moreover have "untagged s a (Suc k)" using r(3) False by (auto simp: untagged_def sx less_Suc_eq)
        moreover have "stage s' a \<le> v" using le r(5) s' by simp
        ultimately show ?thesis using m un(2) r True by (simp add: fading_def del: part_simps)
      qed
    next
      case False
      then have s': "s' = s\<lparr>at_cpc := CWeak a\<rparr>"
        using st check r part_all [OF c] by (simp add: collector_step_def check_step_def)
      moreover have "stage s' a \<le> v" using le r(5) s' by simp
      ultimately show ?thesis using m un(2) r False by (simp add: fading_def)
    qed
  next
    case weak
    have m: "shards_of s' a = shards_of s a" "obj_at s' a \<noteq> None" "untagged s' a j = untagged s a j" for j
      using same weak by simp_all
    have r: "untagged s a (nshards s)" "a \<notin> set (todo s)" "stage s a \<le> v" "tracked s a = Some RequiresReChecking"
      using f weak ph by (auto simp: fading_def)
    have sg: "stage s a = (if weak_route s a then 3 else 2)"
      using stage_simps(4) [OF r(4,1)] back_ref_route [OF inv] by simp
    from weak_step_outcome [OF st inv weak no] show ?thesis
    proof
      assume s': "s' = ready_to_free a s"
      have "stage s' a = 1" by (rule stage_simps) (simp add: s' ready_to_free_def set_state_def)
      then show ?thesis
        using m(2) un(2) r sg by (simp add: fading_def s' ready_to_free_def set_state_def split: if_splits)
    next
      assume *: "weak_route s a \<and> \<not> weak_route s' a \<and> tofree s' = tofree s
        \<and> todo s' = todo s \<and> at_cpc s' = CVisit \<and> tracked s' a = Some RequiresReChecking"
      have "stage s' a = 2"
        using stage_simps(4) [of s' a] * back_ref_route [OF inv'] m(3) r(1) fr by simp
      then show ?thesis using m(2) un(2) r sg * by (simp add: fading_def)
    qed
  next
    case other
    have nc: "at_cpc s \<noteq> CClear a k acc" for k acc using other(1) by auto
    have m: "shards_of s' a = shards_of s a" "obj_at s' a \<noteq> None" using same [OF nc other(3)] by simp_all
    note e = elsewhere_step [OF st other]
    have "stage s' a \<le> stage s a" by (rule stage_mono) (use m mono fr e in simp_all)
    moreover have "reading_ok (at_cpc s') a s'" using e by (cases "at_cpc s'") auto
    ultimately show ?thesis using f m(2) un(2) tr e other(1) by (auto simp: fading_def)
  qed
qed

section \<open>Executions\<close>

fun sometime :: "(sys \<Rightarrow> bool) \<Rightarrow> label list \<Rightarrow> sys \<Rightarrow> bool" where
  "sometime P [] s = P s"
| "sometime P (l # ls) s = (P s \<or> (case step l s of Next s' \<Rightarrow> sometime P ls s' | _ \<Rightarrow> False))"

fun visits :: "addr \<Rightarrow> label list \<Rightarrow> nat" where
  "visits a [] = 0"
| "visits a (CBegin visit # ls) = (if a \<in> set visit then 1 else 0) + visits a ls"
| "visits a (_ # ls) = visits a ls"

lemma visits_Cons: "visits a (l # ls) = visits a [l] + visits a ls"
  by (cases l) simp_all

lemma visits_thread: "\<not> is_collector l \<Longrightarrow> visits a [l] = 0"
  by (cases l) simp_all

lemma track_all_keeps: "track_all as m = Some m' \<Longrightarrow> m a \<noteq> None \<Longrightarrow> m' a = m a"
  by (induction as arbitrary: m) (fastforce split: if_splits)+

lemma tracked_stays:
  assumes inv: "res_inv s" "gc_inv s" and inv': "gc_inv s'" and st: "step l s = Next s'"
    and t: "tracked s a \<noteq> None" and live: "obj_at s' a \<noteq> None"
  shows "tracked s' a \<noteq> None"
proof -
  have p: "a \<notin> set (concat (pending s))" using gc_invD(1) [OF inv(2)] t unfolding tracking_inv_def by auto
  have alive: "a \<in> set (concat (pending s')) \<or> tracked s' a \<noteq> None"
    using gc_invD(1) [OF inv'] live unfolding tracking_inv_def by blast
  show ?thesis
  proof (cases "is_collector l")
    case False
    then show ?thesis using gc_same_simps(1) [OF thread_effect [OF inv(1) _ st]] t by simp
  next
    case True
    have "set (concat (pending s')) \<subseteq> set (concat (pending s))"
      using collector_label [OF True st]
    proof (elim disjE exE)
      fix j assume "l = CTake j"
      then show ?thesis using st set_update_subset_insert [of "pending s" j "[]"]
        by (auto simp: take_new_counters_to_track_def split: if_splits option.splits)
    next
      fix visit assume "l = CBegin visit"
      then show ?thesis using st by (auto simp: begin_iteration_def split: if_splits)
    next
      fix i assume "collector_step i s = Next s'"
      then show ?thesis using collector_step_frame(3) [of i s s'] by simp
    qed
    then show ?thesis using p alive by blast
  qed
qed

text \<open>After \<open>n\<close> visits have begun; before the first the object only has to be tracked.\<close>

definition due :: "nat \<Rightarrow> addr \<Rightarrow> sys \<Rightarrow> bool" where
  "due n a s \<longleftrightarrow> n \<le> 4 \<and> obj_at s a \<noteq> None \<and> tracked s a \<noteq> None \<and> (n = 0 \<or> fading (6 - n) a s)"

lemma stage_bounds: "tracked s a \<noteq> None \<Longrightarrow> stage s a \<le> 5" "stage s a \<ge> 1"
  by (auto simp: stage_def split: option.splits tstate.splits)

lemma due_begin:
  assumes inv: "res_inv s" and gc: "gc_inv s" and st: "begin_iteration visit s = Next s'" and n: "nobody_has s a"
    and d: "due n a s"
  shows "due (n + (if a \<in> set visit then 1 else 0)) a s'"
proof -
  have idle: "at_cpc s = CIdle" "todo s = []" "tofree s = []"
    using st gc_invD(9) [OF gc] by (auto simp: begin_iteration_def split: if_splits)
  note bs = begin_same [OF st]
  have w: "back_ref_set s' a = back_ref_set s a" by (rule back_ref_same) (rule bs)
  have sg: "stage s' a = stage s a"
    by (intro stage_cong shards_of_same) (simp_all add: w bs)
  have un: "unseen s' a" by (rule unseen_begin [OF inv st]) (use n in \<open>simp add: nobody_has_def\<close>)
  have "tracked s a \<noteq> Some ReadyToFree" using gc_invD(4) [OF gc] idle by simp
  then have two: "stage s a \<ge> 2" using d by (auto simp: due_def stage_def split: option.splits tstate.splits)
  have lt: "n = 0 \<or> stage s a < 6 - n" using d idle by (auto simp: due_def fading_def)
  have base: "obj_at s' a \<noteq> None" "tracked s' a \<noteq> None" "reading_ok (at_cpc s') a s'"
    "\<not> at_object (at_cpc s') a" "todo s' = visit"
    using d by (simp_all add: due_def bs obj_at_cong [OF bs(1)])
  show ?thesis
  proof (cases "a \<in> set visit")
    case True
    have le: "stage s a \<le> 6 - Suc n" using lt stage_bounds(1) [of s a] d by (auto simp: due_def)
    then have "Suc n \<le> 4" using two by linarith
    then show ?thesis using base un sg le True by (simp add: due_def fading_def)
  next
    case False
    then show ?thesis using base un sg lt d by (auto simp: due_def fading_def)
  qed
qed

lemma due_step:
  assumes r: "reach s" and st: "step l s = Next s'" and n: "nobody_has s a" and d: "due n a s"
  shows "obj_at s' a = None \<or> due (n + visits a [l]) a s'"
proof -
  have inv: "res_inv s" "gc_inv s" using reach_invariants [OF r] by simp_all
  have inv': "res_inv s'" "gc_inv s'" using reach_invariants [OF reach_step [OF r st]] by simp_all
  have d': "n \<le> 4" "tracked s a \<noteq> None" "n = 0 \<or> fading (6 - n) a s" using d by (simp_all add: due_def)
  show ?thesis
  proof (cases "\<exists>visit. l = CBegin visit")
    case True
    then show ?thesis using due_begin [OF inv _ n d] st by auto
  next
    case nb: False
    have v: "visits a [l] = 0" using nb by (cases l) auto
    have tr: "tracked s' a \<noteq> None" if "obj_at s' a \<noteq> None"
      by (rule tracked_stays [OF inv inv'(2) st d'(2) that])
    have "obj_at s' a = None \<or> fading (6 - n) a s'" if f: "fading (6 - n) a s"
    proof (cases "is_collector l")
      case False
      then show ?thesis using fading_thread [OF inv(1) False st n f] by simp
    next
      case True
      from collector_label [OF True st] nb consider (tk) j where "l = CTake j" | (cs) i where "collector_step i s = Next s'"
        by blast
      then show ?thesis
      proof cases
        case cs
        then show ?thesis using fading_step [OF cs inv inv'(1) n f] by simp
      next
        case tk
        have tr': "tracked s' a = tracked s a"
          using st tk d'(2) track_all_keeps [of "pending s ! j" "tracked s" _ a]
          by (auto simp: take_new_counters_to_track_def split: if_splits option.splits)
        have same: "heap s' = heap s" "nshards s' = nshards s" "hz s' = hz s" "thrs s' = thrs s"
          "at_cpc s' = at_cpc s" "todo s' = todo s"
          using st tk by (auto simp: take_new_counters_to_track_def split: if_splits option.splits)
        have "stage s' a = stage s a"
          by (intro stage_cong shards_of_same back_ref_same) (simp_all add: same tr')
        moreover have "reading_ok c a s' = reading_ok c a s" for c
          by (intro reading_cong shards_of_same) (simp_all add: same)
        ultimately show ?thesis using f tr' by (simp add: fading_def unseen_def slots_free_def obj_at_cong [OF same(1)] same)
      qed
    qed
    then show ?thesis using d' tr v by (auto simp: due_def)
  qed
qed

section \<open>Properties\<close>

lemma freed_or_taken:
  assumes "reach s" and "due n a s" and "run ls s = Next s'" and "5 \<le> n + visits a ls"
  shows "sometime (\<lambda>s. obj_at s a = None \<or> \<not> nobody_has s a) ls s"
  using assms
proof (induction ls arbitrary: s n)
  case Nil
  then show ?case by (simp add: due_def)
next
  case (Cons l ls)
  obtain s1 where s1: "step l s = Next s1" "run ls s1 = Next s'"
    using Cons.prems(3) by (auto split: outcome.splits)
  show ?case
  proof (cases "nobody_has s a")
    case True
    from due_step [OF Cons.prems(1) s1(1) True Cons.prems(2)] show ?thesis
    proof
      assume "obj_at s1 a = None"
      then show ?thesis using s1(1) by (cases ls) simp_all
    next
      assume d: "due (n + visits a [l]) a s1"
      show ?thesis
        using Cons.IH [OF reach_step [OF Cons.prems(1) s1(1)] d s1(2)] Cons.prems(4) s1(1)
          visits_Cons [of a l ls] by simp
    qed
  qed simp
qed

lemma forgotten_not_taken:
  assumes "reach s" and "forgotten s a" and "run ls s = Next s'"
    and "sometime (\<lambda>s. obj_at s a = None \<or> \<not> nobody_has s a) ls s"
  shows "sometime (\<lambda>s. obj_at s a = None) ls s"
  using assms
proof (induction ls arbitrary: s)
  case Nil
  then show ?case by (simp add: forgotten_def)
next
  case (Cons l ls)
  obtain s1 where s1: "step l s = Next s1" "run ls s1 = Next s'"
    using Cons.prems(3) by (auto split: outcome.splits)
  show ?case
  proof (cases "obj_at s a")
    case (Some x)
    have "res_inv s" using reach_invariants [OF Cons.prems(1)] by simp
    then have "forgotten s1 a"
      using forgotten_thread [OF _ _ s1(1) Cons.prems(2) Some] forgotten_collector [OF _ s1(1) Cons.prems(2)] by blast
    moreover have "sometime (\<lambda>s. obj_at s a = None \<or> \<not> nobody_has s a) ls s1"
      using Cons.prems(2,4) Some s1(1) by (simp add: forgotten_def)
    ultimately show ?thesis
      using Cons.IH [OF reach_step [OF Cons.prems(1) s1(1)] _ s1(2)] s1(1) by simp
  qed simp
qed

text \<open>
  An object nobody has does not stay, whatever the other threads do meanwhile. Nobody has it,
  nor the weak object that points back to it: then in every execution in which the collector
  begins five inner iterations that visit it, with any steps of any threads between its own, the
  object is freed at some point.
\<close>

theorem forgotten_object_freed:
  assumes "reach s" and "tracked s a \<noteq> None" and "forgotten s a"
    and "run ls s = Next s'" and "5 \<le> visits a ls"
  shows "sometime (\<lambda>s. obj_at s a = None) ls s"
proof -
  have inv: "gc_inv s" using reach_invariants [OF assms(1)] by simp
  have "obj_at s a \<noteq> None" using tracked_alive [OF gc_invD(1) [OF inv] assms(2)] by auto
  then have "due 0 a s" using assms(2) by (simp add: due_def)
  then show ?thesis
    using freed_or_taken [OF assms(1) _ assms(4)] assms(5) by (intro forgotten_not_taken [OF assms(1,3,4)]) simp
qed

text \<open>
  Object 0 is dropped; the collector frees it while another thread clones, loads and drops object 1
  between the collector's reads.
\<close>

definition dropped_trace :: "label list" where
  "dropped_trace = [LPush, LNew 0 0 0, LNew 1 0 0, LClone 1 0, LSwap 0 (Some 1), LDrop 0 0, CTake 0]"

definition busy_iterations :: "label list" where
  "busy_iterations = (let scan = CTraverseBegin # replicate 17 CTraverse in
     CBegin [0] # scan @ [CVisitNext, CReadRelaxed, LClone 1 0, CReadRelaxed, LLoadBegin 0 (Cell 0), CClearTags,
       LDrop 1 0, CClearTags, CVisitNext, CFree 0]
     @ CBegin [0, 1] # scan @ [CVisitNext, LLoadEnter 0, CCheckTags, LLoadPtr 0, CCheckTags, LLoadInc 0 0,
         CClearWeak, LLoadExit 0, CVisitNext, CReadRelaxed, CReadRelaxed, CVisitNext, CFree 0, LDrop 1 0, CFree 0]
     @ LFlagMem 0 # LFlagMem 0 # concat (replicate 3 (CBegin [0] # scan @ [CVisitNext, CVisitNext, CFree 0])))"

theorem forgotten_object_freed_witness:
  "sometime (\<lambda>s. obj_at s 0 = None) busy_iterations (after (run dropped_trace (start 1 2 1)))"
proof -
  let ?s = "after (run dropped_trace (start 1 2 1))"
  have "is_next (run dropped_trace (start 1 2 1))" by code_simp
  then have r: "reach ?s" by (intro start_reach [where n = 1]) simp_all
  have z: "tokens ?s 0 = 0" "map (\<lambda>x. map_option back_ref x) (heap ?s) = [Some None, Some None]" by code_simp+
  have "map at_pc (thrs ?s) = [Idle]" "map (\<lambda>th. guards th j) (thrs ?s) = [None]" for j by code_simp+
  then have "no_thread_has ?s 0" by (cases "thrs ?s") (auto simp: no_thread_has_def)
  moreover have "back_ref y \<noteq> Some 0" if y: "obj_at ?s w = Some y" for w y
  proof -
    have "Some (back_ref y) \<in> set (map (\<lambda>x. map_option back_ref x) (heap ?s))"
      using heap_obj_at [OF y] nth_mem [OF obj_at_less [OF y]] by force
    then show ?thesis unfolding z(2) by auto
  qed
  ultimately have f: "forgotten ?s 0" using z(1) by (simp add: forgotten_def nobody_has_def)
  have t: "tracked ?s 0 \<noteq> None" "is_next (run busy_iterations ?s)" "5 \<le> visits 0 busy_iterations" by code_simp+
  then obtain s' where "run busy_iterations ?s = Next s'" by (cases "run busy_iterations ?s") auto
  then show ?thesis using forgotten_object_freed [OF r t(1) f _ t(3)] by simp
qed

end
