(* ===== verification/CollectorLoop.thy ===== *)
theory CollectorLoop
  imports Interleaved InnerIteration
begin

text \<open>
  The whole collector thread of \<open>src/src/collector.rs\<close> as a system of steps, beside the other threads
  and the callers of \<open>collector_update_now_and_wait\<close>. Each access of \<open>Collecting\<close> is one step here
  too; what this theory adds is the control around them: the passes of the outer loop, taking the
  shards of new objects, the inner iterations of a shallow or deep collection, the drops of what a
  freed object's data held, the notification of the waiters, and parking.
\<close>

section \<open>State\<close>

text \<open>
  A call of \<open>collector_update_now_and_wait\<close>: to push its sender under the lock, to unpark the
  collector, to release the lock, to receive; the number of the call is its channel.
\<close>

datatype call_pc = CallPush | CallUnpark | CallUnlock | CallRecv | CallDone

text \<open>
  Where the collector thread is: at the head of its loop, taking the new objects of a shard, about
  to begin an inner iteration (\<open>None\<close>: over all tracked counters), in it, dropping what the data of
  the object just freed held, at the end of the iteration, notifying, parked.
\<close>

datatype phase =
    PTop
  | PTake nat
  | PBegin "addr list option"
  | PInner
  | PDrop "addr list"
  | PAfter
  | PNotify
  | PPark

record loop = world +
  at_phase :: phase
  to_notify :: "nat list"
  new_to_recheck :: "addr list"
  loop_counter :: int
  lock_holder :: "nat option"
  park_token :: bool
  calls :: "call_pc list"

definition loop_start :: "nat \<Rightarrow> nat \<Rightarrow> nat \<Rightarrow> loop" where
  "loop_start n addrs cs = \<lparr>core = start n addrs cs, data_handles = \<lambda>_. [], counters_to_recheck = [],
     collection_waiting = [], notified = [], outer_iteration_counter = 0, at_phase = PTop, to_notify = [],
     new_to_recheck = [], loop_counter = 0, lock_holder = None, park_token = False, calls = []\<rparr>"

section \<open>The collector thread\<close>

definition loop_head :: "loop \<Rightarrow> loop outcome" where
  "loop_head w =
     (if lock_holder w = None
      then Next (w\<lparr>outer_iteration_counter := outer_iteration_counter w + 1,
             to_notify := collection_waiting w, collection_waiting := [], at_phase := PTake 0\<rparr>)
      else Disabled)"

definition take_shard :: "nat \<Rightarrow> loop \<Rightarrow> loop outcome" where
  "take_shard j w =
     (if j < nshards (core w)
      then bind_outcome (take_new_counters_to_track j (core w)) (\<lambda>s.
             Next (w\<lparr>core := s, at_phase := PTake (Suc j)\<rparr>))
      else Next (w\<lparr>at_phase := PBegin None, loop_counter := 0\<rparr>))"

definition begin_inner :: "addr list option \<Rightarrow> loop \<Rightarrow> loop outcome" where
  "begin_inner old_to_recheck w =
     bind_outcome (begin_iteration (case old_to_recheck of None \<Rightarrow> tracked_keys (core w) | Some l \<Rightarrow> l) (core w))
       (\<lambda>s. Next (w\<lparr>core := s, new_to_recheck := [], at_phase := PInner\<rparr>))"

text \<open>The object whose visit the collector's step has ended joins the set if it is to be re-checked.\<close>

definition note_recheck :: "sys \<Rightarrow> sys \<Rightarrow> addr list \<Rightarrow> addr list" where
  "note_recheck s s' l =
     (case at_cpc s of
        CClear a k acc \<Rightarrow> if at_cpc s' = CVisit \<and> tracked s' a = Some RequiresReChecking then insort_insert a l else l
      | CWeak a \<Rightarrow> if tracked s' a = Some RequiresReChecking then insort_insert a l else l
      | _ \<Rightarrow> l)"

text \<open>
  A free drops the counters, then the handle to the weak object (noted for re-checking), then the
  data: what it held is dropped by the steps that follow.
\<close>

definition inner_step :: "nat \<Rightarrow> loop \<Rightarrow> loop outcome" where
  "inner_step i w =
     (if at_cpc (core w) = CIdle then Next (w\<lparr>at_phase := PAfter\<rparr>)
      else if at_cpc (core w) = CFreeing \<and> tofree (core w) \<noteq> []
      then let a = hd (tofree (core w)) in
        bind_outcome (collector_step i (core w)) (\<lambda>s. Next (w\<lparr>core := s,
          counters_to_recheck := (case obj_at (core w) a of
              Some x \<Rightarrow> (case weak_ref x of Some v \<Rightarrow> insort_insert v (counters_to_recheck w) | None \<Rightarrow> counters_to_recheck w)
            | None \<Rightarrow> counters_to_recheck w),
          data_handles := (data_handles w)(a := []), at_phase := PDrop (data_handles w a)\<rparr>))
      else bind_outcome (collector_step i (core w)) (\<lambda>s.
             Next (w\<lparr>core := s, new_to_recheck := note_recheck (core w) s (new_to_recheck w)\<rparr>)))"

definition drop_next :: "nat \<Rightarrow> addr list \<Rightarrow> loop \<Rightarrow> loop outcome" where
  "drop_next i cs w =
     (case cs of
        [] \<Rightarrow> Next (w\<lparr>at_phase := PInner\<rparr>)
      | c # rest \<Rightarrow> bind_outcome (sdarc_drop c i (core w)) (\<lambda>s.
          Next (w\<lparr>core := s, counters_to_recheck := insort_insert c (counters_to_recheck w), at_phase := PDrop rest\<rparr>)))"

text \<open>
  A panic in the drop of the data ends it early; \<open>catch_unwind\<close> keeps it from the collector. What was
  not dropped then leaks: its handles stay counted.
\<close>

definition drop_panics :: "addr list \<Rightarrow> loop \<Rightarrow> loop outcome" where
  "drop_panics cs w = Next (w\<lparr>at_phase := PInner\<rparr>)"

text \<open>
  A collection is deep when someone waits for it. The counter of its iterations is a \<open>u64\<close> that
  stops at the limit, so an unbounded integer has its value.
\<close>

definition RECHECK_LIMIT :: int where
  "RECHECK_LIMIT = 100000"

definition after_inner :: "loop \<Rightarrow> loop outcome" where
  "after_inner w =
     (let to_recheck = set_extend (counters_to_recheck w) (new_to_recheck w);
          w' = w\<lparr>counters_to_recheck := []\<rparr>
      in if to_notify w = [] \<or> to_recheck = [] \<or> loop_counter w = RECHECK_LIMIT
         then Next (w'\<lparr>at_phase := PNotify\<rparr>)
         else Next (w'\<lparr>at_phase := PBegin (Some to_recheck), loop_counter := loop_counter w + 1\<rparr>))"

definition notify_next :: "loop \<Rightarrow> loop outcome" where
  "notify_next w =
     (case to_notify w of
        [] \<Rightarrow> Next (w\<lparr>at_phase := PPark\<rparr>)
      | c # rest \<Rightarrow> Next (w\<lparr>notified := notified w @ [c], to_notify := rest\<rparr>))"

text \<open>
  \<open>park_timeout\<close> returns at once when the token is there, and consumes it; otherwise after the time
  is over (\<open>park_times_out\<close>).
\<close>

definition park :: "loop \<Rightarrow> loop outcome" where
  "park w = (if park_token w then Next (w\<lparr>park_token := False, at_phase := PTop\<rparr>) else Disabled)"

definition park_times_out :: "loop \<Rightarrow> loop outcome" where
  "park_times_out w =
     (if at_phase w = PPark then Next (w\<lparr>park_token := False, at_phase := PTop\<rparr>) else Disabled)"

definition collector_next :: "nat \<Rightarrow> loop \<Rightarrow> loop outcome" where
  "collector_next i w =
     (case at_phase w of
        PTop \<Rightarrow> loop_head w
      | PTake j \<Rightarrow> take_shard j w
      | PBegin v \<Rightarrow> begin_inner v w
      | PInner \<Rightarrow> inner_step i w
      | PDrop cs \<Rightarrow> drop_next i cs w
      | PAfter \<Rightarrow> after_inner w
      | PNotify \<Rightarrow> notify_next w
      | PPark \<Rightarrow> park w)"

section \<open>The callers\<close>

definition call_begin :: "loop \<Rightarrow> loop outcome" where
  "call_begin w = Next (w\<lparr>calls := calls w @ [CallPush]\<rparr>)"

definition call_step :: "nat \<Rightarrow> loop \<Rightarrow> loop outcome" where
  "call_step c w =
     (if c < length (calls w)
      then case calls w ! c of
        CallPush \<Rightarrow>
          if lock_holder w = None
          then Next (w\<lparr>lock_holder := Some c, collection_waiting := collection_waiting w @ [c],
                 calls := (calls w)[c := CallUnpark]\<rparr>)
          else Disabled
      | CallUnpark \<Rightarrow> Next (w\<lparr>park_token := True, calls := (calls w)[c := CallUnlock]\<rparr>)
      | CallUnlock \<Rightarrow> Next (w\<lparr>lock_holder := None, calls := (calls w)[c := CallRecv]\<rparr>)
      | CallRecv \<Rightarrow> if c \<in> set (notified w) then Next (w\<lparr>calls := (calls w)[c := CallDone]\<rparr>) else Disabled
      | CallDone \<Rightarrow> Disabled
      else Disabled)"

section \<open>The other threads\<close>

text \<open>
  How many of the handles to \<open>a\<close> lie in the data of objects, or in what the collector is dropping;
  the rest are in the hands of threads.
\<close>

definition dropping :: "phase \<Rightarrow> addr list" where
  "dropping p = (case p of PDrop cs \<Rightarrow> cs | _ \<Rightarrow> [])"

definition held_in_data :: "loop \<Rightarrow> addr \<Rightarrow> nat" where
  "held_in_data w a = sum_list (map (\<lambda>b. count_list (data_handles w b) a) [0..<length (heap (core w))])
     + count_list (dropping (at_phase w)) a"

fun consumed :: "label \<Rightarrow> addr option" where
  "consumed (LDrop a i) = Some a"
| "consumed (LSwap c p) = p"
| "consumed _ = None"

text \<open>A thread gives away only handles in its hands; it may borrow those in data.\<close>

definition thread_step :: "label \<Rightarrow> loop \<Rightarrow> loop outcome" where
  "thread_step l w =
     (if \<not> is_collector l
         \<and> (case consumed l of None \<Rightarrow> True | Some a \<Rightarrow> held_in_data w a < handles (core w) a)
      then bind_outcome (step l (core w)) (\<lambda>s. Next (w\<lparr>core := s\<rparr>))
      else Disabled)"

text \<open>Whoever can reach an object may move handles into its data and out of it.\<close>

definition reachable_by_threads :: "sys \<Rightarrow> addr \<Rightarrow> bool" where
  "reachable_by_threads s a \<longleftrightarrow> handles s a > 0
     \<or> (\<exists>th\<in>set (thrs s). \<exists>j\<in>{..<HZ_PTR_SLOT_COUNT}. guards th j = Some a)"

definition put_into_data :: "addr \<Rightarrow> addr \<Rightarrow> loop \<Rightarrow> loop outcome" where
  "put_into_data a c w =
     (if reachable_by_threads (core w) a \<and> held_in_data w c < handles (core w) c
      then Next (w\<lparr>data_handles := (data_handles w)(a := data_handles w a @ [c])\<rparr>) else Disabled)"

definition take_from_data :: "addr \<Rightarrow> addr \<Rightarrow> loop \<Rightarrow> loop outcome" where
  "take_from_data a c w =
     (if reachable_by_threads (core w) a \<and> c \<in> set (data_handles w a)
      then Next (w\<lparr>data_handles := (data_handles w)(a := remove1 c (data_handles w a))\<rparr>) else Disabled)"

section \<open>The system\<close>

datatype loop_label =
    Collect nat
  | DropPanics
  | TimeOut
  | CallBegin
  | CallStep nat
  | ThreadStep label
  | PutIntoData addr addr
  | TakeFromData addr addr

fun loop_step :: "loop_label \<Rightarrow> loop \<Rightarrow> loop outcome" where
  "loop_step (Collect i) w = collector_next i w"
| "loop_step DropPanics w = (case at_phase w of PDrop cs \<Rightarrow> drop_panics cs w | _ \<Rightarrow> Disabled)"
| "loop_step TimeOut w = park_times_out w"
| "loop_step CallBegin w = call_begin w"
| "loop_step (CallStep c) w = call_step c w"
| "loop_step (ThreadStep l) w = thread_step l w"
| "loop_step (PutIntoData a c) w = put_into_data a c w"
| "loop_step (TakeFromData a c) w = take_from_data a c w"

inductive loop_reach :: "loop \<Rightarrow> bool" where
  loop_reach_start: "n > 0 \<Longrightarrow> loop_reach (loop_start n addrs cs)"
| loop_reach_step: "loop_reach w \<Longrightarrow> loop_step l w = Next w' \<Longrightarrow> loop_reach w'"

fun loop_run :: "loop_label list \<Rightarrow> loop \<Rightarrow> loop outcome" where
  "loop_run [] w = Next w"
| "loop_run (l # ls) w = (case loop_step l w of Next w' \<Rightarrow> loop_run ls w' | r \<Rightarrow> r)"

interpretation collector_loop: step_system loop_step loop_reach loop_run
  by unfold_locales (auto simp: bind_outcome_def split: outcome.splits intro: loop_reach_step)

end
