(* ===== verification/LoopInvariants.thy ===== *)
theory LoopInvariants
  imports CollectorLoop
begin

text \<open>
  What always holds of the collector thread and its waiters: every step is a step of the machine or
  leaves its memory alone, the phase and the collector's position agree, the waiters are queued,
  notified and released in order, a queued waiter keeps the collector awake, and the handles in
  data are never more than the handles that exist.
\<close>

section \<open>Steps of the loop are steps of the machine\<close>

lemma collector_next_core:
  assumes "collector_next i w = Next w'"
  shows "core w' = core w \<or> (\<exists>k. step k (core w) = Next (core w'))"
proof (cases "at_phase w")
  case PTop
  then show ?thesis using assms by (auto simp: collector_next_def loop_head_def split: if_splits)
next
  case (PTake j)
  then show ?thesis using assms
    by (auto simp: collector_next_def take_shard_def bind_outcome_Next split: if_splits) (metis step.simps(25))
next
  case (PBegin v)
  then show ?thesis using assms
    by (auto simp: collector_next_def begin_inner_def bind_outcome_Next) (metis step.simps(26))
next
  case PInner
  then show ?thesis using assms collector_step_is_step
    by (auto simp: collector_next_def inner_step_def bind_outcome_Next Let_def split: if_splits)
next
  case (PDrop cs)
  then show ?thesis using assms
    by (auto simp: collector_next_def drop_next_def bind_outcome_Next split: list.splits) (metis step.simps(3))
next
  case PAfter
  then show ?thesis using assms by (auto simp: collector_next_def after_inner_def Let_def split: if_splits)
next
  case PNotify
  then show ?thesis using assms by (auto simp: collector_next_def notify_next_def split: list.splits)
next
  case PPark
  then show ?thesis using assms by (auto simp: collector_next_def park_def split: if_splits)
qed

lemma loop_step_core:
  assumes "loop_step l w = Next w'"
  shows "core w' = core w \<or> (\<exists>k. step k (core w) = Next (core w'))"
proof (cases l)
  case (Collect i)
  then show ?thesis using assms collector_next_core by simp
qed (use assms in \<open>auto simp: drop_panics_def park_times_out_def call_begin_def call_step_def thread_step_def
    put_into_data_def take_from_data_def bind_outcome_Next split: phase.splits call_pc.splits if_splits option.splits\<close>)

lemma loop_reach_core: "loop_reach w \<Longrightarrow> reach (core w)"
proof (induction rule: loop_reach.induct)
  case (loop_reach_start n addrs cs)
  then show ?case by (simp add: loop_start_def reach_start)
next
  case (loop_reach_step w l w')
  then show ?case using loop_step_core [of l w w'] reach_step by auto
qed

lemma loop_reach_inv: "loop_reach w \<Longrightarrow> res_inv (core w)" "loop_reach w \<Longrightarrow> gc_inv (core w)"
  using loop_reach_core reach_invariants by blast+

section \<open>Frames\<close>

lemma heap_length:
  assumes "step l s = Next s'"
  shows "length (heap s') = length (heap s)"
  using assms
  by (cases l; simp only: step.simps;
    auto simp: memory_defs handle_defs reader_defs collector_defs
      split: option.splits if_splits pc.splits cellref.splits cpc.splits list.splits tstate.splits)

lemma handles_kept:
  assumes "\<not> is_collector l" and "step l s = Next s'" and "consumed l \<noteq> Some a"
  shows "handles s a \<le> handles s' a"
  using assms
  by (cases l; simp only: step.simps is_collector.simps consumed.simps simp_thms;
    auto simp: memory_defs handle_defs reader_defs
      split: option.splits if_splits pc.splits cellref.splits)

lemma handles_consumed:
  assumes "\<not> is_collector l" and "step l s = Next s'"
  shows "handles s a \<le> handles s' a + 1"
  using assms
  by (cases l; simp only: step.simps is_collector.simps simp_thms;
    auto simp: memory_defs handle_defs reader_defs
      split: option.splits if_splits pc.splits cellref.splits)

section \<open>Phase and position\<close>

definition control_ok :: "loop \<Rightarrow> bool" where
  "control_ok w \<longleftrightarrow>
     (case at_phase w of
        PInner \<Rightarrow> True
      | PDrop cs \<Rightarrow> at_cpc (core w) = CFreeing
      | PBegin v \<Rightarrow> at_cpc (core w) = CIdle \<and> (case v of None \<Rightarrow> True | Some l \<Rightarrow> distinct l)
      | _ \<Rightarrow> at_cpc (core w) = CIdle)
     \<and> sorted (new_to_recheck w) \<and> distinct (new_to_recheck w)
     \<and> (at_phase w = PTop \<or> at_phase w = PPark \<longrightarrow> to_notify w = [])"

lemma control_same:
  assumes "control_ok w" and "at_phase w' = at_phase w \<and> core w' = core w
      \<and> new_to_recheck w' = new_to_recheck w \<and> to_notify w' = to_notify w"
  shows "control_ok w'"
  using assms by (auto simp: control_ok_def split: phase.splits)

lemma insort_sorted: "sorted l \<and> distinct l \<Longrightarrow> sorted (insort_insert a l) \<and> distinct (insort_insert a l)"
  by (simp add: sorted_insort_insert distinct_insort_insert)

lemma note_recheck_sorted:
  "sorted l \<and> distinct l \<Longrightarrow> sorted (note_recheck s s' l) \<and> distinct (note_recheck s s' l)"
  by (simp add: note_recheck_def insort_sorted split: cpc.split)

lemma collector_next_control:
  assumes st: "collector_next i w = Next w'" and c: "control_ok w"
  shows "control_ok w'"
proof (cases "at_phase w")
  case PInner
  show ?thesis
  proof (cases "at_cpc (core w) = CFreeing \<and> tofree (core w) \<noteq> []")
    case True
    then obtain s where s: "collector_step i (core w) = Next s" "core w' = s"
      "new_to_recheck w' = new_to_recheck w" "\<exists>cs. at_phase w' = PDrop cs"
      using st PInner by (auto simp: collector_next_def inner_step_def bind_outcome_Next Let_def)
    obtain a as where "tofree (core w) = a # as" using True by (cases "tofree (core w)") auto
    then have "at_cpc s = CFreeing"
      using s(1) True by (auto simp: collector_step_def free_step_def deref_def drop_weak_inner_ref_def put_def
          split: if_splits option.splits)
    then show ?thesis using c s by (auto simp: control_ok_def)
  next
    case False
    then have "at_phase w' = PAfter \<and> core w' = core w \<and> at_cpc (core w) = CIdle \<and> new_to_recheck w' = new_to_recheck w
        \<or> at_phase w' = PInner \<and> (\<exists>s. new_to_recheck w' = note_recheck (core w) s (new_to_recheck w))"
      using st PInner by (auto simp: collector_next_def inner_step_def bind_outcome_Next split: if_splits)
    then show ?thesis using c note_recheck_sorted [of "new_to_recheck w"] by (auto simp: control_ok_def)
  qed
next
  case (PDrop cs)
  then show ?thesis using st c
    by (auto simp: collector_next_def drop_next_def bind_outcome_Next control_ok_def sdarc_drop_def deref_def
        take_handle_def put_def split: list.splits if_splits option.splits)
next
  case PAfter
  let ?l = "set_extend (counters_to_recheck w) (new_to_recheck w)"
  have "distinct ?l" using sorted_set_extend c by (simp add: control_ok_def)
  then show ?thesis using st PAfter c
    by (auto simp: collector_next_def after_inner_def Let_def control_ok_def split: if_splits)
next
  case (PTake j)
  then show ?thesis using st c
    by (auto simp: collector_next_def take_shard_def bind_outcome_Next control_ok_def
        take_new_counters_to_track_def split: if_splits option.splits)
next
  case (PBegin v)
  then show ?thesis using st c
    by (auto simp: collector_next_def begin_inner_def bind_outcome_Next control_ok_def)
next
  case PTop
  then show ?thesis using st c
    by (auto simp: collector_next_def loop_head_def control_ok_def split: if_splits)
next
  case PNotify
  then show ?thesis using st c
    by (auto simp: collector_next_def notify_next_def control_ok_def split: list.splits)
next
  case PPark
  then show ?thesis using st c by (auto simp: collector_next_def park_def control_ok_def split: if_splits)
qed

lemma thread_cpc:
  assumes "loop_reach w" and "thread_step l w = Next w'"
  shows "effect (core w) (core w')" "w' = w\<lparr>core := core w'\<rparr>" "step l (core w) = Next (core w')" "\<not> is_collector l"
proof -
  show "w' = w\<lparr>core := core w'\<rparr>" "step l (core w) = Next (core w')" "\<not> is_collector l"
    using assms(2) by (auto simp: thread_step_def bind_outcome_Next split: if_splits)
  then show "effect (core w) (core w')"
    using thread_effect [OF loop_reach_inv(1) [OF assms(1)]] by blast
qed

lemma loop_step_control:
  assumes r: "loop_reach w" and st: "loop_step l w = Next w'" and c: "control_ok w"
  shows "control_ok w'"
proof (cases l)
  case (Collect i)
  then show ?thesis using collector_next_control st c by simp
next
  case (ThreadStep k)
  then have t: "thread_step k w = Next w'" using st by simp
  note e = thread_cpc [OF r t]
  have "at_cpc (core w') = at_cpc (core w)" using gc_same_simps(2) [OF e(1)] .
  moreover have "at_phase w' = at_phase w" "new_to_recheck w' = new_to_recheck w" "to_notify w' = to_notify w"
    by (subst e(2), simp)+
  ultimately show ?thesis using c by (auto simp: control_ok_def split: phase.splits)
next
  case DropPanics
  then show ?thesis using st c by (auto simp: drop_panics_def control_ok_def split: phase.splits)
next
  case TimeOut
  then show ?thesis using st c by (auto simp: park_times_out_def control_ok_def split: if_splits)
qed (use st in \<open>auto simp: call_begin_def call_step_def put_into_data_def take_from_data_def
    split: if_splits call_pc.splits intro!: control_same [OF c]\<close>)

lemma loop_control: "loop_reach w \<Longrightarrow> control_ok w"
proof (induction rule: loop_reach.induct)
  case (loop_reach_start n addrs cs)
  then show ?case by (simp add: loop_start_def control_ok_def start_def)
qed (rule loop_step_control)

section \<open>The waiters\<close>

definition queue :: "loop \<Rightarrow> nat list" where
  "queue w = notified w @ to_notify w @ collection_waiting w"

definition waiters_ok :: "loop \<Rightarrow> bool" where
  "waiters_ok w \<longleftrightarrow> distinct (queue w)
     \<and> set (queue w) = {c. c < length (calls w) \<and> calls w ! c \<noteq> CallPush}
     \<and> (\<forall>c<length (calls w). calls w ! c = CallDone \<longrightarrow> c \<in> set (notified w))
     \<and> (\<forall>c. lock_holder w = Some c \<longleftrightarrow> c < length (calls w) \<and> (calls w ! c = CallUnpark \<or> calls w ! c = CallUnlock))
     \<and> (collection_waiting w \<noteq> [] \<longrightarrow> park_token w \<or> at_phase w = PTop
          \<or> (\<exists>c<length (calls w). calls w ! c = CallUnpark))"

lemma waiters_same:
  assumes "queue w' = queue w" and "calls w' = calls w" and "lock_holder w' = lock_holder w"
    and "set (notified w) \<subseteq> set (notified w')"
    and "collection_waiting w' = collection_waiting w \<and> park_token w' = park_token w \<and> (at_phase w = PTop \<longrightarrow> at_phase w' = PTop)
      \<or> collection_waiting w' = [] \<or> at_phase w' = PTop"
    and "waiters_ok w"
  shows "waiters_ok w'"
  using assms unfolding waiters_ok_def by auto

lemma collector_next_waiters:
  assumes st: "collector_next i w = Next w'" and c: "control_ok w" and ok: "waiters_ok w"
  shows "waiters_ok w'"
proof -
  have "queue w' = queue w \<and> calls w' = calls w \<and> lock_holder w' = lock_holder w
      \<and> set (notified w) \<subseteq> set (notified w')
      \<and> (collection_waiting w' = collection_waiting w \<and> park_token w' = park_token w \<and> (at_phase w = PTop \<longrightarrow> at_phase w' = PTop)
        \<or> collection_waiting w' = [] \<or> at_phase w' = PTop)"
  proof (cases "at_phase w")
    case PTop
    then show ?thesis using st c
      by (auto simp: collector_next_def loop_head_def queue_def control_ok_def split: if_splits)
  next
    case PInner
    then show ?thesis using st
      by (auto simp: collector_next_def inner_step_def bind_outcome_Next Let_def queue_def split: if_splits)
  next
    case (PTake j)
    then show ?thesis using st
      by (auto simp: collector_next_def take_shard_def bind_outcome_Next queue_def split: if_splits)
  next
    case (PBegin v)
    then show ?thesis using st by (auto simp: collector_next_def begin_inner_def bind_outcome_Next queue_def)
  next
    case (PDrop cs)
    then show ?thesis using st
      by (auto simp: collector_next_def drop_next_def bind_outcome_Next queue_def split: list.splits)
  next
    case PAfter
    then show ?thesis using st by (auto simp: collector_next_def after_inner_def Let_def queue_def split: if_splits)
  next
    case PNotify
    then show ?thesis using st by (auto simp: collector_next_def notify_next_def queue_def split: list.splits)
  next
    case PPark
    then show ?thesis using st by (auto simp: collector_next_def park_def queue_def split: if_splits)
  qed
  then show ?thesis using waiters_same ok by blast
qed

lemma waiters_okD:
  assumes "waiters_ok w"
  shows "distinct (queue w)" "set (queue w) = {c. c < length (calls w) \<and> calls w ! c \<noteq> CallPush}"
    "\<And>c. \<lbrakk>c < length (calls w); calls w ! c = CallDone\<rbrakk> \<Longrightarrow> c \<in> set (notified w)"
    "\<And>c. lock_holder w = Some c \<longleftrightarrow> c < length (calls w) \<and> (calls w ! c = CallUnpark \<or> calls w ! c = CallUnlock)"
    "collection_waiting w \<noteq> [] \<Longrightarrow> park_token w \<or> at_phase w = PTop \<or> (\<exists>c<length (calls w). calls w ! c = CallUnpark)"
  using assms unfolding waiters_ok_def by blast+

lemma waiters_okI:
  assumes "distinct (queue w)" "set (queue w) = {c. c < length (calls w) \<and> calls w ! c \<noteq> CallPush}"
    "\<And>c. \<lbrakk>c < length (calls w); calls w ! c = CallDone\<rbrakk> \<Longrightarrow> c \<in> set (notified w)"
    "\<And>c. lock_holder w = Some c \<longleftrightarrow> c < length (calls w) \<and> (calls w ! c = CallUnpark \<or> calls w ! c = CallUnlock)"
    "collection_waiting w \<noteq> [] \<Longrightarrow> park_token w \<or> at_phase w = PTop \<or> (\<exists>c<length (calls w). calls w ! c = CallUnpark)"
  shows "waiters_ok w"
  using assms unfolding waiters_ok_def by blast

lemma call_step_waiters:
  assumes st: "call_step c w = Next w'" and ok: "waiters_ok w"
  shows "waiters_ok w'"
proof -
  note d = waiters_okD [OF ok]
  have c: "c < length (calls w)" using st by (simp add: call_step_def split: if_splits)
  have holder: "lock_holder w = Some c" if "calls w ! c = CallUnpark \<or> calls w ! c = CallUnlock"
    using d(4) that c by blast
  have only: "e = c" if "lock_holder w = Some c" "e < length (calls w)" "calls w ! e = CallUnpark \<or> calls w ! e = CallUnlock" for e
    using d(4) [of e] that by simp
  show ?thesis
  proof (cases "calls w ! c")
    case CallPush
    then have w': "w' = w\<lparr>lock_holder := Some c, collection_waiting := collection_waiting w @ [c],
        calls := (calls w)[c := CallUnpark]\<rparr>" and free: "lock_holder w = None"
      using st c by (auto simp: call_step_def split: if_splits)
    have q: "queue w' = queue w @ [c]" by (simp add: queue_def w')
    have new: "c \<notin> set (queue w)" using d(2) CallPush by simp
    have no: "\<not> (calls w ! e = CallUnpark \<or> calls w ! e = CallUnlock)" if "e < length (calls w)" for e
      using d(4) [of e] free that by simp
    show ?thesis
    proof (rule waiters_okI)
      show "distinct (queue w')" using new d(1) by (simp add: q)
      show "set (queue w') = {c. c < length (calls w') \<and> calls w' ! c \<noteq> CallPush}"
        unfolding q set_append d(2) using c by (auto simp: w' nth_list_update)
      show "e \<in> set (notified w')" if "e < length (calls w')" "calls w' ! e = CallDone" for e
        using that d(3) [of e] by (cases "e = c") (simp_all add: w')
      show "lock_holder w' = Some e \<longleftrightarrow> e < length (calls w') \<and> (calls w' ! e = CallUnpark \<or> calls w' ! e = CallUnlock)" for e
        using c no [of e] by (auto simp: w' nth_list_update)
      show "park_token w' \<or> at_phase w' = PTop \<or> (\<exists>e<length (calls w'). calls w' ! e = CallUnpark)"
        using c by (intro disjI2 exI [of _ c]) (simp add: w')
    qed
  next
    case CallUnpark
    then have w': "w' = w\<lparr>park_token := True, calls := (calls w)[c := CallUnlock]\<rparr>"
      using st c by (simp add: call_step_def)
    have q: "queue w' = queue w" by (simp add: queue_def w')
    show ?thesis
    proof (rule waiters_okI)
      show "set (queue w') = {c. c < length (calls w') \<and> calls w' ! c \<noteq> CallPush}"
        unfolding q d(2) using c CallUnpark by (auto simp: w' nth_list_update)
      show "e \<in> set (notified w')" if "e < length (calls w')" "calls w' ! e = CallDone" for e
        using that d(3) [of e] by (cases "e = c") (simp_all add: w')
      show "lock_holder w' = Some e \<longleftrightarrow> e < length (calls w') \<and> (calls w' ! e = CallUnpark \<or> calls w' ! e = CallUnlock)" for e
        using c CallUnpark d(4) [of e] by (auto simp: w' nth_list_update)
      show "distinct (queue w')" using d(1) by (simp add: q)
    qed (simp add: w')
  next
    case CallUnlock
    then have w': "w' = w\<lparr>lock_holder := None, calls := (calls w)[c := CallRecv]\<rparr>"
      using st c by (simp add: call_step_def)
    have q: "queue w' = queue w" by (simp add: queue_def w')
    have no: "\<not> (calls w ! e = CallUnpark \<or> calls w ! e = CallUnlock)" if "e < length (calls w)" "e \<noteq> c" for e
      using only [OF holder] CallUnlock that by blast
    show ?thesis
    proof (rule waiters_okI)
      show "set (queue w') = {c. c < length (calls w') \<and> calls w' ! c \<noteq> CallPush}"
        unfolding q d(2) using c CallUnlock by (auto simp: w' nth_list_update)
      show "e \<in> set (notified w')" if "e < length (calls w')" "calls w' ! e = CallDone" for e
        using that d(3) [of e] by (cases "e = c") (simp_all add: w')
      show "lock_holder w' = Some e \<longleftrightarrow> e < length (calls w') \<and> (calls w' ! e = CallUnpark \<or> calls w' ! e = CallUnlock)" for e
        using c no [of e] by (auto simp: w' nth_list_update)
      assume "collection_waiting w' \<noteq> []"
      then have "park_token w \<or> at_phase w = PTop \<or> (\<exists>e<length (calls w). calls w ! e = CallUnpark)"
        using d(5) by (simp add: w')
      moreover have "calls w ! e \<noteq> CallUnpark" if "e < length (calls w)" for e
        using no [OF that] CallUnlock by (cases "e = c") auto
      ultimately show "park_token w' \<or> at_phase w' = PTop \<or> (\<exists>e<length (calls w'). calls w' ! e = CallUnpark)"
        by (auto simp: w')
    qed (simp_all add: q d(1))
  next
    case CallRecv
    then have w': "w' = w\<lparr>calls := (calls w)[c := CallDone]\<rparr>" and n: "c \<in> set (notified w)"
      using st c by (auto simp: call_step_def split: if_splits)
    have q: "queue w' = queue w" by (simp add: queue_def w')
    show ?thesis
    proof (rule waiters_okI)
      show "set (queue w') = {c. c < length (calls w') \<and> calls w' ! c \<noteq> CallPush}"
        unfolding q d(2) using c CallRecv by (auto simp: w' nth_list_update)
      show "e \<in> set (notified w')" if "e < length (calls w')" "calls w' ! e = CallDone" for e
        using that d(3) [of e] n by (cases "e = c") (simp_all add: w')
      show "lock_holder w' = Some e \<longleftrightarrow> e < length (calls w') \<and> (calls w' ! e = CallUnpark \<or> calls w' ! e = CallUnlock)" for e
        using c CallRecv d(4) [of e] by (auto simp: w' nth_list_update)
      assume "collection_waiting w' \<noteq> []"
      then have "park_token w \<or> at_phase w = PTop \<or> (\<exists>e<length (calls w). calls w ! e = CallUnpark)"
        using d(5) by (simp add: w')
      moreover have "calls w' ! e = CallUnpark" if "calls w ! e = CallUnpark" for e
        using that CallRecv by (cases "e = c") (simp_all add: w')
      ultimately show "park_token w' \<or> at_phase w' = PTop \<or> (\<exists>e<length (calls w'). calls w' ! e = CallUnpark)"
        by (auto simp: w')
    qed (simp_all add: q d(1))
  next
    case CallDone
    then show ?thesis using st c by (simp add: call_step_def)
  qed
qed

lemma loop_step_waiters:
  assumes r: "loop_reach w" and st: "loop_step l w = Next w'" and ok: "waiters_ok w"
  shows "waiters_ok w'"
proof (cases l)
  case (Collect i)
  then show ?thesis using collector_next_waiters [OF _ loop_control [OF r] ok] st by simp
next
  case (CallStep c)
  then show ?thesis using call_step_waiters ok st by simp
next
  case CallBegin
  have q: "queue (w\<lparr>calls := calls w @ [CallPush]\<rparr>) = queue w" by (simp add: queue_def)
  have w': "w' = w\<lparr>calls := calls w @ [CallPush]\<rparr>" using st CallBegin by (simp add: call_begin_def)
  show ?thesis
    unfolding waiters_ok_def w' q using waiters_okD(1,3,4,5) [OF ok]
    by (auto simp: waiters_okD(2) [OF ok] nth_append less_Suc_eq split: if_splits)
next
  case TimeOut
  then have "w' = w\<lparr>park_token := False, at_phase := PTop\<rparr>" using st by (simp add: park_times_out_def split: if_splits)
  then show ?thesis by (intro waiters_same [OF _ _ _ _ _ ok]) (simp_all add: queue_def)
next
  case (ThreadStep k)
  then show ?thesis using st
    by (intro waiters_same [OF _ _ _ _ _ ok])
      (auto simp: thread_step_def bind_outcome_Next queue_def split: if_splits)
qed (use st in \<open>auto simp: drop_panics_def put_into_data_def take_from_data_def queue_def
    split: if_splits phase.splits intro!: waiters_same [OF _ _ _ _ _ ok]\<close>)

lemma loop_waiters: "loop_reach w \<Longrightarrow> waiters_ok w"
proof (induction rule: loop_reach.induct)
  case (loop_reach_start n addrs cs)
  then show ?case by (simp add: loop_start_def waiters_ok_def queue_def)
qed (rule loop_step_waiters)

section \<open>Handles in data\<close>

definition held_ok :: "loop \<Rightarrow> bool" where
  "held_ok w \<longleftrightarrow> (\<forall>c. held_in_data w c \<le> handles (core w) c)"

lemma data_sum_update:
  fixes f :: "addr \<Rightarrow> addr list"
  assumes "a < n"
  shows "sum_list (map (\<lambda>b. count_list ((f(a := xs)) b) c) [0..<n]) + count_list (f a) c
    = sum_list (map (\<lambda>b. count_list (f b) c) [0..<n]) + count_list xs c"
proof -
  have "map (\<lambda>b. count_list ((f(a := xs)) b) c) [0..<n] = (map (\<lambda>b. count_list (f b) c) [0..<n])[a := count_list xs c]"
    using assms by (intro nth_equalityI) (auto simp: nth_list_update)
  then show ?thesis
    using sum_list_map_update [of a "map (\<lambda>b. count_list (f b) c) [0..<n]" "\<lambda>x. x" "count_list xs c"] assms by simp
qed

lemma data_sum_none:
  "n \<le> a \<Longrightarrow> map (\<lambda>b. count_list ((f(a := xs)) b) c) [0..<n] = map (\<lambda>b. count_list (f b) c) [0..<n]"
  by auto

lemma held_same:
  assumes "data_handles w' = data_handles w" and "dropping (at_phase w') = dropping (at_phase w)"
    and "length (heap (core w')) = length (heap (core w))"
  shows "held_in_data w' c = held_in_data w c"
  using assms by (simp add: held_in_data_def)

lemma held_okI:
  assumes "held_ok w" and "data_handles w' = data_handles w" and "dropping (at_phase w') = dropping (at_phase w)"
    and "length (heap (core w')) = length (heap (core w))" and "handles (core w') = handles (core w)"
  shows "held_ok w'"
  using assms(1,5) held_same [OF assms(2-4)] by (simp add: held_ok_def)

text \<open>The collector leaves alone what is in the hands of threads.\<close>

lemma collector_next_hands:
  assumes st: "collector_next i w = Next w'"
  shows "handles (core w') c + held_in_data w c = handles (core w) c + held_in_data w' c"
proof -
  have I: ?thesis if "data_handles w' = data_handles w" "dropping (at_phase w') = dropping (at_phase w)"
    "length (heap (core w')) = length (heap (core w))" "handles (core w') = handles (core w)"
    using held_same [OF that(1-3)] that(4) by simp
  show ?thesis
  proof (cases "at_phase w")
    case PInner
    show ?thesis
    proof (cases "at_cpc (core w) = CFreeing \<and> tofree (core w) \<noteq> []")
      case True
      let ?a = "hd (tofree (core w))"
      obtain s where s: "collector_step i (core w) = Next s" "core w' = s"
        "data_handles w' = (data_handles w)(?a := [])" "at_phase w' = PDrop (data_handles w ?a)"
        using st PInner True by (auto simp: collector_next_def inner_step_def bind_outcome_Next Let_def)
      obtain rest where td: "tofree (core w) = ?a # rest" using True by (cases "tofree (core w)") auto
      have a: "?a < length (heap (core w))"
        using s(1) True td obj_at_less
        by (auto simp: collector_step_def free_step_def deref_def split: if_splits option.splits list.splits)
      have len: "length (heap s) = length (heap (core w))"
        using collector_step_is_step [OF s(1)] heap_length by blast
      have "held_in_data w' c = held_in_data w c"
        using data_sum_update [OF a, of "data_handles w" "[]" c] PInner
        by (simp add: held_in_data_def s(2-4) len dropping_def)
      then show ?thesis using collector_step_frame(5) [OF s(1)] by (simp add: s(2))
    next
      case False
      then have "data_handles w' = data_handles w" "dropping (at_phase w') = []"
        "core w' = core w \<or> collector_step i (core w) = Next (core w')"
        using st PInner
        by (auto simp: collector_next_def inner_step_def bind_outcome_Next dropping_def split: if_splits)
      moreover have "length (heap s) = length (heap (core w)) \<and> handles s = handles (core w)"
        if s: "collector_step i (core w) = Next s" for s
        using collector_step_is_step [OF s] heap_length collector_step_frame(5) [OF s] by blast
      ultimately show ?thesis using PInner by (intro I) (auto simp: dropping_def)
    qed
  next
    case (PDrop cs)
    show ?thesis
    proof (cases cs)
      case Nil
      then show ?thesis using st PDrop by (intro I) (auto simp: collector_next_def drop_next_def dropping_def)
    next
      case (Cons d rest)
      then obtain s where s: "sdarc_drop d i (core w) = Next s" "core w' = s" "data_handles w' = data_handles w"
        "at_phase w' = PDrop rest"
        using st PDrop by (auto simp: collector_next_def drop_next_def bind_outcome_Next)
      have hs: "handles s = (handles (core w))(d := handles (core w) d - 1)" "handles (core w) d > 0"
        "length (heap s) = length (heap (core w))"
        using s(1) by (auto simp: sdarc_drop_def deref_def take_handle_def put_def split: if_splits option.splits)
      have "held_in_data w c = held_in_data w' c + (if c = d then 1 else 0)"
        using PDrop Cons by (simp add: held_in_data_def s hs dropping_def)
      then show ?thesis using hs(2) by (simp add: s(2) hs(1))
    qed
  qed (use st in \<open>auto simp: collector_next_def take_shard_def begin_inner_def loop_head_def after_inner_def
      notify_next_def park_def take_new_counters_to_track_def begin_iteration_def bind_outcome_Next dropping_def Let_def
      held_in_data_def split: if_splits option.splits list.splits\<close>)
qed

lemma collector_next_held:
  assumes "collector_next i w = Next w'" and "held_ok w"
  shows "held_ok w'"
  unfolding held_ok_def
proof
  fix c
  have "held_in_data w c \<le> handles (core w) c" using assms(2) by (simp add: held_ok_def)
  then show "held_in_data w' c \<le> handles (core w') c" using collector_next_hands [OF assms(1), of c] by linarith
qed

lemma thread_step_held:
  assumes r: "loop_reach w" and st: "thread_step l w = Next w'" and h: "held_ok w"
  shows "held_ok w'"
proof -
  note e = thread_cpc [OF r st]
  have "data_handles w' = data_handles w" "at_phase w' = at_phase w" by (subst e(2), simp)+
  then have same: "held_in_data w' c = held_in_data w c" for c
    using heap_length [OF e(3)] by (intro held_same) simp_all
  have "held_in_data w c \<le> handles (core w') c" for c
  proof (cases "consumed l = Some c")
    case True
    then have "held_in_data w c < handles (core w) c" using st by (simp add: thread_step_def split: if_splits)
    then show ?thesis using handles_consumed [OF e(4,3), of c] by linarith
  next
    case False
    have "held_in_data w c \<le> handles (core w) c" using h by (simp add: held_ok_def)
    then show ?thesis using handles_kept [OF e(4,3) False] by linarith
  qed
  then show ?thesis by (simp add: held_ok_def same)
qed

lemma put_held:
  assumes st: "put_into_data a c w = Next w'" and h: "held_ok w" and a: "a < length (heap (core w))"
  shows "held_ok w'"
proof -
  have w': "w' = w\<lparr>data_handles := (data_handles w)(a := data_handles w a @ [c])\<rparr>"
    and c: "held_in_data w c < handles (core w) c"
    using st by (auto simp: put_into_data_def split: if_splits)
  have "held_in_data w' e \<le> handles (core w') e" for e
  proof -
    have "held_in_data w' e = held_in_data w e + (if e = c then 1 else 0)"
      using data_sum_update [OF a, of "data_handles w" "data_handles w a @ [c]" e]
      by (simp add: w' held_in_data_def)
    moreover have "held_in_data w e \<le> handles (core w) e" using h by (simp add: held_ok_def)
    ultimately show ?thesis using c by (cases "e = c") (simp_all add: w')
  qed
  then show ?thesis by (simp add: held_ok_def)
qed

lemma take_held:
  assumes st: "take_from_data a c w = Next w'" and h: "held_ok w" and a: "a < length (heap (core w))"
  shows "held_ok w'"
proof -
  have w': "w' = w\<lparr>data_handles := (data_handles w)(a := remove1 c (data_handles w a))\<rparr>"
    using st by (auto simp: take_from_data_def split: if_splits)
  have "held_in_data w' e \<le> handles (core w') e" for e
  proof -
    have "count_list (remove1 c xs) e \<le> count_list xs e" for xs :: "addr list"
      by (induction xs) auto
    from this [of "data_handles w a"] have "held_in_data w' e \<le> held_in_data w e"
      using data_sum_update [OF a, of "data_handles w" "remove1 c (data_handles w a)" e]
      by (simp add: w' held_in_data_def)
    moreover have "held_in_data w e \<le> handles (core w) e" using h by (simp add: held_ok_def)
    ultimately show ?thesis by (simp add: w')
  qed
  then show ?thesis by (simp add: held_ok_def)
qed

lemma reachable_object:
  assumes "loop_reach w" and "reachable_by_threads (core w) a"
  shows "obj_at (core w) a \<noteq> None"
proof (cases "handles (core w) a > 0")
  case True
  then show ?thesis using handle_alive [OF loop_reach_inv(1) [OF assms(1)]] by auto
next
  case False
  then obtain t j where "guard_on (core w) t j a"
    using assms(2) by (auto simp: reachable_by_threads_def guard_on_def in_set_conv_nth)
  then show ?thesis using res_invD(4) [OF loop_reach_inv(1) [OF assms(1)], of a t j] by blast
qed

lemma reachable_alive: "loop_reach w \<Longrightarrow> reachable_by_threads (core w) a \<Longrightarrow> a < length (heap (core w))"
  using reachable_object obj_at_less by fastforce

lemma loop_step_held:
  assumes r: "loop_reach w" and st: "loop_step l w = Next w'" and h: "held_ok w"
  shows "held_ok w'"
proof (cases l)
  case (Collect i)
  then show ?thesis using collector_next_held h st by simp
next
  case (ThreadStep k)
  then show ?thesis using thread_step_held r h st by simp
next
  case (PutIntoData a c)
  then have "a < length (heap (core w))" using st reachable_alive [OF r] by (simp add: put_into_data_def split: if_splits)
  then show ?thesis using put_held h st PutIntoData by simp
next
  case (TakeFromData a c)
  then have "a < length (heap (core w))" using st reachable_alive [OF r] by (simp add: take_from_data_def split: if_splits)
  then show ?thesis using take_held h st TakeFromData by simp
next
  case DropPanics
  then obtain cs where p: "at_phase w = PDrop cs" "w' = w\<lparr>at_phase := PInner\<rparr>"
    using st by (auto simp: drop_panics_def split: phase.splits)
  have "held_in_data w' c \<le> handles (core w') c" for c
    using h [unfolded held_ok_def, rule_format, of c] by (simp add: held_in_data_def p dropping_def)
  then show ?thesis by (simp add: held_ok_def)
qed (use st in \<open>auto simp: park_times_out_def call_begin_def call_step_def dropping_def
    split: if_splits call_pc.splits intro!: held_okI [OF h]\<close>)

lemma loop_held: "loop_reach w \<Longrightarrow> held_ok w"
proof (induction rule: loop_reach.induct)
  case (loop_reach_start n addrs cs)
  then show ?case by (simp add: loop_start_def held_ok_def held_in_data_def dropping_def sum_list_zero_nat)
qed (rule loop_step_held)

end
