(* ===== verification/Waiters.thy ===== *)
theory Waiters
  imports LoopInvariants
begin

text \<open>
  What the collector thread promises to run and what it promises to those who wait for it: it never
  panics and is never stuck, a queued waiter keeps it from sleeping, and every waiter is notified
  once, by the end of the pass after the one it came in.
\<close>

section \<open>A collector that parks while a caller queues\<close>

definition parked_trace :: "loop_label list" where
  "parked_trace = replicate 11 (Collect 0) @ [CallBegin, CallStep 0, CallStep 0, CallStep 0]"

definition parked_world :: loop where
  "parked_world = after (loop_run parked_trace (loop_start 1 1 1))"

lemma parked_world_reach: "loop_reach parked_world"
proof -
  have "is_next (loop_run parked_trace (loop_start 1 1 1))" by code_simp
  then have "loop_run parked_trace (loop_start 1 1 1) = Next parked_world"
    by (cases "loop_run parked_trace (loop_start 1 1 1)") (simp_all add: parked_world_def)
  then show ?thesis by (rule collector_loop.execution_reaches [OF loop_reach_start, rotated]) simp
qed

section \<open>The collector thread goes on\<close>

lemma safe_next: "safe_outcome r \<Longrightarrow> r \<noteq> Disabled \<Longrightarrow> \<exists>s. r = Next s"
  by (cases r) auto

lemma inner_goes_on:
  assumes r: "loop_reach w" and i: "i < nshards (core w)"
  shows "\<exists>w'. inner_step i w = Next w'"
proof (cases "at_cpc (core w) = CIdle")
  case False
  then obtain s where "collector_step i (core w) = Next s"
    using collector_step_enabled [OF loop_reach_inv [OF r] _ i] by blast
  then show ?thesis using False by (auto simp: inner_step_def Let_def)
qed (simp add: inner_step_def)

lemma drop_goes_on:
  assumes r: "loop_reach w" and i: "i < nshards (core w)" and p: "at_phase w = PDrop cs"
  shows "\<exists>w'. drop_next i cs w = Next w'"
proof (cases cs)
  case Nil
  then show ?thesis by (simp add: drop_next_def)
next
  case (Cons c rest)
  have "held_in_data w c \<le> handles (core w) c" using loop_held [OF r] by (simp add: held_ok_def)
  then have c: "handles (core w) c > 0" using p Cons by (simp add: held_in_data_def dropping_def)
  then obtain x where "obj_at (core w) c = Some x" using handle_alive [OF loop_reach_inv(1) [OF r]] by blast
  then show ?thesis using c i Cons by (simp add: drop_next_def sdarc_drop_def deref_def)
qed

lemma begin_goes_on:
  assumes r: "loop_reach w" and p: "at_phase w = PBegin v"
  shows "\<exists>w'. begin_inner v w = Next w'"
proof -
  have "at_cpc (core w) = CIdle" "case v of None \<Rightarrow> True | Some l \<Rightarrow> distinct l"
    using loop_control [OF r] p by (simp_all add: control_ok_def)
  then show ?thesis
    by (cases v) (simp_all add: begin_inner_def begin_iteration_def tracked_keys_def)
qed

lemma take_goes_on:
  assumes r: "loop_reach w" and p: "at_phase w = PTake j"
  shows "\<exists>w'. take_shard j w = Next w'"
proof (cases "j < nshards (core w)")
  case True
  have "at_cpc (core w) = CIdle" using loop_control [OF r] p by (simp add: control_ok_def)
  then have "take_new_counters_to_track j (core w) \<noteq> Disabled"
    using True by (simp add: take_new_counters_to_track_def split: option.split)
  then obtain s where "take_new_counters_to_track j (core w) = Next s"
    using safe_next [OF safe_take [OF loop_reach_inv [OF r]]] by blast
  then show ?thesis using True by (simp add: take_shard_def)
qed (simp add: take_shard_def)



section \<open>The waiters\<close>

text \<open>
  C19: no wake-up is lost. When the lock is free and a waiter is queued, the collector does not sleep
  its interval out: parked, it goes on at once.
\<close>

theorem queued_waiter_wakes_collector:
  assumes "loop_reach w" and "collection_waiting w \<noteq> []" and "lock_holder w = None" and "at_phase w = PPark"
  shows "\<exists>w'. collector_next i w = Next w' \<and> at_phase w' = PTop \<and> collection_waiting w' = collection_waiting w"
proof -
  note ok = waiters_okD [OF loop_waiters [OF assms(1)]]
  have "\<not> (c < length (calls w) \<and> calls w ! c = CallUnpark)" for c using ok(4) [of c] assms(3) by auto
  then have "park_token w" using ok(5) assms(2,4) by auto
  then show ?thesis using assms(4) by (simp add: collector_next_def park_def)
qed

theorem queued_waiter_wakes_collector_witness:
  "\<exists>w'. collector_next 0 parked_world = Next w' \<and> at_phase w' = PTop \<and> collection_waiting w' = [0]"
proof -
  have "collection_waiting parked_world = [0]" "lock_holder parked_world = None" "at_phase parked_world = PPark"
    by code_simp+
  then show ?thesis using queued_waiter_wakes_collector [OF parked_world_reach, of 0] by simp
qed

text \<open>
  C21: every waiter is notified at most once, a call returns only when notified, and no call that has
  queued its sender is forgotten: it is queued, about to be notified, or notified.
\<close>

theorem waiters_notified_once:
  assumes "loop_reach w"
  shows "distinct (notified w @ to_notify w @ collection_waiting w)
    \<and> (\<forall>c<length (calls w). calls w ! c \<noteq> CallPush
         \<longleftrightarrow> c \<in> set (notified w @ to_notify w @ collection_waiting w))
    \<and> (\<forall>c<length (calls w). calls w ! c = CallDone \<longrightarrow> c \<in> set (notified w))"
  using waiters_okD(1-3) [OF loop_waiters [OF assms]] unfolding queue_def by auto

theorem waiters_notified_once_witness:
  "distinct (notified parked_world @ to_notify parked_world @ collection_waiting parked_world)"
  using waiters_notified_once [OF parked_world_reach] by simp

text \<open>Where a waiter is, \<open>d\<close> passes after it was queued.\<close>

definition served :: "nat \<Rightarrow> nat \<Rightarrow> loop \<Rightarrow> bool" where
  "served c d w \<longleftrightarrow> c \<in> set (notified w) \<or> d = 0 \<and> c \<in> set (collection_waiting w) \<or> d = 1 \<and> c \<in> set (to_notify w)"

definition passes_begun :: "loop_label \<Rightarrow> loop \<Rightarrow> nat" where
  "passes_begun l w = (case l of Collect i \<Rightarrow> if at_phase w = PTop then 1 else 0 | _ \<Rightarrow> 0)"

lemma loop_step_passes:
  "loop_step l w = Next w' \<Longrightarrow> outer_iteration_counter w' = outer_iteration_counter w + passes_begun l w"
proof (cases l)
  case (Collect i)
  assume "loop_step l w = Next w'"
  then show ?thesis using Collect
    by (cases "at_phase w") (auto simp: collector_next_def passes_begun_def loop_head_def take_shard_def begin_inner_def
        inner_step_def drop_next_def after_inner_def notify_next_def park_def bind_outcome_Next Let_def
        split: if_splits list.splits)
qed (auto simp: passes_begun_def drop_panics_def park_times_out_def call_begin_def call_step_def thread_step_def
    put_into_data_def take_from_data_def bind_outcome_Next split: if_splits call_pc.splits phase.splits)

lemma served_step:
  assumes r: "loop_reach w" and st: "loop_step l w = Next w'" and s: "served c d w"
  shows "served c (d + passes_begun l w) w'"
proof (cases l)
  case (Collect i)
  have top: "to_notify w = []" if "at_phase w = PTop" using loop_control [OF r] that by (simp add: control_ok_def)
  show ?thesis
    using st Collect s top
    by (cases "at_phase w") (auto simp: collector_next_def passes_begun_def loop_head_def take_shard_def begin_inner_def
        inner_step_def drop_next_def after_inner_def notify_next_def park_def bind_outcome_Next Let_def served_def
        split: if_splits list.splits)
qed (use st s in \<open>auto simp: passes_begun_def drop_panics_def park_times_out_def call_begin_def call_step_def
    thread_step_def put_into_data_def take_from_data_def bind_outcome_Next served_def
    split: if_splits call_pc.splits phase.splits\<close>)

lemma served_run:
  assumes "loop_reach w" and "loop_run ls w = Next w'" and "served c d w"
  shows "served c (d + (outer_iteration_counter w' - outer_iteration_counter w)) w'
    \<and> outer_iteration_counter w \<le> outer_iteration_counter w'"
  using assms
proof (induction ls arbitrary: w d)
  case (Cons l ls)
  obtain w1 where w1: "loop_step l w = Next w1" "loop_run ls w1 = Next w'"
    using Cons.prems(2) by (auto split: outcome.splits)
  have s: "served c (d + passes_begun l w) w1" by (rule served_step [OF Cons.prems(1) w1(1) Cons.prems(3)])
  note ih = Cons.IH [OF loop_reach_step [OF Cons.prems(1) w1(1)] w1(2) s]
  have eq: "d + passes_begun l w + (outer_iteration_counter w' - outer_iteration_counter w1)
      = d + (outer_iteration_counter w' - outer_iteration_counter w)"
    and le: "outer_iteration_counter w \<le> outer_iteration_counter w'"
    using loop_step_passes [OF w1(1)] ih by simp_all
  show ?case using ih le unfolding eq by blast
qed simp

text \<open>
  C20: a waiter is notified by the first pass that begins after it was queued: when that pass has
  come to the parking, or a further one has begun, the waiter has its message.
\<close>

theorem waiter_notified_by_next_pass:
  assumes "loop_reach w" and "c \<in> set (collection_waiting w)" and "loop_run ls w = Next w'"
    and "outer_iteration_counter w' \<ge> outer_iteration_counter w + 2
      \<or> outer_iteration_counter w' = outer_iteration_counter w + 1 \<and> at_phase w' = PPark"
  shows "c \<in> set (notified w')"
proof -
  have s: "served c (outer_iteration_counter w' - outer_iteration_counter w) w'"
    using served_run [OF assms(1,3), of c 0] assms(2) by (simp add: served_def)
  have "loop_reach w'" by (rule collector_loop.execution_reaches [OF assms(1,3)])
  then have "at_phase w' = PPark \<longrightarrow> to_notify w' = []" using loop_control by (simp add: control_ok_def)
  then show ?thesis using s assms(4) by (auto simp: served_def)
qed

theorem waiter_notified_by_next_pass_witness:
  "0 \<in> set (notified (after (loop_run (replicate 13 (Collect 0)) parked_world)))"
proof -
  let ?r = "loop_run (replicate 13 (Collect 0)) parked_world"
  have ok: "is_next ?r" "0 \<in> set (collection_waiting parked_world)"
    "outer_iteration_counter (after ?r) = outer_iteration_counter parked_world + 1 \<and> at_phase (after ?r) = PPark"
    by code_simp+
  obtain w' where "?r = Next w'" using ok(1) by (cases ?r) auto
  then show ?thesis
    using waiter_notified_by_next_pass [OF parked_world_reach ok(2)] ok(3) by simp
qed

end
