(* ===== verification/LoopReclaim.thy ===== *)
theory LoopReclaim
  imports Waiters
begin

text \<open>
  What the collector thread achieves for the program while everything else goes on: an object nobody
  has is freed within a bounded number of passes, and one that nobody had when a caller of
  \<open>collector_update_now_and_wait\<close> queued is freed by the time that caller is notified.
\<close>

section \<open>Executions of the loop\<close>

fun loop_sometime :: "(loop \<Rightarrow> bool) \<Rightarrow> loop_label list \<Rightarrow> loop \<Rightarrow> bool" where
  "loop_sometime P [] w = P w"
| "loop_sometime P (l # ls) w = (P w \<or> (case loop_step l w of Next w' \<Rightarrow> loop_sometime P ls w' | _ \<Rightarrow> False))"

text \<open>An invariant that holds until \<open>Q\<close> does.\<close>

lemma holds_until:
  assumes step: "\<And>w l w'. \<lbrakk>loop_reach w; loop_step l w = Next w'; I w; \<not> Q w\<rbrakk> \<Longrightarrow> Q w' \<or> I w'"
    and "loop_reach w" and "loop_run ls w = Next w'" and "I w" and "\<not> I w' \<or> Q w'"
  shows "loop_sometime Q ls w"
  using assms(2-5)
proof (induction ls arbitrary: w)
  case (Cons l ls)
  obtain w1 where w1: "loop_step l w = Next w1" "loop_run ls w1 = Next w'"
    using Cons.prems(2) by (auto split: outcome.splits)
  have q: "loop_sometime Q ls w1" if "Q w1" using that by (cases ls) simp_all
  show ?case
    using step [OF Cons.prems(1) w1(1) Cons.prems(3)] q
      Cons.IH [OF loop_reach_step [OF Cons.prems(1) w1(1)] w1(2) _ Cons.prems(4)] w1(1) by auto
qed auto

section \<open>What nobody has stays so\<close>

lemma forgotten_step:
  assumes "reach s" and "step l s = Next s'" and "forgotten s a" and "obj_at s a \<noteq> None"
  shows "forgotten s' a"
  using forgotten_collector [OF _ assms(2,3)] forgotten_thread [OF _ _ assms(2,3)] reach_invariants [OF assms(1)] assms(4)
  by blast

lemma loop_forgotten:
  assumes "loop_reach w" and "loop_step l w = Next w'" and "forgotten (core w) a" and "obj_at (core w) a \<noteq> None"
  shows "forgotten (core w') a"
  using loop_step_core [OF assms(2)] forgotten_step [OF loop_reach_core [OF assms(1)] _ assms(3,4)] assms(3) by auto

lemma pending_kept:
  assumes "\<not> is_collector l" and "step l s = Next s'" and "a \<in> set (pending s ! k)" and "k < length (pending s)"
  shows "a \<in> set (pending s' ! k)"
proof (cases "(\<exists>b i j. l = LNew b i j) \<or> (\<exists>b w i j. l = LDowngradeInit b w i j)")
  case True
  then obtain j b where "pending s' = (pending s)[j := pending s ! j @ [b]]"
    using assms(2) by (auto simp: sdarc_new_def downgrade_init_def on_new_sdarc_allocated_def deref_def put_def
        add_handle_def split: if_splits option.splits)
  then show ?thesis using assms(3,4) by (cases "k = j") auto
next
  case False
  then have "pending s' = pending s"
    using assms(1,2)
    by (cases l; simp only: step.simps is_collector.simps simp_thms;
      auto simp: memory_defs handle_defs reader_defs split: option.splits if_splits pc.splits cellref.splits)
  then show ?thesis using assms(3) by simp
qed

text \<open>The object is tracked, or still to be taken from a shard in this pass.\<close>

definition coming :: "phase \<Rightarrow> sys \<Rightarrow> addr \<Rightarrow> bool" where
  "coming p s a \<longleftrightarrow> tracked s a \<noteq> None
     \<or> (\<exists>j k. p = PTake j \<and> j \<le> k \<and> k < nshards s \<and> a \<in> set (pending s ! k))"

lemma coming_begin:
  assumes "res_inv s" and "gc_inv s" and "obj_at s a \<noteq> None"
  shows "coming (PTake 0) s a"
proof -
  have "a \<in> set (concat (pending s)) \<or> tracked s a \<noteq> None"
    using gc_invD(1) [OF assms(2)] assms(3) unfolding tracking_inv_def by blast
  then show ?thesis
    using res_invD(1) [OF assms(1)] by (auto simp: coming_def in_set_conv_nth [of _ "pending s"])
qed

lemma coming_take:
  assumes gc: "gc_inv s" and len: "length (pending s) = nshards s" and st: "take_new_counters_to_track j s = Next s'"
    and c: "coming (PTake j) s a"
  shows "coming (PTake (Suc j)) s' a"
proof -
  obtain m where m: "track_all (pending s ! j) (tracked s) = Some m" "s' = s\<lparr>tracked := m, pending := (pending s)[j := []]\<rparr>"
    using st by (auto simp: take_new_counters_to_track_def split: if_splits option.splits)
  have j: "j < nshards s" using st by (simp add: take_new_counters_to_track_def split: if_splits)
  consider (tr) "tracked s a \<noteq> None" | (now) "a \<in> set (pending s ! j)"
    | (later) k where "j < k" "k < nshards s" "a \<in> set (pending s ! k)"
    using c by (auto simp: coming_def order_le_less)
  then show ?thesis
  proof cases
    case tr
    then show ?thesis using track_all_keeps [OF m(1) tr] by (simp add: coming_def m(2))
  next
    case now
    have "pending s ! j \<in> set (pending s)" using j len by simp
    then have "\<And>b. b \<in> set (pending s ! j) \<Longrightarrow> tracked s b = None" "distinct (pending s ! j)"
      using gc_invD(1) [OF gc] by (auto simp: tracking_inv_def distinct_concat_iff)
    then have "m = (\<lambda>b. if b \<in> set (pending s ! j) then Some DefaultState else tracked s b)"
      using track_all_fresh [of "pending s ! j" "tracked s"] m(1) by simp
    then show ?thesis using now by (simp add: coming_def m(2))
  next
    case later
    then have "\<exists>j' k. PTake (Suc j) = PTake j' \<and> j' \<le> k \<and> k < nshards s' \<and> a \<in> set (pending s' ! k)"
      by (intro exI [of _ "Suc j"] exI [of _ k]) (simp add: m(2))
    then show ?thesis unfolding coming_def by blast
  qed
qed

lemma coming_thread:
  assumes "res_inv s" and "\<not> is_collector l" and "step l s = Next s'" and "coming p s a"
  shows "coming p s' a"
proof -
  have e: "effect s s'" by (rule thread_effect [OF assms(1-3)])
  have "nshards s' = nshards s" "length (pending s) = nshards s"
    using e effect_nshards res_invD(1) [OF assms(1)] by (simp_all add: effect_def)
  then show ?thesis
    using assms(4) pending_kept [OF assms(2,3), of a] gc_same_simps(1) [OF e] unfolding coming_def by metis
qed

section \<open>A bounded number of passes\<close>

lemma fading_weaken: "fading v a s \<Longrightarrow> v \<le> u \<Longrightarrow> fading u a s"
  by (auto simp: fading_def split: if_splits)

lemma due_weaken: "due (n + k) a s \<Longrightarrow> due n a s"
  using fading_weaken [of "6 - (n + k)" a s "6 - n", OF _ diff_le_mono2 [of n "n + k" 6]] by (auto simp: due_def)

lemma due_core:
  assumes "reach s" and "step l s = Next s'" and "forgotten s a" and "due n a s" and "obj_at s' a \<noteq> None"
  shows "due n a s'"
  using due_step [OF assms(1,2) _ assms(4)] assms(3,5) due_weaken by (auto simp: forgotten_def)

definition before_all :: "phase \<Rightarrow> bool" where
  "before_all p = (case p of PTake j \<Rightarrow> True | PBegin None \<Rightarrow> True | _ \<Rightarrow> False)"

text \<open>The passes that have visited the object, of \<open>d\<close> that have begun.\<close>

definition visiting_passes :: "nat \<Rightarrow> phase \<Rightarrow> nat" where
  "visiting_passes d p = (if before_all p then d - 1 else d)"

definition in_passes :: "nat \<Rightarrow> addr \<Rightarrow> loop \<Rightarrow> bool" where
  "in_passes d a w \<longleftrightarrow> obj_at (core w) a \<noteq> None \<and> forgotten (core w) a
     \<and> (d \<ge> 1 \<longrightarrow> coming (at_phase w) (core w) a)
     \<and> (visiting_passes d (at_phase w) \<ge> 1 \<longrightarrow> due (visiting_passes d (at_phase w)) a (core w))"

lemma in_passes_keep:
  assumes "in_passes d a w" and "obj_at (core w') a \<noteq> None" and "forgotten (core w') a"
    and "coming (at_phase w) (core w) a \<Longrightarrow> coming (at_phase w') (core w') a"
    and "before_all (at_phase w') = before_all (at_phase w)"
    and "\<And>n. due n a (core w) \<Longrightarrow> due n a (core w')"
  shows "in_passes d a w'"
  using assms by (auto simp: in_passes_def visiting_passes_def split: if_splits)

lemma coming_tracked: "(\<And>j. p \<noteq> PTake j) \<Longrightarrow> coming p s a \<longleftrightarrow> tracked s a \<noteq> None"
  by (simp add: coming_def)

lemma key_tracked: "obj_at s a \<noteq> None \<Longrightarrow> a \<in> set (tracked_keys s) \<longleftrightarrow> tracked s a \<noteq> None"
  by (auto simp: tracked_keys_def obj_at_def split: if_splits)

text \<open>A step of the machine outside the begin of a pass.\<close>

lemma in_passes_core:
  assumes r: "loop_reach w" and st: "step l (core w) = Next (core w')" and i: "in_passes d a w"
    and live: "obj_at (core w') a \<noteq> None" and p: "before_all (at_phase w') = before_all (at_phase w)"
    and q: "\<And>j. at_phase w \<noteq> PTake j" "\<And>j. at_phase w' \<noteq> PTake j"
  shows "in_passes d a w'"
proof (rule in_passes_keep [OF i live _ _ p])
  have f: "forgotten (core w) a" "obj_at (core w) a \<noteq> None" using i by (simp_all add: in_passes_def)
  note rc = loop_reach_core [OF r]
  show "forgotten (core w') a" by (rule forgotten_step [OF rc st f])
  show "due n a (core w')" if "due n a (core w)" for n by (rule due_core [OF rc st f(1) that live])
  show "coming (at_phase w') (core w') a" if "coming (at_phase w) (core w) a"
    using that tracked_stays [OF loop_reach_inv [OF r] _ st _ live] reach_invariants [OF reach_step [OF rc st]]
    by (simp add: coming_tracked q)
qed

lemma in_passes_step:
  assumes r: "loop_reach w" and st: "loop_step l w = Next w'" and i: "in_passes d a w"
    and live: "obj_at (core w') a \<noteq> None"
  shows "in_passes (d + passes_begun l w) a w'"
proof -
  note rc = loop_reach_core [OF r] and inv = loop_reach_inv [OF r]
  have f: "forgotten (core w) a" "obj_at (core w) a \<noteq> None" using i by (simp_all add: in_passes_def)
  have f': "forgotten (core w') a" by (rule loop_forgotten [OF r st f])
  have same: "in_passes d a w'" if "core w' = core w" "at_phase w' = at_phase w"
    using i that by (simp add: in_passes_def)
  have calm: "in_passes d a w'"
    if "core w' = core w" "before_all (at_phase w') = before_all (at_phase w)" "\<And>j. at_phase w \<noteq> PTake j" "\<And>j. at_phase w' \<noteq> PTake j"
    by (rule in_passes_keep [OF i]) (use that f in \<open>simp_all add: coming_tracked\<close>)
  show ?thesis
  proof (cases l)
    case (Collect k)
    then have cn: "collector_next k w = Next w'" using st by simp
    show ?thesis
    proof (cases "at_phase w")
      case PTop
      then have w': "core w' = core w" "at_phase w' = PTake 0" and d: "passes_begun l w = 1"
        using cn Collect by (auto simp: collector_next_def loop_head_def passes_begun_def split: if_splits)
      then show ?thesis
        using i coming_begin [OF inv f(2)] PTop
        by (simp add: in_passes_def visiting_passes_def before_all_def)
    next
      case (PTake j)
      have d: "passes_begun l w = 0" using PTake Collect by (simp add: passes_begun_def)
      show ?thesis
      proof (cases "j < nshards (core w)")
        case True
        then have w': "take_new_counters_to_track j (core w) = Next (core w')" "at_phase w' = PTake (Suc j)"
          using cn PTake by (auto simp: collector_next_def take_shard_def bind_outcome_Next)
        then have s: "step (CTake j) (core w) = Next (core w')" by simp
        have "in_passes d a w'"
        proof (rule in_passes_keep [OF i live f'])
          show "coming (at_phase w') (core w') a" if "coming (at_phase w) (core w) a"
            using coming_take [OF inv(2) _ w'(1)] that PTake w'(2) res_invD(1) [OF inv(1)] by simp
          show "due n a (core w')" if "due n a (core w)" for n by (rule due_core [OF rc s f(1) that live])
        qed (simp add: PTake w' before_all_def)
        then show ?thesis by (simp add: d)
      next
        case False
        then have w': "core w' = core w" "at_phase w' = PBegin None"
          using cn PTake by (auto simp: collector_next_def take_shard_def)
        have "in_passes d a w'"
          by (rule in_passes_keep [OF i live f'])
            (use w' False in \<open>auto simp: PTake coming_def before_all_def\<close>)
        then show ?thesis by (simp add: d)
      qed
    next
      case (PBegin v)
      have d: "passes_begun l w = 0" using PBegin Collect by (simp add: passes_begun_def)
      have w': "begin_iteration (case v of None \<Rightarrow> tracked_keys (core w) | Some l \<Rightarrow> l) (core w) = Next (core w')"
        "at_phase w' = PInner"
        using cn PBegin by (auto simp: collector_next_def begin_inner_def bind_outcome_Next)
      show ?thesis
      proof (cases v)
        case None
        have t: "tracked (core w') a = tracked (core w) a" using begin_same(2) [OF w'(1)] by simp
        have "due d a (core w')" if "d \<ge> 1"
        proof -
          have tr: "tracked (core w) a \<noteq> None" using i that PBegin None by (simp add: in_passes_def coming_def)
          then have k: "a \<in> set (tracked_keys (core w))" using key_tracked [OF f(2)] by simp
          have n: "nobody_has (core w) a" using f by (simp add: forgotten_def)
          have "due (d - 1) a (core w)"
            using i tr f that PBegin None
            by (cases "d = 1") (auto simp: in_passes_def visiting_passes_def before_all_def due_def)
          from due_begin [OF inv w'(1) n this] show ?thesis using k None that by simp
        qed
        then have "in_passes d a w'"
          using i f' live PBegin None w'(2) t
          by (simp add: in_passes_def visiting_passes_def before_all_def coming_def)
        then show ?thesis by (simp add: d)
      next
        case (Some l0)
        then have s: "step (CBegin l0) (core w) = Next (core w')" using w'(1) by simp
        have "in_passes d a w'"
          by (rule in_passes_core [OF r s i live]) (simp_all add: PBegin Some w' before_all_def)
        then show ?thesis by (simp add: d)
      qed
    next
      case PInner
      have d: "passes_begun l w = 0" using PInner Collect by (simp add: passes_begun_def)
      have p: "core w' = core w \<and> at_phase w' = PAfter
          \<or> (\<exists>s. step s (core w) = Next (core w')) \<and> (at_phase w' = PInner \<or> (\<exists>cs. at_phase w' = PDrop cs))"
        using cn PInner collector_step_is_step
        by (auto simp: collector_next_def inner_step_def bind_outcome_Next Let_def split: if_splits)
      then have "in_passes d a w'"
      proof (elim disjE conjE exE)
        fix s assume "step s (core w) = Next (core w')" "at_phase w' = PInner"
        then show ?thesis using in_passes_core [OF r _ i live] PInner by (simp add: before_all_def)
      next
        fix s cs assume "step s (core w) = Next (core w')" "at_phase w' = PDrop cs"
        then show ?thesis using in_passes_core [OF r _ i live] PInner by (simp add: before_all_def)
      qed (use calm PInner in \<open>simp add: before_all_def\<close>)
      then show ?thesis by (simp add: d)
    next
      case (PDrop cs)
      have d: "passes_begun l w = 0" using PDrop Collect by (simp add: passes_begun_def)
      have "core w' = core w \<and> at_phase w' = PInner
          \<or> (\<exists>c rest. step (LDrop c k) (core w) = Next (core w') \<and> at_phase w' = PDrop rest)"
        using cn PDrop by (auto simp: collector_next_def drop_next_def bind_outcome_Next split: list.splits)
      then have "in_passes d a w'"
      proof (elim disjE conjE exE)
        fix c rest assume s: "step (LDrop c k) (core w) = Next (core w')" and "at_phase w' = PDrop rest"
        then show ?thesis using in_passes_core [OF r s i live] PDrop by (simp add: before_all_def)
      qed (use calm PDrop in \<open>simp add: before_all_def\<close>)
      then show ?thesis by (simp add: d)
    next
      case PAfter
      have "core w' = core w \<and> (at_phase w' = PNotify \<or> (\<exists>v. at_phase w' = PBegin (Some v)))"
        using cn PAfter by (auto simp: collector_next_def after_inner_def Let_def split: if_splits)
      then have "in_passes d a w'" using calm PAfter by (auto simp: before_all_def)
      then show ?thesis using PAfter Collect by (simp add: passes_begun_def)
    next
      case PNotify
      have "core w' = core w \<and> (at_phase w' = PNotify \<or> at_phase w' = PPark)"
        using cn PNotify by (auto simp: collector_next_def notify_next_def split: list.splits)
      then have "in_passes d a w'" using calm PNotify by (auto simp: before_all_def)
      then show ?thesis using PNotify Collect by (simp add: passes_begun_def)
    next
      case PPark
      have "core w' = core w \<and> at_phase w' = PTop"
        using cn PPark by (auto simp: collector_next_def park_def split: if_splits)
      then have "in_passes d a w'" using calm PPark by (auto simp: before_all_def)
      then show ?thesis using PPark Collect by (simp add: passes_begun_def)
    qed
  next
    case (ThreadStep k)
    then have t: "thread_step k w = Next w'" using st by simp
    note e = thread_cpc [OF r t]
    have "at_phase w' = at_phase w" by (subst e(2)) simp
    then have "in_passes d a w'"
      using coming_thread [OF inv(1) e(4,3)] due_core [OF rc e(3) f(1) _ live]
      by (intro in_passes_keep [OF i live f']) simp_all
    then show ?thesis using ThreadStep by (simp add: passes_begun_def)
  next
    case DropPanics
    then obtain cs where "at_phase w = PDrop cs" "at_phase w' = PInner" "core w' = core w"
      using st by (auto simp: drop_panics_def split: phase.splits)
    then have "in_passes d a w'" using calm by (auto simp: before_all_def)
    then show ?thesis using DropPanics by (simp add: passes_begun_def)
  next
    case TimeOut
    then have "at_phase w = PPark" "at_phase w' = PTop" "core w' = core w"
      using st by (auto simp: park_times_out_def split: if_splits)
    then have "in_passes d a w'" using calm by (auto simp: before_all_def)
    then show ?thesis using TimeOut by (simp add: passes_begun_def)
  qed (use st same in \<open>auto simp: passes_begun_def call_begin_def call_step_def put_into_data_def take_from_data_def
      split: if_splits call_pc.splits\<close>)
qed

text \<open>
  C5: in the whole system, an object nobody has is freed within six passes of the collector thread,
  taken from the pending shards, visited and freed, whatever all other threads and callers do
  meanwhile.
\<close>

theorem collector_passes_free_forgotten:
  assumes "loop_reach w" and "forgotten (core w) a" and "loop_run ls w = Next w'"
    and "outer_iteration_counter w' \<ge> outer_iteration_counter w + 6"
  shows "loop_sometime (\<lambda>w. obj_at (core w) a = None) ls w"
proof -
  let ?n = "outer_iteration_counter w"
  let ?I = "\<lambda>w. ?n \<le> outer_iteration_counter w
      \<and> (obj_at (core w) a \<noteq> None \<longrightarrow> in_passes (outer_iteration_counter w - ?n) a w)"
  show ?thesis
  proof (rule holds_until [of ?I, OF _ assms(1,3)])
    show "obj_at (core w2) a = None \<or> ?I w2"
      if "loop_reach w1" "loop_step l w1 = Next w2" "?I w1" "obj_at (core w1) a \<noteq> None" for w1 l w2
    proof -
      have n: "?n \<le> outer_iteration_counter w1" using that(3) by blast
      have eq: "outer_iteration_counter w2 - ?n = outer_iteration_counter w1 - ?n + passes_begun l w1"
        using loop_step_passes [OF that(2)] n by simp
      have "obj_at (core w2) a = None \<or> in_passes (outer_iteration_counter w2 - ?n) a w2"
        unfolding eq using in_passes_step [OF that(1,2)] that(3,4) by blast
      then show ?thesis using n loop_step_passes [OF that(2)] by auto
    qed
    show "?I w" using assms(2) by (simp add: in_passes_def visiting_passes_def)
    have late: "\<not> in_passes d a w'" if "d \<ge> 6" for d
    proof -
      have "visiting_passes d (at_phase w') \<ge> 5" using that by (auto simp: visiting_passes_def)
      then show ?thesis by (auto simp: in_passes_def due_def)
    qed
    show "\<not> ?I w' \<or> obj_at (core w') a = None"
      using late [of "outer_iteration_counter w' - ?n"] assms(4) by auto
  qed
qed

section \<open>The pass that answers a waiter\<close>

text \<open>
  From here on every complete visit leaves the object re-checked, not back in the default state: it
  is untracked, or it is not left for re-checking with a tag set, or this iteration has passed it.
\<close>

definition low :: "addr \<Rightarrow> sys \<Rightarrow> bool" where
  "low a s \<longleftrightarrow> tracked s a = None \<or> at_cpc s = CIdle \<and> stage s a \<le> 4
     \<or> fading 4 a s \<or> fading 5 a s \<and> a \<notin> set (todo s) \<and> \<not> at_object (at_cpc s) a"

lemma stage_thread:
  assumes inv: "res_inv s" and st: "\<not> is_collector l" "step l s = Next s'" and n: "nobody_has s a"
    and x: "obj_at s a = Some x"
  shows "stage s' a = stage s a"
proof -
  have e: "effect s s'" by (rule thread_effect [OF inv st])
  then have he: "heap_effect s s'" by (simp add: effect_def)
  have x': "obj_at s' a = Some x"
    using unowned_object [OF st x nobody_lonely [OF n]] tokens_no_owner [of s a] n
    by (auto simp: nobody_has_def no_weak_owner_def)
  show ?thesis
    by (intro stage_cong)
      (simp_all add: gc_same_simps [OF e] effect_nshards [OF he] shards_of_def x x' back_ref_thread [OF inv he x x'])
qed

lemma low_thread:
  assumes inv: "res_inv s" and st: "\<not> is_collector l" "step l s = Next s'" and n: "nobody_has s a"
    and x: "obj_at s a = Some x" and l: "low a s"
  shows "low a s'"
  using l fading_thread [OF inv st n] stage_thread [OF inv st n x] gc_same_simps [OF thread_effect [OF inv st]]
  unfolding low_def by auto

lemma low_idle:
  assumes "low a s" and "at_cpc s = CIdle" and "todo s = []" and "tracked s a \<noteq> None"
  shows "stage s a \<le> 4"
  using assms by (auto simp: low_def fading_def)

lemma fading_begin:
  assumes inv: "res_inv s" and b: "begin_iteration visit s = Next s'" and n: "nobody_has s a"
    and live: "obj_at s a \<noteq> None" and t: "tracked s a \<noteq> None"
    and v: "if a \<in> set visit then stage s a \<le> v else stage s a < v"
  shows "fading v a s'"
proof -
  note bs = begin_same [OF b]
  have "stage s' a = stage s a" by (intro stage_cong shards_of_same back_ref_same) (simp_all add: bs)
  moreover have "unseen s' a" by (rule unseen_begin [OF inv b]) (use n in \<open>simp add: nobody_has_def\<close>)
  ultimately show ?thesis using live t v by (simp add: fading_def bs obj_at_cong [OF bs(1)])
qed

lemma low_begin:
  assumes inv: "res_inv s" and gc: "gc_inv s" and b: "begin_iteration visit s = Next s'" and n: "nobody_has s a"
    and live: "obj_at s a \<noteq> None" and l: "low a s"
  shows "low a s'"
proof (cases "tracked s a")
  case None
  then show ?thesis using begin_same(2) [OF b] by (simp add: low_def)
next
  case (Some st)
  have idle: "at_cpc s = CIdle" "todo s = []"
    using b gc_invD(9) [OF gc] by (auto simp: begin_iteration_def split: if_splits)
  then have le: "stage s a \<le> 4" using low_idle [OF l] Some by simp
  show ?thesis
  proof (cases "a \<in> set visit")
    case True
    then show ?thesis using fading_begin [OF inv b n live, of 4] le Some by (simp add: low_def)
  next
    case False
    then have "fading 5 a s'" using fading_begin [OF inv b n live, of 5] le Some by simp
    then show ?thesis using False begin_same(3,5) [OF b] by (simp add: low_def)
  qed
qed

lemma low_collector_step:
  assumes r: "reach s" and st: "collector_step i s = Next s'" and n: "nobody_has s a"
    and live: "obj_at s' a \<noteq> None" and l: "low a s"
  shows "low a s'"
proof -
  obtain k where k: "step k s = Next s'" using collector_step_is_step [OF st] by blast
  have inv: "res_inv s" "gc_inv s" using reach_invariants [OF r] by simp_all
  have inv': "res_inv s'" "gc_inv s'" using reach_invariants [OF reach_step [OF r k]] by simp_all
  have ni: "at_cpc s \<noteq> CIdle" using st by (auto simp: collector_step_def)
  note f = fading_step [OF st inv inv'(1) n]
  show ?thesis
  proof (cases "tracked s a")
    case None
    have "obj_at s a \<noteq> None"
      using pointers_keptD(3) [OF pointers_kept_step [OF st], of a] live by (cases "obj_at s a") auto
    then have "a \<in> set (concat (pending s'))"
      using gc_invD(1) [OF inv(2)] None collector_step_frame(3) [OF st] unfolding tracking_inv_def by simp
    then have "tracked s' a = None" using gc_invD(1) [OF inv'(2)] unfolding tracking_inv_def by blast
    then show ?thesis by (simp add: low_def)
  next
    case (Some t)
    with l ni consider "fading 4 a s" | "fading 5 a s" "a \<notin> set (todo s)" "\<not> at_object (at_cpc s) a"
      by (auto simp: low_def)
    then show ?thesis
    proof cases
      case 1
      then show ?thesis using f live by (auto simp: low_def)
    next
      case 2
      have v: "todo s = [] \<or> hd (todo s) \<noteq> a" using 2(2) by (cases "todo s") auto
      have fr: "tofree s = [] \<or> hd (tofree s) \<noteq> a" if "at_cpc s = CFreeing"
      proof (rule ccontr)
        assume "\<not> ?thesis"
        then obtain rest where td: "tofree s = a # rest" by (cases "tofree s") auto
        have "tokens s a = 0" using n by (simp add: nobody_has_def)
        then show False using free_head [OF st that td tokens_no_owner] live by simp
      qed
      show ?thesis using f [OF 2(1)] elsewhere_step [OF st 2(3) v fr] 2(2) live by (auto simp: low_def)
    qed
  qed
qed

lemma low_take:
  assumes gc: "gc_inv s" and st: "take_new_counters_to_track j s = Next s'" and l: "low a s"
  shows "low a s'"
proof -
  obtain m where m: "track_all (pending s ! j) (tracked s) = Some m" "s' = s\<lparr>tracked := m, pending := (pending s)[j := []]\<rparr>"
    and c: "at_cpc s = CIdle"
    using st by (auto simp: take_new_counters_to_track_def split: if_splits option.splits)
  have td: "todo s = []" using gc_invD(9) [OF gc] c by simp
  show ?thesis
  proof (cases "tracked s a")
    case None
    have "track_all as f = Some g \<Longrightarrow> f a \<in> {None, Some DefaultState} \<Longrightarrow> g a \<in> {None, Some DefaultState}" for as f g
      by (induction as arbitrary: f) (auto split: if_splits)
    from this [OF m(1)] have "m a \<in> {None, Some DefaultState}" using None by simp
    then show ?thesis by (auto simp: low_def m(2) c stage_def)
  next
    case (Some t)
    have "m a = tracked s a" using track_all_keeps [OF m(1)] Some by simp
    then have "stage s' a = stage s a"
      by (intro stage_cong shards_of_same back_ref_same) (simp_all add: m(2))
    then show ?thesis using low_idle [OF l c td] Some by (simp add: low_def m(2) c)
  qed
qed

lemma low_step:
  assumes r: "reach s" and st: "step k s = Next s'" and n: "nobody_has s a"
    and live: "obj_at s a \<noteq> None" "obj_at s' a \<noteq> None" and l: "low a s"
  shows "low a s'"
proof (cases "is_collector k")
  case False
  obtain x where "obj_at s a = Some x" using live by auto
  then show ?thesis using low_thread [OF _ False st n _ l] reach_invariants [OF r] by blast
next
  case True
  from collector_label [OF True st] show ?thesis
  proof (elim disjE exE)
    fix j assume "k = CTake j"
    then show ?thesis using low_take [of s j s' a] l reach_invariants [OF r] st by simp
  next
    fix visit assume "k = CBegin visit"
    then show ?thesis using low_begin [OF _ _ _ n live(1) l] reach_invariants [OF r] st by simp
  next
    fix i assume "collector_step i s = Next s'"
    then show ?thesis by (rule low_collector_step [OF r _ n live(2) l])
  qed
qed

text \<open>An object visited in this iteration and left for re-checking is in the set for the next one.\<close>

definition noted :: "addr \<Rightarrow> sys \<Rightarrow> addr list \<Rightarrow> bool" where
  "noted a s l \<longleftrightarrow> (tracked s a = Some RequiresReChecking \<and> a \<notin> set (todo s) \<and> \<not> at_object (at_cpc s) a
     \<longrightarrow> a \<in> set l)"

definition in_deep_pass :: "addr \<Rightarrow> loop \<Rightarrow> bool" where
  "in_deep_pass a w =
     (case at_phase w of
        PTake j \<Rightarrow> coming (PTake j) (core w) a \<and> low a (core w)
      | PBegin None \<Rightarrow> tracked (core w) a \<noteq> None \<and> low a (core w)
      | PBegin (Some l) \<Rightarrow> tracked (core w) a \<noteq> None \<and> a \<in> set l \<and> stage (core w) a \<le> 4
      | PInner \<Rightarrow> fading 4 a (core w) \<and> noted a (core w) (new_to_recheck w)
      | PDrop cs \<Rightarrow> fading 4 a (core w) \<and> noted a (core w) (new_to_recheck w)
      | PAfter \<Rightarrow> fading 4 a (core w) \<and> noted a (core w) (new_to_recheck w)
      | _ \<Rightarrow> False)"

lemma note_recheck_mono: "set l \<subseteq> set (note_recheck s s' l)"
  by (auto simp: note_recheck_def set_insort_insert split: cpc.split)

lemma noted_step:
  assumes st: "collector_step i s = Next s'" and d: "noted a s l"
    and l': "set l \<subseteq> set l'" "set (note_recheck s s' l) \<subseteq> set l' \<or> at_cpc s = CFreeing"
  shows "noted a s' l'"
proof -
  consider (other) "\<not> at_object (at_cpc s) a" "at_cpc s = CVisit \<Longrightarrow> todo s = [] \<or> hd (todo s) \<noteq> a"
      "at_cpc s = CFreeing \<Longrightarrow> tofree s = [] \<or> hd (tofree s) \<noteq> a"
    | (visit) rest where "at_cpc s = CVisit" "todo s = a # rest"
    | (freed) rest where "at_cpc s = CFreeing" "tofree s = a # rest"
    | (at) "at_object (at_cpc s) a"
    by (cases "at_cpc s"; cases "todo s"; cases "tofree s") auto
  then show ?thesis
  proof cases
    case other
    then show ?thesis using elsewhere_step [OF st other] d l'(1) by (auto simp: noted_def)
  next
    case visit
    then show ?thesis
      using st by (auto simp: collector_step_def visit_next_def noted_def set_state_def split: option.splits tstate.splits if_splits)
  next
    case freed
    then show ?thesis
      using st by (auto simp: collector_step_def free_step_def drop_weak_inner_ref_def deref_def put_def noted_def
          split: option.splits if_splits)
  next
    case at
    have nf: "at_cpc s \<noteq> CFreeing" using at by auto
    have "tracked s' a = Some RequiresReChecking \<Longrightarrow> \<not> at_object (at_cpc s') a \<Longrightarrow> a \<in> set (note_recheck s s' l)"
    proof (cases "at_cpc s")
      case (CRelax b k acc)
      then show "tracked s' a = Some RequiresReChecking \<Longrightarrow> \<not> at_object (at_cpc s') a \<Longrightarrow> a \<in> set (note_recheck s s' l)"
        using st at by (auto simp: collector_step_def read_relaxed_step_def deref_def set_state_def split: if_splits option.splits)
    next
      case (CClear b k acc)
      then show "tracked s' a = Some RequiresReChecking \<Longrightarrow> \<not> at_object (at_cpc s') a \<Longrightarrow> a \<in> set (note_recheck s s' l)"
        using st at
        by (auto simp: collector_step_def clear_tags_step_def deref_def set_state_def put_def note_recheck_def
            set_insort_insert split: if_splits option.splits)
    next
      case (CCheck b k acc)
      then show "tracked s' a = Some RequiresReChecking \<Longrightarrow> \<not> at_object (at_cpc s') a \<Longrightarrow> a \<in> set (note_recheck s s' l)"
        using st at by (auto simp: collector_step_def check_step_def deref_def set_state_def split: if_splits option.splits)
    next
      case (CWeak b)
      then show "tracked s' a = Some RequiresReChecking \<Longrightarrow> \<not> at_object (at_cpc s') a \<Longrightarrow> a \<in> set (note_recheck s s' l)"
        using st at by (auto simp: note_recheck_def set_insort_insert)
    qed (use at in auto)
    then show ?thesis using l'(2) nf by (auto simp: noted_def)
  qed
qed

definition awaited :: "nat \<Rightarrow> addr \<Rightarrow> loop \<Rightarrow> bool" where
  "awaited c a w \<longleftrightarrow> obj_at (core w) a \<noteq> None \<and> forgotten (core w) a
     \<and> (c \<in> set (collection_waiting w) \<and> low a (core w) \<or> c \<in> set (to_notify w) \<and> in_deep_pass a w)"

text \<open>The pass gave up at its limit of inner iterations.\<close>

definition at_limit :: "loop \<Rightarrow> bool" where
  "at_limit w \<longleftrightarrow> at_phase w = PNotify \<and> loop_counter w = RECHECK_LIMIT"

lemma deep_collect:
  assumes r: "loop_reach w" and cn: "collector_next i w = Next w'" and live: "obj_at (core w) a \<noteq> None"
    and n: "nobody_has (core w) a" and p: "in_deep_pass a w" and c: "to_notify w \<noteq> []"
    and live': "obj_at (core w') a \<noteq> None" and q: "\<not> at_limit w'"
  shows "in_deep_pass a w'"
proof -
  note rc = loop_reach_core [OF r] and inv = loop_reach_inv [OF r]
  show ?thesis
  proof (cases "at_phase w")
    case (PTake j)
    have pre: "coming (PTake j) (core w) a" "low a (core w)" using p PTake by (simp_all add: in_deep_pass_def)
    show ?thesis
    proof (cases "j < nshards (core w)")
      case True
      then have w': "take_new_counters_to_track j (core w) = Next (core w')" "at_phase w' = PTake (Suc j)"
        using cn PTake by (auto simp: collector_next_def take_shard_def bind_outcome_Next)
      then show ?thesis
        using coming_take [OF inv(2) _ w'(1) pre(1)] low_take [OF inv(2) w'(1) pre(2)] res_invD(1) [OF inv(1)]
        by (simp add: in_deep_pass_def)
    next
      case False
      then have "core w' = core w" "at_phase w' = PBegin None"
        using cn PTake by (auto simp: collector_next_def take_shard_def)
      then show ?thesis using pre False by (auto simp: in_deep_pass_def coming_def)
    qed
  next
    case (PBegin v)
    let ?v = "case v of None \<Rightarrow> tracked_keys (core w) | Some l \<Rightarrow> l"
    have w': "begin_iteration ?v (core w) = Next (core w')" "at_phase w' = PInner"
      using cn PBegin by (auto simp: collector_next_def begin_inner_def bind_outcome_Next)
    have idle: "at_cpc (core w) = CIdle" "todo (core w) = []"
      using w'(1) gc_invD(9) [OF inv(2)] by (auto simp: begin_iteration_def split: if_splits)
    have pre: "tracked (core w) a \<noteq> None" "a \<in> set ?v" "stage (core w) a \<le> 4"
      using p PBegin key_tracked [OF live] low_idle [OF _ idle] by (auto simp: in_deep_pass_def split: option.splits)
    have "fading 4 a (core w')" using fading_begin [OF inv(1) w'(1) n live pre(1)] pre(2,3) by simp
    moreover have "a \<in> set (todo (core w'))" using begin_same(3) [OF w'(1)] pre(2) by simp
    ultimately show ?thesis by (simp add: in_deep_pass_def w'(2) noted_def)
  next
    case PInner
    have pre: "fading 4 a (core w)" "noted a (core w) (new_to_recheck w)" using p PInner by (simp_all add: in_deep_pass_def)
    show ?thesis
    proof (cases "at_cpc (core w) = CIdle")
      case True
      then have "w' = w\<lparr>at_phase := PAfter\<rparr>" using cn PInner by (simp add: collector_next_def inner_step_def)
      then show ?thesis using pre by (simp add: in_deep_pass_def)
    next
      case False
      then have st: "collector_step i (core w) = Next (core w')" and ph: "at_phase w' = PInner \<or> (\<exists>cs. at_phase w' = PDrop cs)"
        and nr: "new_to_recheck w' = note_recheck (core w) (core w') (new_to_recheck w)
          \<or> new_to_recheck w' = new_to_recheck w \<and> at_cpc (core w) = CFreeing"
        using cn PInner by (auto simp: collector_next_def inner_step_def bind_outcome_Next Let_def split: if_splits)
      obtain k where "step k (core w) = Next (core w')" using collector_step_is_step [OF st] by blast
      then have "res_inv (core w')" using reach_invariants reach_step [OF rc] by blast
      then have "fading 4 a (core w')" using fading_step [OF st inv _ n pre(1)] live' by blast
      moreover have "noted a (core w') (new_to_recheck w')"
        by (rule noted_step [OF st pre(2)])
          (use nr note_recheck_mono [of "new_to_recheck w" "core w" "core w'"] in auto)
      ultimately show ?thesis using ph by (auto simp: in_deep_pass_def)
    qed
  next
    case (PDrop cs)
    have pre: "fading 4 a (core w)" "noted a (core w) (new_to_recheck w)" using p PDrop by (simp_all add: in_deep_pass_def)
    show ?thesis
    proof (cases cs)
      case Nil
      then have "w' = w\<lparr>at_phase := PInner\<rparr>" using cn PDrop by (simp add: collector_next_def drop_next_def)
      then show ?thesis using pre by (simp add: in_deep_pass_def)
    next
      case (Cons e rest)
      then have w': "step (LDrop e i) (core w) = Next (core w')" "at_phase w' = PDrop rest" "new_to_recheck w' = new_to_recheck w"
        using cn PDrop by (auto simp: collector_next_def drop_next_def bind_outcome_Next)
      have d: "\<not> is_collector (LDrop e i)" by simp
      have "fading 4 a (core w')" by (rule fading_thread [OF inv(1) d w'(1) n pre(1)])
      moreover have "noted a (core w') (new_to_recheck w')"
        using pre(2) gc_same_simps [OF thread_effect [OF inv(1) d w'(1)]] by (simp add: noted_def w'(3))
      ultimately show ?thesis by (simp add: in_deep_pass_def w'(2))
    qed
  next
    case PAfter
    have pre: "fading 4 a (core w)" "noted a (core w) (new_to_recheck w)" using p PAfter by (simp_all add: in_deep_pass_def)
    have idle: "at_cpc (core w) = CIdle" using loop_control [OF r] PAfter by (simp add: control_ok_def)
    then have td: "todo (core w) = []" "tofree (core w) = []" using gc_invD(9) [OF inv(2)] by simp_all
    then have sg: "stage (core w) a < 4" "tracked (core w) a \<noteq> None" using pre(1) idle by (simp_all add: fading_def)
    have "tracked (core w) a \<noteq> Some ReadyToFree" using gc_invD(4) [OF inv(2)] td by simp
    then have "tracked (core w) a = Some RequiresReChecking"
      using sg by (auto simp: stage_def split: option.splits tstate.splits)
    then have a: "a \<in> set (set_extend (counters_to_recheck w) (new_to_recheck w))"
      using pre(2) td idle by (simp add: noted_def set_set_extend)
    then have "set_extend (counters_to_recheck w) (new_to_recheck w) \<noteq> []" by auto
    then have "w' = (w\<lparr>counters_to_recheck := []\<rparr>)\<lparr>at_phase := PBegin (Some (set_extend (counters_to_recheck w) (new_to_recheck w))),
        loop_counter := loop_counter w + 1\<rparr>"
      using cn PAfter c q by (auto simp: collector_next_def after_inner_def Let_def at_limit_def split: if_splits)
    then show ?thesis using a sg by (simp add: in_deep_pass_def)
  qed (use p in \<open>simp_all add: in_deep_pass_def\<close>)
qed

lemma deep_thread:
  assumes r: "loop_reach w" and st: "thread_step l w = Next w'" and live: "obj_at (core w) a \<noteq> None"
    and n: "nobody_has (core w) a" and p: "in_deep_pass a w"
  shows "in_deep_pass a w'"
proof -
  note e = thread_cpc [OF r st] and inv = loop_reach_inv [OF r]
  note same = gc_same_simps [OF e(1)]
  obtain x where x: "obj_at (core w) a = Some x" using live by auto
  have w': "at_phase w' = at_phase w" "new_to_recheck w' = new_to_recheck w" by (subst e(2), simp)+
  have "noted a (core w') l = noted a (core w) l" for l by (simp add: noted_def same)
  then show ?thesis
    using p coming_thread [OF inv(1) e(4,3)] low_thread [OF inv(1) e(4,3) n x] stage_thread [OF inv(1) e(4,3) n x]
      fading_thread [OF inv(1) e(4,3) n]
    by (auto simp: in_deep_pass_def w' same split: phase.splits option.splits)
qed

lemma awaited_same:
  assumes "awaited c a w" and "core w' = core w" and "at_phase w' = at_phase w" and "to_notify w' = to_notify w"
    and "new_to_recheck w' = new_to_recheck w" and "set (collection_waiting w) \<subseteq> set (collection_waiting w')"
  shows "c \<in> set (collection_waiting w') \<and> low a (core w') \<or> c \<in> set (to_notify w') \<and> in_deep_pass a w'"
proof -
  have "in_deep_pass a w' = in_deep_pass a w" unfolding in_deep_pass_def assms(2,3,5) ..
  then show ?thesis using assms(1,2,4,6) by (auto simp: awaited_def)
qed

lemma awaited_step:
  assumes r: "loop_reach w" and st: "loop_step l w = Next w'" and aw: "awaited c a w"
  shows "obj_at (core w') a = None \<or> at_limit w' \<or> awaited c a w'"
proof (cases "obj_at (core w') a = None \<or> at_limit w'")
  case False
  then have live': "obj_at (core w') a \<noteq> None" and q: "\<not> at_limit w'" by simp_all
  note rc = loop_reach_core [OF r] and inv = loop_reach_inv [OF r]
  have live: "obj_at (core w) a \<noteq> None" and f: "forgotten (core w) a" using aw by (simp_all add: awaited_def)
  have n: "nobody_has (core w) a" using f by (simp add: forgotten_def)
  have f': "forgotten (core w') a" by (rule loop_forgotten [OF r st f live])
  have low: "low a (core w')" if "low a (core w)"
    using loop_step_core [OF st] low_step [OF rc _ n live live' that] that by auto
  have "c \<in> set (collection_waiting w') \<and> low a (core w') \<or> c \<in> set (to_notify w') \<and> in_deep_pass a w'"
  proof (cases l)
    case (Collect i)
    then have cn: "collector_next i w = Next w'" using st by simp
    from aw consider (wait) "c \<in> set (collection_waiting w)" "low a (core w)"
      | (deep) "c \<in> set (to_notify w)" "in_deep_pass a w"
      by (auto simp: awaited_def)
    then show ?thesis
    proof cases
      case wait
      show ?thesis
      proof (cases "at_phase w = PTop")
        case True
        then have "core w' = core w" "at_phase w' = PTake 0" "to_notify w' = collection_waiting w"
          using cn by (auto simp: collector_next_def loop_head_def split: if_splits)
        then show ?thesis
          using wait coming_begin [OF inv live] by (simp add: in_deep_pass_def)
      next
        case False
        then have "collection_waiting w' = collection_waiting w"
          using cn by (auto simp: collector_next_def take_shard_def begin_inner_def inner_step_def drop_next_def
              after_inner_def notify_next_def park_def bind_outcome_Next Let_def split: phase.splits if_splits list.splits)
        then show ?thesis using wait low by simp
      qed
    next
      case deep
      then have "to_notify w' = to_notify w"
        using cn by (auto simp: in_deep_pass_def collector_next_def take_shard_def begin_inner_def inner_step_def
            drop_next_def after_inner_def bind_outcome_Next Let_def split: phase.splits if_splits list.splits)
      moreover have "to_notify w \<noteq> []" using deep(1) by auto
      ultimately show ?thesis using deep deep_collect [OF r cn live n deep(2) _ live' q] by simp
    qed
  next
    case (ThreadStep k)
    then have t: "thread_step k w = Next w'" using st by simp
    have "collection_waiting w' = collection_waiting w" "to_notify w' = to_notify w"
      by (subst thread_cpc(2) [OF r t], simp)+
    then show ?thesis using aw low deep_thread [OF r t live n] by (auto simp: awaited_def)
  next
    case DropPanics
    then obtain cs where "at_phase w = PDrop cs" "w' = w\<lparr>at_phase := PInner\<rparr>"
      using st by (auto simp: drop_panics_def split: phase.splits)
    then show ?thesis using aw by (auto simp: awaited_def in_deep_pass_def)
  next
    case TimeOut
    then have "at_phase w = PPark" "w' = w\<lparr>park_token := False, at_phase := PTop\<rparr>"
      using st by (auto simp: park_times_out_def split: if_splits)
    then show ?thesis using aw by (auto simp: awaited_def in_deep_pass_def)
  next
    case CallBegin
    then show ?thesis using st by (intro awaited_same [OF aw]) (auto simp: call_begin_def)
  next
    case (CallStep e)
    then show ?thesis using st
      by (intro awaited_same [OF aw]) (auto simp: call_step_def split: if_splits call_pc.splits)
  next
    case (PutIntoData b e)
    then show ?thesis using st by (intro awaited_same [OF aw]) (auto simp: put_into_data_def split: if_splits)
  next
    case (TakeFromData b e)
    then show ?thesis using st by (intro awaited_same [OF aw]) (auto simp: take_from_data_def split: if_splits)
  qed
  then show ?thesis using live' f' by (simp add: awaited_def)
qed blast


section \<open>Concrete executions\<close>

text \<open>
  Object 0 holds object 1 in its data and is dropped; object 2 is in use. A caller queues. The pass
  that answers it frees object 0, drops and frees object 1, while object 2 is cloned and dropped.
\<close>

definition garbage_trace :: "loop_label list" where
  "garbage_trace = map ThreadStep [LNew 0 0 0, LNew 1 0 0, LNew 2 0 0]
     @ [PutIntoData 0 1, ThreadStep (LDrop 0 0), CallBegin, CallStep 0]"

definition answering_trace :: "loop_label list" where
  "answering_trace = [CallStep 0, CallStep 0] @ replicate 16 (Collect 0) @ [ThreadStep (LClone 2 0)]
     @ replicate 10 (Collect 0) @ [ThreadStep (LDrop 2 0)] @ replicate 36 (Collect 0)"

definition later_passes :: "loop_label list" where
  "later_passes = concat (replicate 5 (TimeOut # replicate 14 (Collect 0)))"

lemma garbage_world:
  fixes w :: loop
  assumes "w = after (loop_run garbage_trace (loop_start 1 3 1))"
  shows "loop_reach w" "forgotten (core w) 0"
proof -
  have ok: "is_next (loop_run garbage_trace (loop_start 1 3 1))" by code_simp
  then have "loop_run garbage_trace (loop_start 1 3 1) = Next w"
    by (cases "loop_run garbage_trace (loop_start 1 3 1)") (simp_all add: assms)
  then show "loop_reach w" by (rule collector_loop.execution_reaches [OF loop_reach_start, rotated]) simp
  have z: "tokens (core w) 0 = 0" "thrs (core w) = []"
    "map (\<lambda>x. map_option back_ref x) (heap (core w)) = [Some None, Some None, Some None]"
    unfolding assms by code_simp+
  have "back_ref y \<noteq> Some 0" if y: "obj_at (core w) v = Some y" for v y
  proof -
    have "Some (back_ref y) \<in> set (map (\<lambda>x. map_option back_ref x) (heap (core w)))"
      using heap_obj_at [OF y] nth_mem [OF obj_at_less [OF y]] by force
    then show ?thesis unfolding z(3) by auto
  qed
  then show "forgotten (core w) 0" using z by (simp add: forgotten_def nobody_has_def no_thread_has_def)
qed


theorem collector_passes_free_forgotten_witness:
  "loop_sometime (\<lambda>w. obj_at (core w) 0 = None) (answering_trace @ later_passes)
     (after (loop_run garbage_trace (loop_start 1 3 1)))"
proof -
  let ?w = "after (loop_run garbage_trace (loop_start 1 3 1))" and ?ls = "answering_trace @ later_passes"
  have ok: "is_next (loop_run ?ls ?w)" "outer_iteration_counter ?w + 6 \<le> outer_iteration_counter (after (loop_run ?ls ?w))"
    by code_simp+
  obtain w' where "loop_run ?ls ?w = Next w'" using ok(1) by (cases "loop_run ?ls ?w") auto
  then show ?thesis
    using collector_passes_free_forgotten [OF garbage_world [OF refl]] ok(2) by simp
qed

end
