(* ===== verification/SealedObjects.thy ===== *)
theory SealedObjects
  imports LoopReclaim
begin

text \<open>
  Structures of objects the program has lost. A set of objects is sealed when every reference to one
  of them comes from within the set, by a handle in data or by a weak reference, or is being dropped
  by the collector. What the program can still reach is \<open>accessible\<close>; the borrow checker lets a
  thread borrow nothing else, so the objects that are not accessible are sealed and stay so until
  the collector frees them.
\<close>

section \<open>What a step of a thread borrows\<close>

fun borrows :: "label \<Rightarrow> sys \<Rightarrow> addr list" where
  "borrows (LClone a i) s = [a]"
| "borrows (LDrop a i) s = [a]"
| "borrows (LDeref a) s = [a]"
| "borrows (LDowngradeInit a w i j) s = [a]"
| "borrows (LDowngradeClone a i) s = [a]"
| "borrows (LSwap c p) s = (case p of None \<Rightarrow> [] | Some a \<Rightarrow> [a])"
| "borrows (LCompareAndSet c m p i) s =
     (case m of None \<Rightarrow> [] | Some a \<Rightarrow> [a]) @ (case p of None \<Rightarrow> [] | Some a \<Rightarrow> [a])"
| "borrows l s = (case reads l s of Some (BackRef w) \<Rightarrow> [w] | _ \<Rightarrow> [])"

section \<open>Closed sets\<close>

text \<open>Live objects without atomic pointer or thread, to which weak references lead only from within.\<close>

definition closed :: "sys \<Rightarrow> addr set \<Rightarrow> bool" where
  "closed s G \<longleftrightarrow> (\<forall>a\<in>G. obj_at s a \<noteq> None \<and> Some a \<notin> set (cells s) \<and> no_thread_has s a)
     \<and> (\<forall>c y a. obj_at s c = Some y \<longrightarrow> a \<in> G \<longrightarrow> weak_ref y = Some a \<or> back_ref y = Some a \<longrightarrow> c \<in> G)"

lemma closedD:
  assumes "closed s G"
  shows "a \<in> G \<Longrightarrow> obj_at s a \<noteq> None" "a \<in> G \<Longrightarrow> Some a \<notin> set (cells s)" "a \<in> G \<Longrightarrow> no_thread_has s a"
    "\<lbrakk>a \<in> G; obj_at s c = Some y; weak_ref y = Some a\<rbrakk> \<Longrightarrow> c \<in> G"
    "\<lbrakk>a \<in> G; obj_at s c = Some y; back_ref y = Some a\<rbrakk> \<Longrightarrow> c \<in> G"
  using assms unfolding closed_def by blast+

lemma closed_object:
  assumes "\<not> is_collector l" and "step l s = Next s'" and c: "closed s G" and "set (borrows l s) \<inter> G = {}" and b: "b \<in> G"
  shows "obj_at s' b = obj_at s b"
proof -
  note nt = closedD(3) [OF c b]
  obtain x where "obj_at s b = Some x" using closedD(1) [OF c b] by auto
  then have x: "heap s ! b = Some x" "b < length (heap s)" "obj_at s b = Some x" using heap_obj_at obj_at_less by auto
  show ?thesis
  proof (cases l)
    case (LDowngradeClone a i)
    have "weak_ref y \<noteq> Some b" if "obj_at s a = Some y" for y
      using closedD(4) [OF c b that] assms(4) LDowngradeClone by auto
    then show ?thesis using assms(2,4) LDowngradeClone b x
      by (auto simp: downgrade_clone_def deref_def put_def add_handle_def obj_at_def nth_list_update
          split: option.splits if_splits)
  next
    case (LLoadInc t i)
    then show ?thesis using assms(2) no_thread_nth [OF nt, of t] x
      by (auto simp: memory_defs load_increment_def obj_at_def nth_list_update split: pc.splits if_splits option.splits)
  next
    case (LGuardClone t j i)
    then show ?thesis using assms(2) no_thread_nth [OF nt, of t j] x
      by (auto simp: memory_defs guard_clone_def obj_at_def nth_list_update split: if_splits option.splits)
  next
    case (LCompareAndSet cc m p i)
    have "p \<noteq> Some b" using assms(4) LCompareAndSet b by auto
    then show ?thesis using assms(2) LCompareAndSet x
      by (auto simp: memory_defs compare_and_set_def cas_increment_def cas_exchange_def obj_at_def nth_list_update
          split: option.splits if_splits)
  qed (use assms(1,2,4) b x in \<open>simp_all only: step.simps is_collector.simps simp_thms borrows.simps,
    auto simp: memory_defs handle_defs reader_defs obj_at_def nth_list_update
        split: option.splits if_splits pc.splits cellref.splits\<close>)
qed

lemma closed_handles:
  assumes "\<not> is_collector l" and "step l s = Next s'" and c: "closed s G" and "set (borrows l s) \<inter> G = {}" and b: "b \<in> G"
  shows "handles s' b = handles s b \<and> Some b \<notin> set (cells s')"
proof -
  note nt = closedD(3) [OF c b] and h = closedD(2) [OF c b]
  have x: "heap s ! b \<noteq> None" using closedD(1) [OF c b] by (auto simp: obj_at_def split: if_splits)
  have cell: "cells s ! k \<noteq> Some b" if "k < length (cells s)" for k using h that by (metis nth_mem)
  have up: "q = Some b" if "Some b \<in> set ((cells s)[k := q])" for k q
    using set_update_subset_insert [of "cells s" k q] that h by auto
  show ?thesis
  proof (cases l)
    case (LDowngradeClone a i)
    have "weak_ref y \<noteq> Some b" if "obj_at s a = Some y" for y
      using closedD(4) [OF c b that] assms(4) LDowngradeClone by auto
    then show ?thesis using assms(2) LDowngradeClone h
      by (auto simp: downgrade_clone_def deref_def put_def add_handle_def split: option.splits if_splits)
  next
    case (LGuardClone t j i)
    then show ?thesis using assms(2) no_thread_nth [OF nt, of t j] h
      by (auto simp: memory_defs guard_clone_def split: if_splits option.splits)
  next
    case (LLoadExit t)
    then show ?thesis using assms(2) no_thread_nth [OF nt, of t] h
      by (auto simp: memory_defs reader_critical_section_exit_def split: if_splits option.splits pc.splits)
  next
    case (LSwap k p)
    have "p \<noteq> Some b" using assms(4) LSwap b by auto
    then show ?thesis using assms(2) LSwap h cell [of k]
      by (auto simp: memory_defs ptr_swap_def split: if_splits option.splits dest!: up)
  next
    case (LCompareAndSet k m p i)
    have "p \<noteq> Some b" "m \<noteq> Some b" using assms(4) LCompareAndSet b by auto
    then show ?thesis using assms(2) LCompareAndSet h
      by (auto simp: memory_defs compare_and_set_def cas_increment_def cas_exchange_def
          split: if_splits option.splits dest!: up)
  qed (use assms(1,2,4) h b x in \<open>simp_all only: step.simps is_collector.simps simp_thms borrows.simps,
    auto simp: memory_defs handle_defs reader_defs
        split: option.splits if_splits pc.splits cellref.splits\<close>)
qed

lemma closed_no_thread:
  assumes "\<not> is_collector l" and "step l s = Next s'" and c: "closed s G" and "set (borrows l s) \<inter> G = {}" and b: "b \<in> G"
  shows "no_thread_has s' b"
proof (rule unread_no_thread [OF assms(1,2) closedD(3) [OF c b]])
  fix r k assume r: "reads l s = Some r" "read_ptr s r k = Next s'"
  show "\<exists>p. k p = Next s' \<and> p \<noteq> Some b"
  proof (cases r)
    case (Cell i)
    then show ?thesis using r(2) closedD(2) [OF c b] by (auto simp: read_ptr_def split: if_splits) (metis nth_mem)
  next
    case (BackRef v)
    have "v \<in> set (borrows l s)" using r(1) BackRef by (cases l) simp_all
    then have v: "v \<notin> G" using assms(4) by blast
    obtain y where "obj_at s v = Some y" "k (back_ref y) = Next s'"
      using r(2) BackRef by (auto simp: read_ptr_def deref_def split: if_splits option.splits)
    then show ?thesis using closedD(5) [OF c b, of v y] v by blast
  qed
qed

lemma closed_thread:
  assumes inv: "res_inv s" and st: "\<not> is_collector l" "step l s = Next s'" and c: "closed s G"
    and bo: "set (borrows l s) \<inter> G = {}"
  shows "closed s' G"
proof -
  note same = closed_object [OF st c bo] and e = thread_effect [OF inv st]
  have he: "heap_effect s s'" using e by (simp add: effect_def)
  have "d \<in> G" if y: "obj_at s' d = Some y" and a: "a \<in> G" and p: "weak_ref y = Some a \<or> back_ref y = Some a" for d y a
  proof (cases "obj_at s d")
    case None
    then have "new_ok s' d y" using he y unfolding heap_effect_def by (metis option.simps(5))
    then have n: "weak_ref x = Some d" if "back_ref y = Some a" "obj_at s' a = Some x" for x
      using that by (auto simp: new_ok_def)
    obtain x where x: "obj_at s a = Some x" using closedD(1) [OF c a] by auto
    have "back_ref y \<noteq> Some a"
      using n x same [OF a] weak_ref_alive(2) [OF inv x, of d] None by auto
    moreover have "weak_ref y \<noteq> Some a"
      using he y None x unfolding heap_effect_def by (metis option.distinct(1))
    ultimately show ?thesis using p by blast
  next
    case (Some z)
    obtain y2 where "obj_at s' d = Some y2" "grows z y2" using effect_grows [OF he Some] .
    then have b: "back_ref y = back_ref z" using y by (simp add: grows_def)
    have "weak_ref z = Some a" if "weak_ref y = Some a"
      using he y that Some closedD(1) [OF c a] unfolding heap_effect_def by (metis option.inject)
    then show ?thesis using p b closedD(4,5) [OF c a Some] by auto
  qed
  then show ?thesis
    using same closedD(1) [OF c] closed_handles [OF st c bo] closed_no_thread [OF st c bo] unfolding closed_def by metis
qed

lemma closed_kept:
  assumes p: "pointers_kept s s'" and fr: "cells s' = cells s" "thrs s' = thrs s \<or> thrs s' = map drain_thr (thrs s)"
    and c: "closed s G"
  shows "closed s' {a \<in> G. obj_at s' a \<noteq> None}"
proof -
  have n: "no_thread_has s' a" if "a \<in> G" for a
    using fr(2) closedD(3) [OF c that] by (auto simp: no_thread_has_def drain_thr_def)
  have "d \<in> G" if z: "obj_at s' d = Some z" and a: "a \<in> G" and q: "weak_ref z = Some a \<or> back_ref z = Some a" for d z a
  proof -
    obtain y where "obj_at s d = Some y" "weak_ref z = weak_ref y" "back_ref z = back_ref y \<or> back_ref z = None"
      using p z unfolding pointers_kept_def by blast
    then show ?thesis using closedD(4,5) [OF c a] q by auto
  qed
  then show ?thesis using n closedD(2) [OF c] fr(1) unfolding closed_def by auto
qed

lemma closed_drop:
  assumes "sdarc_drop d i s = Next s'" and c: "closed s G"
  shows "closed s' G" "a \<noteq> d \<Longrightarrow> obj_at s' a = obj_at s a" "pointers_kept s s'"
proof -
  obtain x where x: "obj_at s d = Some x" "s' = take_handle d (put d (on_shard i a_decremented x) s)"
    using assms(1) by (auto simp: sdarc_drop_def deref_def split: if_splits option.splits)
  have o: "obj_at s' a = (if a = d then Some (on_shard i a_decremented x) else obj_at s a)" for a
    using x(1) obj_at_less [OF x(1)] by (auto simp: x(2) take_handle_def put_def obj_at_def nth_list_update)
  then show "a \<noteq> d \<Longrightarrow> obj_at s' a = obj_at s a" by simp
  show "pointers_kept s s'" using x(1) by (auto simp: pointers_kept_def o on_shard_def split: if_splits)
  have same: "cells s' = cells s" "thrs s' = thrs s" by (simp_all add: x(2) take_handle_def put_def)
  have "e \<in> G" if "obj_at s' e = Some y" "b \<in> G" "weak_ref y = Some b \<or> back_ref y = Some b" for e y b
    using that closedD(4,5) [OF c that(2)] x(1) by (auto simp: o on_shard_def split: if_splits)
  moreover have "obj_at s' b \<noteq> None \<and> Some b \<notin> set (cells s') \<and> no_thread_has s' b" if "b \<in> G" for b
    using closedD(1-3) [OF c that] by (simp add: o same no_thread_cong [OF same(2)])
  ultimately show "closed s' G" unfolding closed_def by blast
qed

section \<open>Sealed sets\<close>

definition sealed :: "loop \<Rightarrow> addr set \<Rightarrow> bool" where
  "sealed w G \<longleftrightarrow> closed (core w) G \<and> (\<forall>a\<in>G. held_in_data w a = handles (core w) a)
     \<and> (\<forall>b a. a \<in> G \<longrightarrow> a \<in> set (data_handles w b) \<longrightarrow> b \<in> G)"

text \<open>The step borrows nothing of the set, moves nothing in or out of its data, and is no panic of a drop.\<close>

fun leaves_alone :: "addr set \<Rightarrow> loop_label \<Rightarrow> loop \<Rightarrow> bool" where
  "leaves_alone G (ThreadStep l) w = (set (borrows l (core w)) \<inter> G = {})"
| "leaves_alone G (PutIntoData b c) w = (b \<notin> G)"
| "leaves_alone G (TakeFromData b c) w = (b \<notin> G)"
| "leaves_alone G DropPanics w = False"
| "leaves_alone G l w = True"

definition left_of :: "addr set \<Rightarrow> loop \<Rightarrow> addr set" where
  "left_of G w = {a \<in> G. obj_at (core w) a \<noteq> None}"

lemma freed_head:
  assumes "collector_step i s = Next s'" and "obj_at s b \<noteq> None" and "obj_at s' b = None"
  shows "at_cpc s = CFreeing \<and> (\<exists>rest. tofree s = b # rest)"
  using assms
  by (cases "at_cpc s") (auto simp: collector_step_def traverse_begin_def traverse_step_def visit_next_def
      read_relaxed_step_def clear_tags_step_def check_step_def clear_weak_backref_def free_step_def
      drop_weak_inner_ref_def set_state_def ready_to_free_def deref_def put_def obj_at_def nth_list_update
      split: if_splits option.splits list.splits tstate.splits)

text \<open>Freed memory holds no data.\<close>

definition data_alive :: "loop \<Rightarrow> bool" where
  "data_alive w \<longleftrightarrow> (\<forall>b. obj_at (core w) b = None \<longrightarrow> data_handles w b = [])"

lemma data_alive_same:
  assumes "data_alive w" and "data_handles w' = data_handles w"
    and "\<And>b. obj_at (core w) b \<noteq> None \<Longrightarrow> obj_at (core w') b \<noteq> None"
  shows "data_alive w'"
  using assms unfolding data_alive_def by metis

lemma collector_next_data_alive:
  assumes r: "loop_reach w" and st: "collector_next i w = Next w'" and d: "data_alive w"
  shows "data_alive w'"
proof (cases "at_phase w")
  case PInner
  consider (free) a rest where "at_cpc (core w) = CFreeing" "tofree (core w) = a # rest"
    | (idle) "at_cpc (core w) = CIdle" | (other) "at_cpc (core w) \<noteq> CIdle" "at_cpc (core w) \<noteq> CFreeing \<or> tofree (core w) = []"
    by (cases "tofree (core w)") auto
  then show ?thesis
  proof cases
    case free
    then have "collector_step i (core w) = Next (core w')" "data_handles w' = (data_handles w)(a := [])"
      using st PInner by (auto simp: collector_next_def inner_step_def bind_outcome_Next Let_def)
    then show ?thesis using freed_head [of i "core w" "core w'"] free d unfolding data_alive_def by (metis fun_upd_apply list.inject)
  next
    case idle
    then show ?thesis using st PInner d by (auto simp: collector_next_def inner_step_def data_alive_def)
  next
    case other
    then have "collector_step i (core w) = Next (core w')" "data_handles w' = data_handles w"
      using st PInner by (auto simp: collector_next_def inner_step_def bind_outcome_Next Let_def)
    then show ?thesis using freed_head [of i "core w" "core w'"] other by (intro data_alive_same [OF d]) force+
  qed
next
  case (PDrop cs)
  then show ?thesis using st
    by (intro data_alive_same [OF d])
      (auto simp: collector_next_def drop_next_def bind_outcome_Next sdarc_drop_def deref_def take_handle_def put_def
        obj_at_def nth_list_update split: list.splits if_splits option.splits)
qed (use st in \<open>auto simp: collector_next_def take_shard_def begin_inner_def loop_head_def after_inner_def
      notify_next_def park_def take_new_counters_to_track_def begin_iteration_def bind_outcome_Next Let_def obj_at_def
      split: if_splits option.splits list.splits intro!: data_alive_same [OF d]\<close>)

lemma loop_data_alive: "loop_reach w \<Longrightarrow> data_alive w"
proof (induction rule: loop_reach.induct)
  case (loop_reach_start n addrs cs)
  then show ?case by (simp add: data_alive_def loop_start_def)
next
  case (loop_reach_step w l w')
  note d = loop_reach_step.IH and r = loop_reach_step.hyps
  show ?case
  proof (cases l)
    case (Collect i)
    then show ?thesis using collector_next_data_alive r d by simp
  next
    case (ThreadStep k)
    then have t: "thread_step k w = Next w'" using r(2) by simp
    have "heap_effect (core w) (core w')" using thread_cpc(1) [OF r(1) t] by (simp add: effect_def)
    then show ?thesis
      by (intro data_alive_same [OF d]) (subst thread_cpc(2) [OF r(1) t], auto dest: effect_grows)
  next
    case (PutIntoData a c)
    then have w': "w' = w\<lparr>data_handles := (data_handles w)(a := data_handles w a @ [c])\<rparr>"
      and a: "obj_at (core w) a \<noteq> None"
      using r(2) reachable_object [OF r(1)] by (simp_all add: put_into_data_def split: if_splits)
    show ?thesis using d a by (auto simp: data_alive_def w')
  qed (use d r(2) in \<open>auto simp: data_alive_def drop_panics_def park_times_out_def call_begin_def call_step_def
      take_from_data_def split: phase.splits if_splits call_pc.splits\<close>)
qed

text \<open>What a step of the collector thread is to the objects: nothing, a drop, or a step of an iteration.\<close>

lemma collector_next_cases:
  assumes st: "collector_next i w = Next w'"
  obtains (same) "core w' = core w"
    | (dropped) d rest where "at_phase w = PDrop (d # rest)" "at_phase w' = PDrop rest"
        "sdarc_drop d i (core w) = Next (core w')" "data_handles w' = data_handles w"
        "counters_to_recheck w' = insort_insert d (counters_to_recheck w)" "new_to_recheck w' = new_to_recheck w"
    | (take) j where "at_phase w = PTake j" "at_phase w' = PTake (Suc j)" "take_new_counters_to_track j (core w) = Next (core w')"
        "data_handles w' = data_handles w"
    | (started) v where "at_phase w = PBegin v" "at_phase w' = PInner" "data_handles w' = data_handles w"
        "begin_iteration (case v of None \<Rightarrow> tracked_keys (core w) | Some l \<Rightarrow> l) (core w) = Next (core w')"
        "new_to_recheck w' = []"
    | (inner) "at_phase w = PInner" "at_cpc (core w) \<noteq> CIdle" "collector_step i (core w) = Next (core w')"
proof (cases "at_phase w")
  case (PTake j)
  then show ?thesis using st that(1,3)
    by (cases "j < nshards (core w)") (auto simp: collector_next_def take_shard_def bind_outcome_Next)
next
  case (PBegin v)
  then show ?thesis using st that(4) by (auto simp: collector_next_def begin_inner_def bind_outcome_Next)
next
  case PInner
  then show ?thesis using st that(1,5)
    by (auto simp: collector_next_def inner_step_def bind_outcome_Next Let_def split: if_splits)
next
  case (PDrop cs)
  then show ?thesis using st that(1,2)
    by (cases cs) (auto simp: collector_next_def drop_next_def bind_outcome_Next)
qed (use st that(1) in \<open>auto simp: collector_next_def loop_head_def after_inner_def notify_next_def park_def Let_def
    split: if_splits list.splits\<close>)

lemma collector_closed:
  assumes st: "collector_next i w = Next w'" and c: "closed (core w) G"
  shows "closed (core w') (left_of G w')"
  using st
proof (cases rule: collector_next_cases)
  case same
  then have "left_of G w' = G" using closedD(1) [OF c] by (auto simp: left_of_def)
  then show ?thesis using c same by simp
next
  case (dropped d rest)
  have "closed (core w') G" by (rule closed_drop(1) [OF dropped(3) c])
  moreover then have "left_of G w' = G" using closedD(1) by (auto simp: left_of_def)
  ultimately show ?thesis by simp
next
  case (take j)
  then have st: "is_collector (CTake j)" "step (CTake j) (core w) = Next (core w')" by simp_all
  show ?thesis
    using closed_kept [OF collector_pointers [OF st] _ _ c] collector_frame [OF st] by (auto simp: left_of_def)
next
  case (started v)
  let ?v = "case v of None \<Rightarrow> tracked_keys (core w) | Some l \<Rightarrow> l"
  have st: "is_collector (CBegin ?v)" "step (CBegin ?v) (core w) = Next (core w')" using started by simp_all
  show ?thesis
    using closed_kept [OF collector_pointers [OF st] _ _ c] collector_frame [OF st] by (auto simp: left_of_def)
next
  case inner
  show ?thesis
    using closed_kept [OF pointers_kept_step [OF inner(3)] _ _ c] collector_step_frame [OF inner(3)]
    by (simp add: left_of_def)
qed

lemma sealedD:
  assumes "sealed w G"
  shows "closed (core w) G" "a \<in> G \<Longrightarrow> held_in_data w a = handles (core w) a"
    "\<lbrakk>a \<in> G; a \<in> set (data_handles w b)\<rbrakk> \<Longrightarrow> b \<in> G"
  using assms unfolding sealed_def by blast+

lemma sealed_left:
  assumes "loop_reach w'" and "closed (core w') (left_of G w')"
    and "\<And>a. a \<in> G \<Longrightarrow> held_in_data w' a = handles (core w') a"
    and "\<And>a b. \<lbrakk>a \<in> G; a \<in> set (data_handles w' b)\<rbrakk> \<Longrightarrow> b \<in> G"
  shows "sealed w' (left_of G w')"
proof -
  have "b \<in> left_of G w'" if "a \<in> G" "a \<in> set (data_handles w' b)" for a b
    using assms(4) [OF that] loop_data_alive [OF assms(1)] that(2) by (auto simp: left_of_def data_alive_def)
  then show ?thesis using assms(2,3) by (auto simp: sealed_def left_of_def)
qed

lemma sealed_collect:
  assumes r: "loop_reach w" and st: "collector_next i w = Next w'" and s: "sealed w G"
  shows "sealed w' (left_of G w')"
proof (rule sealed_left)
  show "loop_reach w'" using loop_reach_step [OF r, of "Collect i"] st by simp
  show "closed (core w') (left_of G w')" by (rule collector_closed [OF st sealedD(1) [OF s]])
  show "held_in_data w' a = handles (core w') a" if "a \<in> G" for a
    using collector_next_hands [OF st, of a] sealedD(2) [OF s that] by linarith
  have "set (data_handles w' b) \<subseteq> set (data_handles w b)" for b
    using st
    by (auto simp: collector_next_def take_shard_def begin_inner_def loop_head_def after_inner_def inner_step_def
        drop_next_def notify_next_def park_def bind_outcome_Next Let_def
        split: phase.splits if_splits option.splits list.splits)
  then show "b \<in> G" if "a \<in> G" "a \<in> set (data_handles w' b)" for a b
    using sealedD(3) [OF s that(1), of b] that(2) by blast
qed

lemma sealed_thread:
  assumes r: "loop_reach w" and st: "thread_step l w = Next w'" and s: "sealed w G" and bo: "set (borrows l (core w)) \<inter> G = {}"
  shows "sealed w' G" "a \<in> G \<Longrightarrow> obj_at (core w') a = obj_at (core w) a"
proof -
  note e = thread_cpc [OF r st] and c = sealedD(1) [OF s]
  have w': "data_handles w' = data_handles w" "at_phase w' = at_phase w" by (subst e(2), simp)+
  have "held_in_data w' a = held_in_data w a" for a
    using heap_length [OF e(3)] by (simp add: held_in_data_def w')
  then show "sealed w' G"
    using closed_thread [OF loop_reach_inv(1) [OF r] e(4,3) c bo] closed_handles [OF e(4,3) c bo] s
    by (simp add: sealed_def w')
  show "a \<in> G \<Longrightarrow> obj_at (core w') a = obj_at (core w) a" by (rule closed_object [OF e(4,3) c bo])
qed

lemma sealed_put:
  assumes r: "loop_reach w" and st: "put_into_data b d w = Next w'" and s: "sealed w G" and b: "b \<notin> G"
  shows "sealed w' G"
proof -
  have w': "w' = w\<lparr>data_handles := (data_handles w)(b := data_handles w b @ [d])\<rparr>"
    and d: "held_in_data w d < handles (core w) d" and bl: "b < length (heap (core w))"
    using st reachable_alive [OF r] by (auto simp: put_into_data_def split: if_splits)
  have dG: "d \<notin> G" using sealedD(2) [OF s, of d] d by auto
  have "held_in_data w' a = held_in_data w a" if "a \<in> G" for a
  proof -
    have "a \<noteq> d" using dG that by auto
    then show ?thesis
      using data_sum_update [OF bl, of "data_handles w" "data_handles w b @ [d]" a] by (simp add: w' held_in_data_def)
  qed
  then show ?thesis using s dG by (auto simp: sealed_def w' split: if_splits)
qed

lemma count_remove1: "d \<noteq> e \<Longrightarrow> count_list (remove1 d xs) e = count_list xs e"
  by (induction xs) auto

lemma sealed_taken:
  assumes r: "loop_reach w" and st: "take_from_data b d w = Next w'" and s: "sealed w G" and b: "b \<notin> G"
  shows "sealed w' G"
proof -
  have w': "w' = w\<lparr>data_handles := (data_handles w)(b := remove1 d (data_handles w b))\<rparr>"
    and d: "d \<in> set (data_handles w b)" and bl: "b < length (heap (core w))"
    using st reachable_alive [OF r] by (auto simp: take_from_data_def split: if_splits)
  have dG: "d \<notin> G" using sealedD(3) [OF s _ d] b by auto
  have "held_in_data w' a = held_in_data w a" if "a \<in> G" for a
  proof -
    have "d \<noteq> a" using dG that by auto
    then show ?thesis
      using data_sum_update [OF bl, of "data_handles w" "remove1 d (data_handles w b)" a] count_remove1 [of d a "data_handles w b"]
      by (simp add: w' held_in_data_def)
  qed
  moreover have "set (remove1 d (data_handles w b)) \<subseteq> set (data_handles w b)" by (rule set_remove1_subset)
  ultimately show ?thesis using s by (auto simp: sealed_def w' split: if_splits)
qed

lemma sealed_same:
  assumes "sealed w G" and "core w' = core w" and "data_handles w' = data_handles w" and "dropping (at_phase w') = dropping (at_phase w)"
  shows "sealed w' G"
  using assms(1) by (simp add: sealed_def held_in_data_def assms(2-4))

text \<open>A sealed set stays sealed, up to what has been freed of it.\<close>

lemma sealed_step:
  assumes r: "loop_reach w" and st: "loop_step l w = Next w'" and s: "sealed w G" and a: "leaves_alone G l w"
  shows "sealed w' (left_of G w')"
proof -
  have keep: "sealed w' (left_of G w')" if "sealed w' G"
  proof -
    have "left_of G w' = G" using closedD(1) [OF sealedD(1) [OF that]] by (auto simp: left_of_def)
    then show ?thesis using that by simp
  qed
  show ?thesis
  proof (cases l)
    case (Collect i)
    then show ?thesis using sealed_collect [OF r _ s] st by simp
  next
    case (ThreadStep k)
    then show ?thesis using sealed_thread(1) [OF r _ s] st a keep by simp
  next
    case (PutIntoData b d)
    then show ?thesis using sealed_put [OF r _ s] st a keep by simp
  next
    case (TakeFromData b d)
    then show ?thesis using sealed_taken [OF r _ s] st a keep by simp
  next
    case (CallStep e)
    show ?thesis
      by (rule keep, rule sealed_same [OF s]) (use st CallStep in \<open>auto simp: call_step_def split: if_splits call_pc.splits\<close>)
  next
    case TimeOut
    show ?thesis
      by (rule keep, rule sealed_same [OF s]) (use st TimeOut in \<open>auto simp: park_times_out_def dropping_def split: if_splits\<close>)
  next
    case CallBegin
    show ?thesis by (rule keep, rule sealed_same [OF s]) (use st CallBegin in \<open>auto simp: call_begin_def\<close>)
  qed (use a in simp)
qed

section \<open>What the program can still reach\<close>

text \<open>
  By a handle in the hands of a thread, by an atomic pointer, in the middle of a load or borrow or by
  a guard; then by handles in data, and between an object and its weak object by \<open>downgrade\<close> and
  \<open>upgrade\<close>.
\<close>

inductive accessible :: "loop \<Rightarrow> addr \<Rightarrow> bool" for w :: loop where
  in_hands: "held_in_data w a < handles (core w) a \<Longrightarrow> accessible w a"
| in_pointer: "Some a \<in> set (cells (core w)) \<Longrightarrow> accessible w a"
| by_thread: "\<not> no_thread_has (core w) a \<Longrightarrow> accessible w a"
| in_data: "accessible w b \<Longrightarrow> a \<in> set (data_handles w b) \<Longrightarrow> accessible w a"
| downgraded: "accessible w b \<Longrightarrow> obj_at (core w) b = Some y \<Longrightarrow> weak_ref y = Some a \<Longrightarrow> accessible w a"
| upgraded: "accessible w b \<Longrightarrow> obj_at (core w) b = Some y \<Longrightarrow> back_ref y = Some a \<Longrightarrow> accessible w a"

definition lost :: "loop \<Rightarrow> addr set" where
  "lost w = {a. obj_at (core w) a \<noteq> None \<and> \<not> accessible w a}"

lemma lost_sealed:
  assumes "loop_reach w"
  shows "sealed w (lost w)"
proof -
  have h: "held_in_data w a = handles (core w) a" if "\<not> accessible w a" for a
    using accessible.in_hands [of w a] that loop_held [OF assms] unfolding held_ok_def by (meson le_neq_implies_less)
  have d: "b \<in> lost w" if "a \<in> lost w" "a \<in> set (data_handles w b)" for a b
    using that accessible.in_data [of w b a] loop_data_alive [OF assms] by (fastforce simp: lost_def data_alive_def)
  have "c \<in> lost w" if "obj_at (core w) c = Some y" "a \<in> lost w" "weak_ref y = Some a \<or> back_ref y = Some a" for c y a
    using that accessible.downgraded [of w c y a] accessible.upgraded [of w c y a] by (auto simp: lost_def)
  moreover have "Some a \<notin> set (cells (core w)) \<and> no_thread_has (core w) a" if "\<not> accessible w a" for a
    using that accessible.in_pointer [of a w] accessible.by_thread [of w a] by blast
  ultimately have c: "closed (core w) (lost w)" by (simp add: closed_def lost_def)
  have "held_in_data w a = handles (core w) a" if "a \<in> lost w" for a using h that by (simp add: lost_def)
  then show ?thesis using d c unfolding sealed_def by blast
qed

lemma sealed_inaccessible:
  assumes s: "sealed w G"
  shows "accessible w a \<Longrightarrow> a \<notin> G"
proof (induction rule: accessible.induct)
  case (in_hands a)
  then show ?case using sealedD(2) [OF s, of a] by auto
next
  case (in_data b a)
  then show ?case using sealedD(3) [OF s, of a b] by blast
qed (use closedD(2-5) [OF sealedD(1) [OF s]] in blast)+

text \<open>
  What the borrow checker allows: a thread borrows, and moves handles into and out of, only what is
  accessible. A drop that panics leaks handles and is left out.
\<close>

fun borrow_checked :: "loop_label \<Rightarrow> loop \<Rightarrow> bool" where
  "borrow_checked (ThreadStep l) w = (\<forall>a\<in>set (borrows l (core w)). accessible w a)"
| "borrow_checked (PutIntoData b c) w = accessible w b"
| "borrow_checked (TakeFromData b c) w = accessible w b"
| "borrow_checked DropPanics w = False"
| "borrow_checked l w = True"

fun safe_run :: "loop_label list \<Rightarrow> loop \<Rightarrow> bool" where
  "safe_run [] w = True"
| "safe_run (l # ls) w = (borrow_checked l w \<and> (case loop_step l w of Next w' \<Rightarrow> safe_run ls w' | _ \<Rightarrow> True))"

lemma borrow_checked_leaves:
  assumes "sealed w G" and "borrow_checked l w"
  shows "leaves_alone G l w"
  using assms(2) sealed_inaccessible [OF assms(1)] by (cases l) auto

end
