(* ===== verification/LostStructures.thy ===== *)
theory LostStructures
  imports SealedObjects
begin

text \<open>
  A deep collection against running threads: a whole structure the program has lost is freed by the
  pass that answers a caller of \<open>collector_update_now_and_wait\<close>. The objects at the bottom are
  re-checked until they are freed; the others wait in the default state, so that the drop of their
  last handle starts them on the same way.
\<close>

section \<open>Nothing left for re-checking is overlooked\<close>

definition recheck_noted :: "loop \<Rightarrow> bool" where
  "recheck_noted w \<longleftrightarrow>
     (case at_phase w of
        PBegin (Some l) \<Rightarrow> \<forall>a. tracked (core w) a = Some RequiresReChecking \<longrightarrow> a \<in> set l
      | PInner \<Rightarrow> \<forall>a. noted a (core w) (new_to_recheck w)
      | PDrop cs \<Rightarrow> \<forall>a. noted a (core w) (new_to_recheck w)
      | PAfter \<Rightarrow> \<forall>a. noted a (core w) (new_to_recheck w)
      | _ \<Rightarrow> True)"

lemma begin_noted:
  assumes "begin_iteration visit s = Next s'" and "\<And>a. tracked s a = Some RequiresReChecking \<Longrightarrow> a \<in> set visit"
  shows "noted a s' l"
  using assms(2) begin_same [OF assms(1)] by (auto simp: noted_def)

lemma rechecked_visited:
  assumes r: "loop_reach w" and p: "at_phase w = PBegin v" and n: "recheck_noted w"
    and t: "tracked (core w) a = Some RequiresReChecking"
  shows "a \<in> set (case v of None \<Rightarrow> tracked_keys (core w) | Some l \<Rightarrow> l)"
proof (cases v)
  case None
  have "obj_at (core w) a \<noteq> None"
    using tracked_alive [OF gc_invD(1) [OF loop_reach_inv(2) [OF r]], of a] t by auto
  then show ?thesis using key_tracked [of "core w" a] t None by simp
qed (use n p t in \<open>simp add: recheck_noted_def\<close>)

lemma collector_next_recheck:
  assumes r: "loop_reach w" and st: "collector_next i w = Next w'" and n: "recheck_noted w"
  shows "recheck_noted w'"
proof (cases "at_phase w")
  case (PBegin v)
  then have w': "begin_iteration (case v of None \<Rightarrow> tracked_keys (core w) | Some l \<Rightarrow> l) (core w) = Next (core w')"
    "at_phase w' = PInner"
    using st by (auto simp: collector_next_def begin_inner_def bind_outcome_Next)
  show ?thesis
    using begin_noted [OF w'(1) rechecked_visited [OF r PBegin n]] by (simp add: recheck_noted_def w'(2))
next
  case PInner
  then have d: "\<And>a. noted a (core w) (new_to_recheck w)" using n by (simp add: recheck_noted_def)
  show ?thesis
  proof (cases "at_cpc (core w) = CIdle")
    case True
    then have "w' = w\<lparr>at_phase := PAfter\<rparr>" using st PInner by (simp add: collector_next_def inner_step_def)
    then show ?thesis using d by (simp add: recheck_noted_def)
  next
    case False
    then have s: "collector_step i (core w) = Next (core w')" and ph: "at_phase w' = PInner \<or> (\<exists>cs. at_phase w' = PDrop cs)"
      and nr: "new_to_recheck w' = note_recheck (core w) (core w') (new_to_recheck w)
        \<or> new_to_recheck w' = new_to_recheck w \<and> at_cpc (core w) = CFreeing"
      using st PInner by (auto simp: collector_next_def inner_step_def bind_outcome_Next Let_def split: if_splits)
    have "noted a (core w') (new_to_recheck w')" for a
      using noted_step [OF s d] note_recheck_mono [of "new_to_recheck w" "core w" "core w'"] nr by auto
    then show ?thesis using ph by (auto simp: recheck_noted_def)
  qed
next
  case (PDrop cs)
  then have d: "\<And>a. noted a (core w) (new_to_recheck w)" using n by (simp add: recheck_noted_def)
  show ?thesis
  proof (cases cs)
    case Nil
    then have "w' = w\<lparr>at_phase := PInner\<rparr>" using st PDrop by (simp add: collector_next_def drop_next_def)
    then show ?thesis using d by (simp add: recheck_noted_def)
  next
    case (Cons e rest)
    then have w': "step (LDrop e i) (core w) = Next (core w')" "at_phase w' = PDrop rest" "new_to_recheck w' = new_to_recheck w"
      using st PDrop by (auto simp: collector_next_def drop_next_def bind_outcome_Next)
    have "noted a (core w') (new_to_recheck w')" for a
      using d [of a] gc_same_simps [OF thread_effect [OF loop_reach_inv(1) [OF r] _ w'(1)]] by (simp add: noted_def w'(3))
    then show ?thesis by (simp add: recheck_noted_def w'(2))
  qed
next
  case PAfter
  have "at_cpc (core w) = CIdle" using loop_control [OF r] PAfter by (simp add: control_ok_def)
  then have "tracked (core w) a = Some RequiresReChecking \<Longrightarrow> a \<in> set (new_to_recheck w)" for a
    using n PAfter gc_invD(9) [OF loop_reach_inv(2) [OF r]] by (simp add: recheck_noted_def noted_def)
  then show ?thesis using st PAfter
    by (auto simp: collector_next_def after_inner_def Let_def recheck_noted_def set_set_extend split: if_splits)
next
  case (PTake j)
  then show ?thesis using st
    by (cases "j < nshards (core w)") (auto simp: collector_next_def take_shard_def bind_outcome_Next recheck_noted_def)
qed (use st in \<open>auto simp: collector_next_def loop_head_def notify_next_def park_def recheck_noted_def
    split: if_splits list.splits\<close>)

lemma loop_recheck_noted: "loop_reach w \<Longrightarrow> recheck_noted w"
proof (induction rule: loop_reach.induct)
  case (loop_reach_start n addrs cs)
  then show ?case by (simp add: loop_start_def recheck_noted_def)
next
  case (loop_reach_step w l w')
  note n = loop_reach_step.IH and r = loop_reach_step.hyps
  have same: "recheck_noted w'" if "core w' = core w" "at_phase w' = at_phase w" "new_to_recheck w' = new_to_recheck w"
    using n by (simp add: recheck_noted_def that cong: phase.case_cong option.case_cong)
  show ?case
  proof (cases l)
    case (Collect i)
    then show ?thesis using collector_next_recheck r n by simp
  next
    case (ThreadStep k)
    then have t: "thread_step k w = Next w'" using r(2) by simp
    note e = thread_cpc [OF r(1) t]
    have w': "at_phase w' = at_phase w" "new_to_recheck w' = new_to_recheck w" by (subst e(2), simp)+
    have "noted a (core w') x = noted a (core w) x" for a x by (simp add: noted_def gc_same_simps [OF e(1)])
    then show ?thesis
      using n by (simp add: recheck_noted_def w' gc_same_simps [OF e(1)] cong: phase.case_cong option.case_cong)
  next
    case DropPanics
    then show ?thesis using r(2) n by (auto simp: drop_panics_def recheck_noted_def split: phase.splits)
  next
    case TimeOut
    then show ?thesis using r(2) by (auto simp: park_times_out_def recheck_noted_def split: if_splits)
  next
    case CallBegin
    show ?thesis by (rule same) (use r(2) CallBegin in \<open>auto simp: call_begin_def\<close>)
  next
    case (CallStep e)
    show ?thesis by (rule same) (use r(2) CallStep in \<open>auto simp: call_step_def split: if_splits call_pc.splits\<close>)
  next
    case (PutIntoData b e)
    show ?thesis by (rule same) (use r(2) PutIntoData in \<open>auto simp: put_into_data_def split: if_splits\<close>)
  next
    case (TakeFromData b e)
    show ?thesis by (rule same) (use r(2) TakeFromData in \<open>auto simp: take_from_data_def split: if_splits\<close>)
  qed
qed

section \<open>Objects held in data only\<close>

text \<open>
  Such an object's counters stay until a drop. The collector's reads of it see that they are not
  zero, and put it back in the default state.
\<close>

fun reading_held :: "cpc \<Rightarrow> addr \<Rightarrow> sys \<Rightarrow> bool" where
  "reading_held (CRelax b k acc) a s = (b = a \<longrightarrow> acc = part s a k \<and> k \<le> nshards s)"
| "reading_held (CClear b k acc) a s = (b \<noteq> a)"
| "reading_held (CCheck b k acc) a s = (b = a \<longrightarrow> acc = part s a k \<and> k \<le> nshards s)"
| "reading_held (CWeak b) a s = (b \<noteq> a)"
| "reading_held _ a s = True"

definition resting :: "addr \<Rightarrow> sys \<Rightarrow> bool" where
  "resting a s \<longleftrightarrow> tracked s a = None \<or> at_cpc s = CIdle
     \<or> unseen s a \<and> reading_held (at_cpc s) a s
       \<and> (a \<notin> set (todo s) \<and> \<not> at_object (at_cpc s) a \<longrightarrow> tracked s a = Some DefaultState)"

lemma reading_elsewhere: "\<not> at_object c a \<Longrightarrow> reading_held c a s"
  by (cases c) simp_all

lemma reading_held_cong:
  "\<lbrakk>nshards s' = nshards s; shards_of s' a = shards_of s a\<rbrakk> \<Longrightarrow> reading_held c a s' = reading_held c a s"
  by (cases c) (simp_all add: part_def)

lemma resting_thread:
  assumes inv: "res_inv s" and st: "\<not> is_collector l" "step l s = Next s'" and nt: "no_thread_has s a"
    and o: "obj_at s' a = obj_at s a \<or> at_cpc s = CFreeing" and h: "resting a s"
  shows "resting a s'"
proof -
  have e: "effect s s'" by (rule thread_effect [OF inv st])
  then have ns: "nshards s' = nshards s" using effect_nshards by (simp add: effect_def)
  have "reading_held (at_cpc s) a s' = reading_held (at_cpc s) a s"
  proof (cases "at_cpc s = CFreeing")
    case False
    then show ?thesis using o ns by (intro reading_held_cong) (simp_all add: shards_of_def)
  qed simp
  then show ?thesis
    using h unseen_thread [OF inv st nt] by (auto simp: resting_def gc_same_simps [OF e])
qed

lemma resting_begin:
  assumes inv: "res_inv s" and gc: "gc_inv s" and b: "begin_iteration visit s = Next s'" and nt: "no_thread_has s a"
    and v: "tracked s a = Some RequiresReChecking \<Longrightarrow> a \<in> set visit"
  shows "resting a s'"
proof -
  have "at_cpc s = CIdle" using b by (auto simp: begin_iteration_def split: if_splits)
  then have "tracked s a \<noteq> Some ReadyToFree" using gc_invD(4,9) [OF gc] by simp
  then have "tracked s a \<in> {None, Some DefaultState, Some RequiresReChecking}"
    using tstate.exhaust by (cases "tracked s a") auto
  then show ?thesis
    using v unseen_begin [OF inv b nt] by (auto simp: resting_def begin_same [OF b])
qed

lemma part_total:
  assumes "res_inv s" and "obj_at s a = Some x"
  shows "part s a (nshards s) = int (tokens s a)"
proof -
  have "length (shards x) = nshards s" "total x = int (tokens s a)" using res_invD(2) [OF assms] by simp_all
  then show ?thesis using psum_total [of x "nshards s"] assms(2) by (simp add: part_def shards_of_def)
qed

lemma untracked_stays:
  assumes st: "collector_step i s = Next s'" and gc: "gc_inv s" "gc_inv s'" and live: "obj_at s a \<noteq> None"
    and t: "tracked s a = None"
  shows "tracked s' a = None"
proof -
  have "a \<in> set (concat (pending s'))"
    using gc_invD(1) [OF gc(1)] t live collector_step_frame(3) [OF st] unfolding tracking_inv_def by simp
  then show ?thesis using gc_invD(1) [OF gc(2)] unfolding tracking_inv_def by blast
qed

lemma resting_step:
  assumes st: "collector_step i s = Next s'" and inv: "res_inv s" and gc: "gc_inv s" "gc_inv s'"
    and z: "tokens s a > 0" and h: "resting a s"
  shows "resting a s'"
proof (cases "tracked s a")
  case None
  have "obj_at s a \<noteq> None" using res_invD(3) [OF inv, of a] z by auto
  then show ?thesis using untracked_stays [OF st gc _ None] by (simp add: resting_def)
next
  case (Some t)
  obtain x where x: "obj_at s a = Some x" using res_invD(3) [OF inv, of a] z by (cases "obj_at s a") auto
  have sx: "shards_of s a = shards x" by (simp add: shards_of_def x)
  have "at_cpc s \<noteq> CIdle" using st by (auto simp: collector_step_def)
  then have u: "unseen s a" "unseen s' a" and rd: "reading_held (at_cpc s) a s"
    and df: "a \<notin> set (todo s) \<Longrightarrow> \<not> at_object (at_cpc s) a \<Longrightarrow> tracked s a = Some DefaultState"
    using h Some unseen_step [OF st gc(1)] by (auto simp: resting_def)
  have nf: "a \<notin> set (tofree s)" using gc_invD(6) [OF gc(1), of a] z by (auto simp: unreachable_def)
  have tot: "part s a (nshards s) > 0" using part_total [OF inv x] z by simp
  consider (other) "\<not> at_object (at_cpc s) a" "at_cpc s = CVisit \<Longrightarrow> todo s = [] \<or> hd (todo s) \<noteq> a"
    | (visit) rest where "at_cpc s = CVisit" "todo s = a # rest" | (at) "at_object (at_cpc s) a"
    by (cases "at_cpc s"; cases "todo s") auto
  then show ?thesis
  proof cases
    case other
    have "at_cpc s = CFreeing \<Longrightarrow> tofree s = [] \<or> hd (tofree s) \<noteq> a" using nf by (cases "tofree s") auto
    note ew = elsewhere_step [OF st other this]
    show ?thesis using ew u(2) df other(1) reading_elsewhere [of "at_cpc s'" a s'] by (auto simp: resting_def)
  next
    case visit
    then show ?thesis
      using st u(1,2) Some by (auto simp: collector_step_def visit_next_def resting_def unseen_def split: tstate.splits)
  next
    case at
    note ph = gc_invD(9) [OF gc(1)]
    show ?thesis
    proof (cases "at_cpc s")
      case (CRelax b k acc)
      then have b: "b = a" "acc = part s a k" "k \<le> nshards s" using at rd by auto
      have sh: "shards_of s' a = shards_of s a" "nshards s' = nshards s"
        using shards_of_step [OF st] collector_step_frame(1) [OF st] CRelax by simp_all
      note pc = part_cong [OF sh(1)]
      show ?thesis
      proof (cases "k < nshards s")
        case True
        then have "at_cpc s' = CRelax a (Suc k) (acc + acount (shards x ! k))"
          using st CRelax b x by (auto simp: collector_step_def read_relaxed_step_def deref_def)
        then show ?thesis using True u(2) pc by (simp add: resting_def b(2) sh sx)
      next
        case False
        then have "s' = set_state a DefaultState s"
          using st CRelax b tot by (auto simp: collector_step_def read_relaxed_step_def)
        then show ?thesis using u(2) by (simp add: resting_def set_state_def)
      qed
    next
      case (CCheck b k acc)
      then have b: "b = a" "acc = part s a k" "k \<le> nshards s" using at rd by auto
      have sh: "shards_of s' a = shards_of s a" "nshards s' = nshards s"
        using shards_of_step [OF st] collector_step_frame(1) [OF st] CCheck by simp_all
      note pc = part_cong [OF sh(1)]
      show ?thesis
      proof (cases "k < nshards s \<and> \<not> atag (shards x ! k)")
        case True
        then have "at_cpc s' = CCheck a (Suc k) (acc + acount (shards x ! k))"
          using st CCheck b x by (auto simp: collector_step_def check_step_def deref_def)
        then show ?thesis using True u(2) pc by (simp add: resting_def b(2) sh sx)
      next
        case False
        then have "s' = set_state a DefaultState s"
          using st CCheck b x tot by (auto simp: collector_step_def check_step_def deref_def split: if_splits)
        then show ?thesis using u(2) by (simp add: resting_def set_state_def)
      qed
    qed (use at rd in auto)
  qed
qed

section \<open>Objects of a sealed set while the caller waits\<close>

text \<open>Without references an object is on its way out, with some it rests.\<close>

definition prepared :: "addr \<Rightarrow> sys \<Rightarrow> bool" where
  "prepared a s \<longleftrightarrow> (if tokens s a = 0 then low a s else resting a s)"

lemma tokens_object:
  assumes "res_inv s" and "res_inv s'" and "obj_at s' a = obj_at s a"
  shows "tokens s' a = tokens s a"
  using res_invD(2) [OF assms(1), of a] res_invD(2) [OF assms(2), of a] res_invD(3) [OF assms(1), of a]
    res_invD(3) [OF assms(2), of a] assms(3)
  by (cases "obj_at s a") auto

lemma tokens_shards:
  assumes "res_inv s" and "res_inv s'" and "shards_of s' a = shards_of s a" and "obj_at s a \<noteq> None" and "obj_at s' a \<noteq> None"
  shows "tokens s' a = tokens s a"
  using res_invD(2) [OF assms(1), of a] res_invD(2) [OF assms(2), of a] assms(3-5)
  by (auto simp: shards_of_def total_def)

lemma loose_nobody: "closed s G \<Longrightarrow> a \<in> G \<Longrightarrow> tokens s a = 0 \<Longrightarrow> nobody_has s a"
  using closedD(3) by (simp add: nobody_has_def)

lemma loose_stays:
  assumes st: "collector_step i s = Next s'" and n: "nobody_has s a"
  shows "tokens s' a = 0"
proof -
  have "no_weak_owner s' a" using pointers_keptD(1) [OF pointers_kept_step [OF st], of a] tokens_zero [of s a] n
    by (simp add: nobody_has_def)
  then show ?thesis using n collector_step_frame [OF st] tokens_zero [of s a] tokens_zero [of s' a] by (simp add: nobody_has_def)
qed

text \<open>The references to an object change only when the object that owns it by a weak reference is freed.\<close>

lemma collector_tokens:
  assumes st: "collector_step i s = Next s'" and inv: "res_inv s" "res_inv s'" and gc: "gc_inv s" and h: "resting a s"
    and live: "obj_at s' a \<noteq> None" and z: "tokens s a > 0"
  shows "tokens s' a = tokens s a \<or> at_cpc s = CFreeing \<and> at_cpc s' = CFreeing
    \<and> (\<exists>b rest x. tofree s = b # rest \<and> obj_at s b = Some x \<and> weak_ref x = Some a)"
proof (cases "at_cpc s = CFreeing \<and> tofree s \<noteq> []")
  case True
  then obtain b rest where b: "tofree s = b # rest" by (cases "tofree s") auto
  then obtain x where x: "obj_at s b = Some x"
    using st True by (auto simp: collector_step_def free_step_def deref_def split: if_splits option.splits)
  have c: "at_cpc s' = CFreeing"
    using st True b by (auto simp: collector_step_def free_step_def deref_def drop_weak_inner_ref_def put_def
        split: if_splits option.splits)
  have ab: "a \<noteq> b" using gc_invD(6) [OF gc, of a] z b by (auto simp: unreachable_def)
  show ?thesis
  proof (cases "weak_ref x = Some a")
    case False
    then have "obj_at s' a = obj_at s a"
      using st True b x ab by (auto simp: collector_step_def free_step_def deref_def drop_weak_inner_ref_def put_def
          obj_at_def nth_list_update split: if_splits option.splits)
    then show ?thesis using tokens_object [OF inv] by simp
  qed (use True b x c in blast)
next
  case False
  have nc: "at_cpc s \<noteq> CClear a k acc" for k acc
  proof
    assume c: "at_cpc s = CClear a k acc"
    then have "tracked s a = Some DefaultState" using gc_invD(9) [OF gc] by simp
    then show False using h c by (simp add: resting_def)
  qed
  have "shards_of s' a = shards_of s a"
  proof (cases "at_cpc s = CFreeing")
    case True
    then show ?thesis using False st by (intro shards_of_same) (auto simp: collector_step_def free_step_def split: if_splits)
  next
    case False
    then show ?thesis using shards_of_step [OF st] nc by simp
  qed
  moreover have "obj_at s a \<noteq> None" using res_invD(3) [OF inv(1), of a] z by auto
  ultimately show ?thesis using tokens_shards [OF inv] live by simp
qed

lemma last_drop:
  assumes "gc_inv s" and "at_cpc s = CFreeing" and "resting a s" and "obj_at s a \<noteq> None"
  shows "low a s" "tracked s a \<noteq> None \<Longrightarrow> tracked s a = Some DefaultState"
proof -
  have t: "todo s = []" using gc_invD(9) [OF assms(1)] assms(2) by simp
  then have d: "tracked s a = None \<or> unseen s a \<and> tracked s a = Some DefaultState"
    using assms(2,3) by (auto simp: resting_def)
  then show "low a s" using assms(2,4) t by (auto simp: low_def fading_def stage_simps)
  show "tracked s a \<noteq> None \<Longrightarrow> tracked s a = Some DefaultState" using d by auto
qed

lemma prepared_drop:
  assumes r: "reach s" and st: "sdarc_drop d i s = Next s'" and c: "at_cpc s = CFreeing" and cl: "closed s G" and a: "a \<in> G"
    and p: "prepared a s"
  shows "prepared a s'"
proof -
  have l: "\<not> is_collector (LDrop d i)" "step (LDrop d i) s = Next s'" using st by simp_all
  have inv: "res_inv s" "res_inv s'" "gc_inv s'" using reach_invariants r reach_step [OF r l(2)] by blast+
  have nt: "no_thread_has s a" by (rule closedD(3) [OF cl a])
  have live: "obj_at s a \<noteq> None" "obj_at s' a \<noteq> None"
    using closedD(1) [OF cl a] closedD(1) [OF closed_drop(1) [OF st cl] a] .
  show ?thesis
  proof (cases "tokens s a = 0")
    case True
    then have "a \<noteq> d" using st by (auto simp: sdarc_drop_def tokens_def split: if_splits)
    then have "tokens s' a = 0" using tokens_object [OF inv(1,2) closed_drop(2) [OF st cl]] True by simp
    moreover obtain x where "obj_at s a = Some x" using live(1) by auto
    ultimately show ?thesis
      using low_thread [OF inv(1) l loose_nobody [OF cl a True]] p True by (simp add: prepared_def)
  next
    case False
    have h: "resting a s'" using resting_thread [OF inv(1) l nt] c p False by (simp add: prepared_def)
    have "at_cpc s' = CFreeing" using c gc_same_simps [OF thread_effect [OF inv(1) l]] by simp
    then show ?thesis using last_drop(1) [OF inv(3) _ h live(2)] h by (simp add: prepared_def)
  qed
qed

lemma prepared_inner:
  assumes r: "reach s" and st: "collector_step i s = Next s'" and cl: "closed s G" and a: "a \<in> G"
    and live: "obj_at s' a \<noteq> None" and p: "prepared a s"
  shows "prepared a s'"
proof -
  obtain k where "step k s = Next s'" using collector_step_is_step [OF st] by blast
  then have inv: "res_inv s" "gc_inv s" "res_inv s'" "gc_inv s'" using reach_invariants r reach_step by blast+
  show ?thesis
  proof (cases "tokens s a = 0")
    case True
    then have n: "nobody_has s a" by (rule loose_nobody [OF cl a])
    show ?thesis using low_collector_step [OF r st n live] loose_stays [OF st n] p True by (simp add: prepared_def)
  next
    case False
    then have h: "resting a s" "resting a s'" using resting_step [OF st inv(1,2,4)] p by (simp_all add: prepared_def)
    show ?thesis
      using collector_tokens [OF st inv(1,3,2) h(1) live] last_drop(1) [OF inv(4) _ h(2) live] h(2) False
      by (auto simp: prepared_def)
  qed
qed

lemma prepared_thread:
  assumes r: "loop_reach w" and st: "thread_step l w = Next w'" and s: "sealed w G" and bo: "set (borrows l (core w)) \<inter> G = {}"
    and a: "a \<in> G"
  shows "tokens (core w') a = tokens (core w) a" "resting a (core w) \<Longrightarrow> resting a (core w')"
    "prepared a (core w) \<Longrightarrow> prepared a (core w')"
proof -
  note e = thread_cpc [OF r st] and o = sealed_thread(2) [OF r st s bo a] and cl = sealedD(1) [OF s]
  note inv = loop_reach_inv [OF r]
  have "reach (core w')" by (rule reach_step [OF loop_reach_core [OF r] e(3)])
  then have t: "tokens (core w') a = tokens (core w) a" using tokens_object [OF inv(1) _ o] reach_invariants by blast
  show "tokens (core w') a = tokens (core w) a" by (rule t)
  show h: "resting a (core w')" if "resting a (core w)"
    by (rule resting_thread [OF inv(1) e(4,3) closedD(3) [OF cl a] _ that]) (simp add: o)
  obtain x where x: "obj_at (core w) a = Some x" using closedD(1) [OF cl a] by auto
  show "prepared a (core w')" if "prepared a (core w)"
    using that h low_thread [OF inv(1) e(4,3) loose_nobody [OF cl a] x] by (auto simp: prepared_def t)
qed

lemma take_same:
  assumes "take_new_counters_to_track j s = Next s'"
  shows "heap s' = heap s" "at_cpc s' = CIdle"
  using assms by (auto simp: take_new_counters_to_track_def split: if_splits option.splits)

lemma prepared_collect:
  assumes r: "loop_reach w" and st: "collector_next i w = Next w'" and s: "sealed w G" and a: "a \<in> left_of G w'"
    and p: "prepared a (core w)"
  shows "prepared a (core w')"
proof -
  note rc = loop_reach_core [OF r] and inv = loop_reach_inv [OF r] and cl = sealedD(1) [OF s]
  have r': "loop_reach w'" using loop_reach_step [OF r, of "Collect i"] st by simp
  note inv' = loop_reach_inv [OF r']
  have aG: "a \<in> G" and live': "obj_at (core w') a \<noteq> None" using a by (simp_all add: left_of_def)
  have live: "obj_at (core w) a \<noteq> None" by (rule closedD(1) [OF cl aG])
  have nt: "no_thread_has (core w) a" by (rule closedD(3) [OF cl aG])
  show ?thesis
    using st
  proof (cases rule: collector_next_cases)
    case (dropped d rest)
    then have "at_cpc (core w) = CFreeing" using loop_control [OF r] by (simp add: control_ok_def)
    then show ?thesis using prepared_drop [OF rc dropped(3) _ cl aG p] by simp
  next
    case (take j)
    then have "obj_at (core w') a = obj_at (core w) a" and c: "at_cpc (core w') = CIdle"
      using take_same [OF take(3)] by (simp_all add: obj_at_def)
    then have "tokens (core w') a = tokens (core w) a" using tokens_object [OF inv(1) inv'(1)] by simp
    then show ?thesis using p low_take [OF inv(2) take(3)] c by (simp add: prepared_def resting_def)
  next
    case (started v)
    have "tokens (core w') a = tokens (core w) a"
      using tokens_object [OF inv(1) inv'(1)] begin_objects(1) [OF started(4)] by simp
    moreover have "resting a (core w')"
      by (rule resting_begin [OF inv started(4) nt rechecked_visited [OF r started(1) loop_recheck_noted [OF r]]])
    ultimately show ?thesis
      using p low_begin [OF inv started(4) loose_nobody [OF cl aG] live] by (simp add: prepared_def)
  next
    case inner
    then show ?thesis using prepared_inner [OF rc inner(3) cl aG live' p] by simp
  qed (use p in simp)
qed

section \<open>Objects of a sealed set in the pass that answers\<close>

definition held_in_pass :: "addr \<Rightarrow> loop \<Rightarrow> bool" where
  "held_in_pass a w \<longleftrightarrow> resting a (core w)
     \<and> (case at_phase w of
          PTake j \<Rightarrow> coming (PTake j) (core w) a
        | PBegin v \<Rightarrow> tracked (core w) a \<noteq> None
        | PInner \<Rightarrow> tracked (core w) a \<noteq> None
        | PDrop cs \<Rightarrow> tracked (core w) a \<noteq> None
        | PAfter \<Rightarrow> tracked (core w) a \<noteq> None
        | _ \<Rightarrow> False)"

text \<open>Its last handle was dropped in this iteration, so the next one visits it.\<close>

definition just_dropped :: "addr \<Rightarrow> loop \<Rightarrow> bool" where
  "just_dropped a w \<longleftrightarrow> tracked (core w) a = Some DefaultState \<and> a \<in> set (counters_to_recheck w)
     \<and> (case at_phase w of
          PInner \<Rightarrow> at_cpc (core w) = CFreeing \<or> at_cpc (core w) = CIdle
        | PDrop cs \<Rightarrow> True
        | PAfter \<Rightarrow> True
        | _ \<Rightarrow> False)"

definition in_pass :: "addr \<Rightarrow> loop \<Rightarrow> bool" where
  "in_pass a w \<longleftrightarrow> (if tokens (core w) a = 0 then in_deep_pass a w \<or> just_dropped a w else held_in_pass a w)"

text \<open>A finite set of objects without a cycle of references has a member none of them refers to.\<close>

definition refers :: "loop \<Rightarrow> (addr \<times> addr) set" where
  "refers w = {(b, a). a \<in> set (data_handles w b) \<or> (\<exists>y. obj_at (core w) b = Some y \<and> weak_ref y = Some a)}"

lemma some_loose:
  assumes s: "sealed w G" and ac: "acyclic (refers w \<inter> G \<times> G)" and ne: "a \<in> G" and d: "dropping (at_phase w) = []"
  shows "\<exists>b\<in>G. tokens (core w) b = 0"
proof -
  note cl = sealedD(1) [OF s]
  have "a < length (heap (core w))" if "a \<in> G" for a
    using closedD(1) [OF cl that] by (auto simp: obj_at_def split: if_splits)
  then have "finite G" using finite_subset [of G "{..<length (heap (core w))}"] by auto
  then have "finite (refers w \<inter> G \<times> G)" by (intro finite_Int disjI2 finite_cartesian_product)
  then have "wf (refers w \<inter> G \<times> G)" using ac by (rule finite_acyclic_wf)
  then obtain b where b: "b \<in> G" "\<And>c. (c, b) \<in> refers w \<inter> G \<times> G \<Longrightarrow> c \<notin> G"
    using ne wfE_min [of "refers w \<inter> G \<times> G" a G] by metis
  have none: "(c, b) \<notin> refers w" if "c \<in> G" for c using b(2) [of c] b(1) that by blast
  have nd: "b \<notin> set (data_handles w c)" for c
    using none [of c] sealedD(3) [OF s b(1), of c] unfolding refers_def by blast
  have "weak_ref y \<noteq> Some b" if "obj_at (core w) c = Some y" for c y
    using none [of c] closedD(4) [OF cl b(1) that] that unfolding refers_def by blast
  then have nw: "no_weak_owner (core w) b" by (simp add: no_weak_owner_def)
  have "handles (core w) b = 0"
    using sealedD(2) [OF s b(1)] nd d by (simp add: held_in_data_def sum_list_zero_nat count_list_0_iff)
  moreover have "at_pc th \<noteq> LoadExit (Some b)" if "th \<in> set (thrs (core w))" for th
    using closedD(3) [OF cl b(1)] that by (auto simp: no_thread_has_def)
  ultimately have "tokens (core w) b = 0" using nw closedD(2) [OF cl b(1)] by (auto simp: tokens_zero)
  then show ?thesis using b(1) by blast
qed

lemma refers_step:
  assumes r: "loop_reach w" and st: "loop_step l w = Next w'" and s: "sealed w G" and lv: "leaves_alone G l w"
  shows "refers w' \<inter> left_of G w' \<times> left_of G w' \<subseteq> refers w \<inter> G \<times> G"
proof -
  have d: "set (data_handles w' b) \<subseteq> set (data_handles w b)" if b: "b \<in> G" for b
  proof (cases l)
    case (Collect i)
    then show ?thesis using st
      by (auto simp: collector_next_def take_shard_def begin_inner_def loop_head_def after_inner_def inner_step_def
          drop_next_def notify_next_def park_def bind_outcome_Next Let_def
          split: phase.splits if_splits option.splits list.splits)
  next
    case (ThreadStep k)
    then have t: "thread_step k w = Next w'" using st by simp
    have "data_handles w' = data_handles w" by (subst thread_cpc(2) [OF r t], simp)
    then show ?thesis by simp
  qed (use st lv b in \<open>auto simp: drop_panics_def park_times_out_def call_begin_def call_step_def put_into_data_def
      take_from_data_def split: phase.splits if_splits call_pc.splits\<close>)
  have o: "\<exists>y. obj_at (core w) b = Some y \<and> weak_ref y = weak_ref z" if b: "b \<in> G" and z: "obj_at (core w') b = Some z" for b z
  proof (cases "core w' = core w")
    case False
    show ?thesis
    proof (cases l)
      case (Collect i)
      then have cn: "collector_next i w = Next w'" using st by simp
      then show ?thesis
      proof (cases rule: collector_next_cases)
        case (dropped d rest)
        then show ?thesis using z closed_drop(3) [OF dropped(3) sealedD(1) [OF s]] unfolding pointers_kept_def by metis
      next
        case (take j)
        then show ?thesis using z take_same(1) [OF take(3)] by (simp add: obj_at_def split: if_splits)
      next
        case (started v)
        then show ?thesis using z begin_objects(1) by simp
      next
        case inner
        then show ?thesis using z pointers_kept_step [OF inner(3)] unfolding pointers_kept_def by metis
      qed (use False in simp)
    next
      case (ThreadStep k)
      then have "obj_at (core w') b = obj_at (core w) b" using sealed_thread(2) [OF r _ s, of k w' b] st lv b by simp
      then show ?thesis using z by metis
    qed (use st False in \<open>auto simp: drop_panics_def park_times_out_def call_begin_def call_step_def put_into_data_def
      take_from_data_def split: phase.splits if_splits call_pc.splits\<close>)
  qed (use z in simp)
  show ?thesis
  proof (rule subsetI, clarify)
    fix b a assume e: "(b, a) \<in> refers w'" "b \<in> left_of G w'" "a \<in> left_of G w'"
    then have G: "b \<in> G" "a \<in> G" by (simp_all add: left_of_def)
    have "(b, a) \<in> refers w" using e(1) d [OF G(1)] o [OF G(1)] by (fastforce simp: refers_def)
    then show "(b, a) \<in> refers w \<inter> G \<times> G" using G by simp
  qed
qed

lemma in_pass_thread:
  assumes r: "loop_reach w" and st: "thread_step l w = Next w'" and s: "sealed w G" and bo: "set (borrows l (core w)) \<inter> G = {}"
    and a: "a \<in> G" and p: "in_pass a w"
  shows "in_pass a w'"
proof -
  note e = thread_cpc [OF r st] and inv = loop_reach_inv [OF r] and cl = sealedD(1) [OF s]
  note same = gc_same_simps [OF e(1)] and t = prepared_thread [OF r st s bo a]
  have w': "at_phase w' = at_phase w" "counters_to_recheck w' = counters_to_recheck w" by (subst e(2), simp)+
  have live: "obj_at (core w) a \<noteq> None" by (rule closedD(1) [OF cl a])
  show ?thesis
  proof (cases "tokens (core w) a = 0")
    case True
    have "just_dropped a w' = just_dropped a w" by (simp add: just_dropped_def w' same cong: phase.case_cong)
    then show ?thesis
      using deep_thread [OF r st live loose_nobody [OF cl a True]] p True t(1) by (auto simp: in_pass_def)
  next
    case False
    then show ?thesis
      using p t(1,2) coming_thread [OF inv(1) e(4,3)]
      by (auto simp: in_pass_def held_in_pass_def w' same split: phase.splits)
  qed
qed

lemma in_deep_pass_loose:
  assumes r: "loop_reach w" and cn: "collector_next i w = Next w'" and s: "sealed w G" and a: "a \<in> left_of G w'"
    and z: "tokens (core w) a = 0" and c: "to_notify w \<noteq> []" and q: "\<not> at_limit w'"
  shows "tokens (core w') a = 0" "in_deep_pass a w \<Longrightarrow> in_deep_pass a w'"
proof -
  note cl = sealedD(1) [OF s]
  have aG: "a \<in> G" and live': "obj_at (core w') a \<noteq> None" using a by (simp_all add: left_of_def)
  note n = loose_nobody [OF cl aG z]
  have r': "loop_reach w'" using loop_reach_step [OF r, of "Collect i"] cn by simp
  show "in_deep_pass a w \<Longrightarrow> in_deep_pass a w'"
    using deep_collect [OF r cn closedD(1) [OF cl aG] n _ c live' q] by blast
  show "tokens (core w') a = 0"
    using cn
  proof (cases rule: collector_next_cases)
    case (dropped d rest)
    then have "a \<noteq> d" using z by (auto simp: sdarc_drop_def tokens_def split: if_splits)
    then show ?thesis
      using tokens_object [OF loop_reach_inv(1) [OF r] loop_reach_inv(1) [OF r'] closed_drop(2) [OF dropped(3) cl]] z by simp
  next
    case (take j)
    have "obj_at (core w') a = obj_at (core w) a" using take_same(1) [OF take(3)] by (simp add: obj_at_def)
    then show ?thesis using tokens_object [OF loop_reach_inv(1) [OF r] loop_reach_inv(1) [OF r']] z by simp
  next
    case (started v)
    show ?thesis
      using tokens_object [OF loop_reach_inv(1) [OF r] loop_reach_inv(1) [OF r'] begin_objects(1) [OF started(4)]] z by simp
  next
    case inner
    then show ?thesis using loose_stays [OF inner(3) n] by simp
  qed (use z in simp)
qed

lemma recheck_kept:
  assumes "collector_next i w = Next w'" and "at_phase w' = PInner \<or> (\<exists>cs. at_phase w' = PDrop cs)" and "at_phase w = PInner \<or> (\<exists>cs. at_phase w = PDrop cs)"
  shows "set (counters_to_recheck w) \<subseteq> set (counters_to_recheck w')"
  using assms
  by (auto simp: collector_next_def inner_step_def drop_next_def bind_outcome_Next Let_def set_insort_insert
      split: if_splits list.splits option.splits)

text \<open>The end of an iteration: while something of the set is left, there is something to re-check.\<close>

lemma in_pass_after:
  assumes r: "loop_reach w" and cn: "collector_next i w = Next w'" and s: "sealed w G" and a: "a \<in> G"
    and p: "\<And>b. b \<in> G \<Longrightarrow> in_pass b w" and c: "to_notify w \<noteq> []" and q: "\<not> at_limit w'"
    and ac: "acyclic (refers w \<inter> G \<times> G)" and ph: "at_phase w = PAfter"
  shows "in_pass a w'"
proof -
  let ?l = "set_extend (counters_to_recheck w) (new_to_recheck w)"
  note inv = loop_reach_inv [OF r] and cl = sealedD(1) [OF s]
  have idle: "at_cpc (core w) = CIdle" using loop_control [OF r] ph by (simp add: control_ok_def)
  then have td: "todo (core w) = []" "tofree (core w) = []" using gc_invD(9) [OF inv(2)] by simp_all
  have loose: "b \<in> set ?l \<and> stage (core w) b \<le> 4 \<and> tracked (core w) b \<noteq> None" if b: "b \<in> G" "tokens (core w) b = 0" for b
  proof -
    from p [OF b(1)] b(2) consider (deep) "in_deep_pass b w" | (dropped) "just_dropped b w" by (auto simp: in_pass_def)
    then show ?thesis
    proof cases
      case deep
      then have pre: "fading 4 b (core w)" "noted b (core w) (new_to_recheck w)" using ph by (simp_all add: in_deep_pass_def)
      then have sg: "stage (core w) b < 4" "tracked (core w) b \<noteq> None" using td idle by (simp_all add: fading_def)
      have "tracked (core w) b \<noteq> Some ReadyToFree" using gc_invD(4) [OF inv(2)] td by simp
      then have "tracked (core w) b = Some RequiresReChecking"
        using sg by (auto simp: stage_def split: option.splits tstate.splits)
      then show ?thesis using pre(2) td idle sg by (simp add: noted_def set_set_extend)
    next
      case dropped
      then show ?thesis by (simp add: just_dropped_def stage_simps set_set_extend)
    qed
  qed
  have "dropping (at_phase w) = []" using ph by (simp add: dropping_def)
  then obtain b where "b \<in> G" "tokens (core w) b = 0" using some_loose [OF s ac a] by blast
  then have "?l \<noteq> []" using loose by force
  then have w': "w' = (w\<lparr>counters_to_recheck := []\<rparr>)\<lparr>at_phase := PBegin (Some ?l), loop_counter := loop_counter w + 1\<rparr>"
    using cn ph c q by (auto simp: collector_next_def after_inner_def Let_def at_limit_def split: if_splits)
  show ?thesis
  proof (cases "tokens (core w) a = 0")
    case True
    then show ?thesis using loose [OF a True] by (simp add: w' in_pass_def in_deep_pass_def)
  next
    case False
    then show ?thesis using p [OF a] ph by (simp add: w' in_pass_def held_in_pass_def)
  qed
qed

lemma in_pass_drop:
  assumes r: "loop_reach w" and cn: "collector_next i w = Next w'" and s: "sealed w G" and a: "a \<in> left_of G w'"
    and p: "in_pass a w" and c: "to_notify w \<noteq> []" and q: "\<not> at_limit w'" and ph: "at_phase w = PDrop (d # rest)"
  shows "in_pass a w'"
proof -
  note inv = loop_reach_inv [OF r] and cl = sealedD(1) [OF s]
  have r': "loop_reach w'" using loop_reach_step [OF r, of "Collect i"] cn by simp
  have aG: "a \<in> G" and live': "obj_at (core w') a \<noteq> None" using a by (simp_all add: left_of_def)
  have w': "sdarc_drop d i (core w) = Next (core w')" "at_phase w' = PDrop rest"
    "counters_to_recheck w' = insort_insert d (counters_to_recheck w)"
    using cn ph by (auto simp: collector_next_def drop_next_def bind_outcome_Next)
  then have l: "\<not> is_collector (LDrop d i)" "step (LDrop d i) (core w) = Next (core w')" by simp_all
  note same = gc_same_simps [OF thread_effect [OF inv(1) l]]
  have fr: "at_cpc (core w) = CFreeing" using loop_control [OF r] ph by (simp add: control_ok_def)
  show ?thesis
  proof (cases "tokens (core w) a = 0")
    case True
    have "just_dropped a w \<Longrightarrow> just_dropped a w'" by (simp add: just_dropped_def w' same set_insort_insert ph)
    then show ?thesis using in_deep_pass_loose [OF r cn s a True c q] p True by (auto simp: in_pass_def)
  next
    case False
    then have h: "resting a (core w)" "tracked (core w) a \<noteq> None" using p ph by (simp_all add: in_pass_def held_in_pass_def)
    have h': "resting a (core w')" using resting_thread [OF inv(1) l closedD(3) [OF cl aG]] fr h(1) by blast
    show ?thesis
    proof (cases "tokens (core w') a = 0")
      case True
      have "a = d"
        using tokens_object [OF inv(1) loop_reach_inv(1) [OF r'] closed_drop(2) [OF w'(1) cl, of a]] True False by metis
      then have "just_dropped a w'"
        using last_drop(2) [OF loop_reach_inv(2) [OF r'] _ h' live'] h(2) fr
        by (simp add: just_dropped_def w' same set_insort_insert)
      then show ?thesis using True by (simp add: in_pass_def)
    next
      case False
      then show ?thesis using h' h(2) by (simp add: in_pass_def held_in_pass_def w' same)
    qed
  qed
qed

lemma freeing_stays:
  assumes "collector_step i s = Next s'" and "at_cpc s = CFreeing"
  shows "at_cpc s' = CFreeing \<or> at_cpc s' = CIdle"
  using assms by (auto simp: collector_step_def free_step_def deref_def drop_weak_inner_ref_def put_def
      split: if_splits option.splits list.splits)

lemma in_pass_inner:
  assumes r: "loop_reach w" and cn: "collector_next i w = Next w'" and s: "sealed w G" and a: "a \<in> left_of G w'"
    and p: "in_pass a w" and c: "to_notify w \<noteq> []" and q: "\<not> at_limit w'" and ph: "at_phase w = PInner" "at_cpc (core w) \<noteq> CIdle"
  shows "in_pass a w'"
proof -
  note inv = loop_reach_inv [OF r] and cl = sealedD(1) [OF s]
  have r': "loop_reach w'" using loop_reach_step [OF r, of "Collect i"] cn by simp
  note inv' = loop_reach_inv [OF r']
  have aG: "a \<in> G" and live': "obj_at (core w') a \<noteq> None" using a by (simp_all add: left_of_def)
  have st: "collector_step i (core w) = Next (core w')"
    using cn ph by (auto simp: collector_next_def inner_step_def bind_outcome_Next Let_def split: if_splits)
  have ph': "at_phase w' = PInner \<or> (\<exists>cs. at_phase w' = PDrop cs)"
    using cn ph by (auto simp: collector_next_def inner_step_def bind_outcome_Next Let_def split: if_splits)
  have mono: "set (counters_to_recheck w) \<subseteq> set (counters_to_recheck w')" using recheck_kept [OF cn ph'] ph by simp
  obtain k where k: "step k (core w) = Next (core w')" using collector_step_is_step [OF st] by blast
  show ?thesis
  proof (cases "tokens (core w) a = 0")
    case True
    have "just_dropped a w'" if d: "just_dropped a w"
    proof -
      have t: "tracked (core w) a = Some DefaultState" "at_cpc (core w) = CFreeing" and m: "a \<in> set (counters_to_recheck w)"
        using d ph by (auto simp: just_dropped_def)
      then have nf: "a \<notin> set (tofree (core w))" using gc_invD(4) [OF inv(2), of a] by simp
      then have hd: "tofree (core w) = [] \<or> hd (tofree (core w)) \<noteq> a" by (cases "tofree (core w)") auto
      have "tracked (core w') a = Some DefaultState" using elsewhere_step [OF st _ _ hd] t by simp
      moreover have "at_cpc (core w') = CFreeing \<or> at_cpc (core w') = CIdle"
        by (rule freeing_stays [OF st t(2)])
      ultimately show ?thesis using m mono ph' by (auto simp: just_dropped_def)
    qed
    then show ?thesis using in_deep_pass_loose [OF r cn s a True c q] p True by (auto simp: in_pass_def)
  next
    case False
    then have h: "resting a (core w)" "tracked (core w) a \<noteq> None" using p ph by (simp_all add: in_pass_def held_in_pass_def)
    have h': "resting a (core w')" by (rule resting_step [OF st inv inv'(2) _ h(1)]) (use False in simp)
    have t': "tracked (core w') a \<noteq> None" by (rule tracked_stays [OF inv inv'(2) k h(2) live'])
    show ?thesis
    proof (cases "tokens (core w') a = 0")
      case True
      then obtain b rest x where b: "at_cpc (core w) = CFreeing" "at_cpc (core w') = CFreeing" "tofree (core w) = b # rest"
        "obj_at (core w) b = Some x" "weak_ref x = Some a"
        using collector_tokens [OF st inv(1) inv'(1) inv(2) h(1) live'] False by auto
      then have "a \<in> set (counters_to_recheck w')" "\<exists>cs. at_phase w' = PDrop cs"
        using cn ph by (auto simp: collector_next_def inner_step_def bind_outcome_Next Let_def set_insort_insert)
      then have "just_dropped a w'"
        using last_drop(2) [OF inv'(2) b(2) h' live'] t' by (auto simp: just_dropped_def)
      then show ?thesis using True by (simp add: in_pass_def)
    next
      case False
      then show ?thesis using h' t' ph' by (auto simp: in_pass_def held_in_pass_def)
    qed
  qed
qed

lemma in_pass_collect:
  assumes r: "loop_reach w" and cn: "collector_next i w = Next w'" and s: "sealed w G" and a: "a \<in> left_of G w'"
    and p: "\<And>b. b \<in> G \<Longrightarrow> in_pass b w" and c: "to_notify w \<noteq> []" and q: "\<not> at_limit w'"
    and ac: "acyclic (refers w \<inter> G \<times> G)"
  shows "in_pass a w'"
proof -
  note inv = loop_reach_inv [OF r] and cl = sealedD(1) [OF s]
  have r': "loop_reach w'" using loop_reach_step [OF r, of "Collect i"] cn by simp
  have aG: "a \<in> G" and live': "obj_at (core w') a \<noteq> None" using a by (simp_all add: left_of_def)
  note pa = p [OF aG]
  have nt: "no_thread_has (core w) a" by (rule closedD(3) [OF cl aG])
  have same: "in_pass a w'" if o: "obj_at (core w') a = obj_at (core w) a"
    and d: "\<not> just_dropped a w" and h: "held_in_pass a w \<Longrightarrow> held_in_pass a w'"
  proof -
    have "tokens (core w') a = tokens (core w) a"
      by (rule tokens_object [OF inv(1) loop_reach_inv(1) [OF r'] o])
    then show ?thesis using in_deep_pass_loose(2) [OF r cn s a _ c q] pa d h by (auto simp: in_pass_def split: if_splits)
  qed
  show ?thesis
  proof (cases "at_phase w")
    case (PTake j)
    have nd: "\<not> just_dropped a w" by (simp add: just_dropped_def PTake)
    show ?thesis
    proof (cases "j < nshards (core w)")
      case True
      then have w': "take_new_counters_to_track j (core w) = Next (core w')" "at_phase w' = PTake (Suc j)"
        using cn PTake by (auto simp: collector_next_def take_shard_def bind_outcome_Next)
      have "held_in_pass a w'" if "held_in_pass a w"
        using that coming_take [OF inv(2) _ w'(1)] res_invD(1) [OF inv(1)] take_same(2) [OF w'(1)]
        by (simp add: held_in_pass_def PTake w'(2) resting_def)
      then show ?thesis using same nd take_same(1) [OF w'(1)] by (simp add: obj_at_def)
    next
      case False
      then have w': "core w' = core w" "at_phase w' = PBegin None"
        using cn PTake by (auto simp: collector_next_def take_shard_def)
      show ?thesis by (rule same) (use w' nd False in \<open>auto simp: held_in_pass_def PTake coming_def\<close>)
    qed
  next
    case (PBegin v)
    have nd: "\<not> just_dropped a w" by (simp add: just_dropped_def PBegin)
    have w': "begin_iteration (case v of None \<Rightarrow> tracked_keys (core w) | Some l \<Rightarrow> l) (core w) = Next (core w')"
      "at_phase w' = PInner"
      using cn PBegin by (auto simp: collector_next_def begin_inner_def bind_outcome_Next)
    have "resting a (core w')"
      by (rule resting_begin [OF inv w'(1) nt rechecked_visited [OF r PBegin loop_recheck_noted [OF r]]])
    then show ?thesis
      using same nd begin_objects(1) [OF w'(1)] begin_same(2) [OF w'(1)] by (simp add: held_in_pass_def PBegin w'(2))
  next
    case PInner
    show ?thesis
    proof (cases "at_cpc (core w) = CIdle")
      case True
      then have "w' = w\<lparr>at_phase := PAfter\<rparr>" using cn PInner by (simp add: collector_next_def inner_step_def)
      then show ?thesis using pa PInner by (auto simp: in_pass_def in_deep_pass_def just_dropped_def held_in_pass_def)
    qed (rule in_pass_inner [OF r cn s a pa c q PInner])
  next
    case (PDrop cs)
    show ?thesis
    proof (cases cs)
      case Nil
      have "at_cpc (core w) = CFreeing" using loop_control [OF r] PDrop by (simp add: control_ok_def)
      moreover have "w' = w\<lparr>at_phase := PInner\<rparr>" using cn PDrop Nil by (simp add: collector_next_def drop_next_def)
      ultimately show ?thesis using pa PDrop by (auto simp: in_pass_def in_deep_pass_def just_dropped_def held_in_pass_def)
    next
      case (Cons d rest)
      then show ?thesis using in_pass_drop [OF r cn s a pa c q] PDrop by simp
    qed
  next
    case PAfter
    then show ?thesis using in_pass_after [OF r cn s aG p c q ac] by blast
  qed (use pa in \<open>simp_all add: in_pass_def in_deep_pass_def just_dropped_def held_in_pass_def split: if_splits\<close>)
qed

section \<open>A lost structure is freed by the pass that answers\<close>

definition answering :: "nat \<Rightarrow> addr \<Rightarrow> loop \<Rightarrow> bool" where
  "answering c a w \<longleftrightarrow> (\<exists>G. a \<in> G \<and> sealed w G \<and> acyclic (refers w \<inter> G \<times> G)
     \<and> (c \<in> set (collection_waiting w) \<and> (\<forall>b\<in>G. prepared b (core w)) \<or> c \<in> set (to_notify w) \<and> (\<forall>b\<in>G. in_pass b w)))"

lemma in_pass_same:
  assumes "core w' = core w" and "at_phase w' = at_phase w" and "new_to_recheck w' = new_to_recheck w"
    and "counters_to_recheck w' = counters_to_recheck w"
  shows "in_pass a w' = in_pass a w"
  by (simp add: in_pass_def in_deep_pass_def just_dropped_def held_in_pass_def assms cong: phase.case_cong option.case_cong)

lemma in_pass_begins:
  assumes r: "loop_reach w" and cn: "collector_next i w = Next w'" and p: "at_phase w = PTop" and s: "sealed w G" and b: "b \<in> G"
    and pr: "prepared b (core w)"
  shows "to_notify w' = collection_waiting w" "in_pass b w'"
proof -
  have w': "core w' = core w" "at_phase w' = PTake 0" "to_notify w' = collection_waiting w"
    using cn p by (auto simp: collector_next_def loop_head_def split: if_splits)
  have "coming (PTake 0) (core w) b" by (rule coming_begin [OF loop_reach_inv [OF r] closedD(1) [OF sealedD(1) [OF s] b]])
  then show "in_pass b w'"
    using pr by (auto simp: in_pass_def in_deep_pass_def held_in_pass_def prepared_def w' split: if_splits)
  show "to_notify w' = collection_waiting w" by (rule w'(3))
qed

lemma answering_collect:
  assumes r: "loop_reach w" and cn: "collector_next i w = Next w'" and s: "sealed w G" and q: "\<not> at_limit w'"
    and ac: "acyclic (refers w \<inter> G \<times> G)" and a: "a \<in> G"
    and w: "c \<in> set (collection_waiting w) \<and> (\<forall>b\<in>G. prepared b (core w)) \<or> c \<in> set (to_notify w) \<and> (\<forall>b\<in>G. in_pass b w)"
  shows "c \<in> set (collection_waiting w') \<and> (\<forall>b\<in>left_of G w'. prepared b (core w'))
    \<or> c \<in> set (to_notify w') \<and> (\<forall>b\<in>left_of G w'. in_pass b w')"
proof -
  consider (top) "c \<in> set (collection_waiting w)" "\<forall>b\<in>G. prepared b (core w)" "at_phase w = PTop"
    | (wait) "c \<in> set (collection_waiting w)" "\<forall>b\<in>G. prepared b (core w)" "at_phase w \<noteq> PTop"
    | (deep) "c \<in> set (to_notify w)" "\<forall>b\<in>G. in_pass b w"
    using w by blast
  then show ?thesis
  proof cases
    case top
    have l: "b \<in> left_of G w' \<Longrightarrow> b \<in> G" for b by (simp add: left_of_def)
    then show ?thesis using in_pass_begins [OF r cn top(3) s] top a by metis
  next
    case wait
    have "collection_waiting w' = collection_waiting w"
      using cn wait(3) by (auto simp: collector_next_def take_shard_def begin_inner_def inner_step_def drop_next_def
          after_inner_def notify_next_def park_def bind_outcome_Next Let_def split: phase.splits if_splits list.splits)
    moreover have "prepared b (core w')" if "b \<in> left_of G w'" for b
      using prepared_collect [OF r cn s that] wait(2) that by (simp add: left_of_def)
    ultimately show ?thesis using wait(1) by simp
  next
    case deep
    have "in_pass a w" using deep(2) a by blast
    then have "\<exists>j. at_phase w = PTake j \<or> at_phase w \<in> {PInner, PAfter} \<or> (\<exists>v. at_phase w = PBegin v) \<or> (\<exists>cs. at_phase w = PDrop cs)"
      by (cases "at_phase w") (auto simp: in_pass_def in_deep_pass_def just_dropped_def held_in_pass_def split: if_splits)
    then have "to_notify w' = to_notify w"
      using cn by (auto simp: collector_next_def take_shard_def begin_inner_def inner_step_def
          drop_next_def after_inner_def bind_outcome_Next Let_def split: if_splits list.splits)
    moreover have "to_notify w \<noteq> []" using deep(1) by auto
    ultimately show ?thesis using in_pass_collect [OF r cn s _ _ _ q ac] deep by simp
  qed
qed

lemma answering_step:
  assumes r: "loop_reach w" and st: "loop_step l w = Next w'" and b: "borrow_checked l w" and aw: "answering c a w"
    and live: "obj_at (core w') a \<noteq> None" and q: "\<not> at_limit w'"
  shows "answering c a w'"
proof -
  obtain G where G: "a \<in> G" "sealed w G" "acyclic (refers w \<inter> G \<times> G)"
    and w: "c \<in> set (collection_waiting w) \<and> (\<forall>b\<in>G. prepared b (core w)) \<or> c \<in> set (to_notify w) \<and> (\<forall>b\<in>G. in_pass b w)"
    using aw unfolding answering_def by blast
  note lv = borrow_checked_leaves [OF G(2) b]
  have G': "a \<in> left_of G w'" "sealed w' (left_of G w')" "acyclic (refers w' \<inter> left_of G w' \<times> left_of G w')"
    using G(1) live sealed_step [OF r st G(2) lv] acyclic_subset [OF G(3) refers_step [OF r st G(2) lv]]
    by (simp_all add: left_of_def)
  have sub: "b \<in> left_of G w' \<Longrightarrow> b \<in> G" for b by (simp add: left_of_def)
  have same: "c \<in> set (collection_waiting w') \<and> (\<forall>b\<in>left_of G w'. prepared b (core w'))
      \<or> c \<in> set (to_notify w') \<and> (\<forall>b\<in>left_of G w'. in_pass b w')"
    if "core w' = core w \<and> at_phase w' = at_phase w \<and> new_to_recheck w' = new_to_recheck w
      \<and> counters_to_recheck w' = counters_to_recheck w \<and> to_notify w' = to_notify w
      \<and> set (collection_waiting w) \<subseteq> set (collection_waiting w')"
  proof -
    have "in_pass b w' = in_pass b w" for b using in_pass_same that by blast
    then show ?thesis using w sub that by auto
  qed
  have "c \<in> set (collection_waiting w') \<and> (\<forall>b\<in>left_of G w'. prepared b (core w'))
      \<or> c \<in> set (to_notify w') \<and> (\<forall>b\<in>left_of G w'. in_pass b w')"
  proof (cases l)
    case (Collect i)
    then show ?thesis using answering_collect [OF r _ G(2) q G(3,1) w] st by simp
  next
    case (ThreadStep k)
    then have t: "thread_step k w = Next w'" and bo: "set (borrows k (core w)) \<inter> G = {}" using st lv by simp_all
    have "collection_waiting w' = collection_waiting w" "to_notify w' = to_notify w"
      by (subst thread_cpc(2) [OF r t], simp)+
    then show ?thesis
      using w sub prepared_thread(3) [OF r t G(2) bo] in_pass_thread [OF r t G(2) bo] by auto
  next
    case TimeOut
    then have "at_phase w = PPark" "w' = w\<lparr>park_token := False, at_phase := PTop\<rparr>"
      using st by (auto simp: park_times_out_def split: if_splits)
    then show ?thesis
      using w sub G(1) by (auto simp: in_pass_def in_deep_pass_def just_dropped_def held_in_pass_def split: if_splits)
  next
    case CallBegin
    show ?thesis by (rule same) (use st CallBegin in \<open>auto simp: call_begin_def\<close>)
  next
    case (CallStep e)
    show ?thesis by (rule same) (use st CallStep in \<open>auto simp: call_step_def split: if_splits call_pc.splits\<close>)
  next
    case (PutIntoData b e)
    show ?thesis by (rule same) (use st PutIntoData in \<open>auto simp: put_into_data_def split: if_splits\<close>)
  next
    case (TakeFromData b e)
    show ?thesis by (rule same) (use st TakeFromData in \<open>auto simp: take_from_data_def split: if_splits\<close>)
  qed (use lv in simp)
  then show ?thesis using G' unfolding answering_def by blast
qed

lemma holds_until_safe:
  assumes step: "\<And>w l w'. \<lbrakk>loop_reach w; loop_step l w = Next w'; borrow_checked l w; I w; \<not> Q w'\<rbrakk> \<Longrightarrow> I w'"
    and "loop_reach w" and "loop_run ls w = Next w'" and "safe_run ls w" and "I w" and "\<not> I w'"
  shows "loop_sometime Q ls w"
  using assms(2-6)
proof (induction ls arbitrary: w)
  case (Cons l ls)
  obtain w1 where w1: "loop_step l w = Next w1" "loop_run ls w1 = Next w'"
    using Cons.prems(2) by (auto split: outcome.splits)
  have b: "borrow_checked l w" "safe_run ls w1" using Cons.prems(3) w1(1) by simp_all
  have "loop_sometime Q ls w1"
  proof (cases "Q w1")
    case True
    then show ?thesis by (cases ls) simp_all
  next
    case False
    show ?thesis
      using Cons.IH [OF loop_reach_step [OF Cons.prems(1) w1(1)] w1(2) b(2) _ Cons.prems(5)]
        step [OF Cons.prems(1) w1(1) b(1) Cons.prems(4) False] by blast
  qed
  then show ?case using w1(1) by simp
qed simp


section \<open>A concrete execution\<close>

text \<open>
  Object 0 holds object 1, which holds object 3; the handle to object 0 is dropped, object 2 is in
  use. The pass that answers the caller frees the three, one after the other, while object 2 is
  cloned and dropped.
\<close>

definition chain_trace :: "loop_label list" where
  "chain_trace = map ThreadStep [LNew 0 0 0, LNew 1 0 0, LNew 2 0 0, LNew 3 0 0]
     @ [PutIntoData 1 3, PutIntoData 0 1, ThreadStep (LDrop 0 0), CallBegin, CallStep 0]"

definition chain_world :: loop where
  "chain_world = after (loop_run chain_trace (loop_start 1 4 1))"

definition freeing_trace :: "loop_label list" where
  "freeing_trace = [CallStep 0, CallStep 0] @ replicate 20 (Collect 0) @ [ThreadStep (LClone 2 0)]
     @ replicate 20 (Collect 0) @ [ThreadStep (LDrop 2 0)] @ replicate 50 (Collect 0)"

text \<open>Whoever borrows only what is in the hands of threads respects the borrow checker.\<close>

fun clearly_safe :: "loop_label list \<Rightarrow> loop \<Rightarrow> bool" where
  "clearly_safe [] w = True"
| "clearly_safe (l # ls) w =
     ((case l of
         ThreadStep k \<Rightarrow> list_all (\<lambda>a. held_in_data w a < handles (core w) a) (borrows k (core w))
       | PutIntoData b c \<Rightarrow> held_in_data w b < handles (core w) b
       | TakeFromData b c \<Rightarrow> held_in_data w b < handles (core w) b
       | DropPanics \<Rightarrow> False
       | _ \<Rightarrow> True)
      \<and> (case loop_step l w of Next w' \<Rightarrow> clearly_safe ls w' | _ \<Rightarrow> True))"

lemma clearly_safe_run: "clearly_safe ls w \<Longrightarrow> safe_run ls w"
proof (induction ls arbitrary: w)
  case (Cons l ls)
  have "borrow_checked l w" using Cons.prems by (cases l) (auto simp: list_all_iff intro: accessible.in_hands)
  then show ?case using Cons by (auto split: outcome.splits)
qed simp

lemma chain_facts:
  "loop_reach chain_world" "\<And>b. b \<in> lost chain_world \<Longrightarrow> tracked (core chain_world) b = None"
  "a \<in> {0, 1, 3} \<Longrightarrow> a \<in> lost chain_world" "\<And>a b. (b, a) \<in> refers chain_world \<Longrightarrow> b < a"
proof -
  have ok: "is_next (loop_run chain_trace (loop_start 1 4 1))" by code_simp
  then have "loop_run chain_trace (loop_start 1 4 1) = Next chain_world"
    by (cases "loop_run chain_trace (loop_start 1 4 1)") (simp_all add: chain_world_def)
  then show r: "loop_reach chain_world" by (rule collector_loop.execution_reaches [OF loop_reach_start, rotated]) simp
  have z: "map (data_handles chain_world) [0, 1, 2, 3] = [[1], [3], [], []]"
    "cells (core chain_world) = [None]" "thrs (core chain_world) = []" "length (heap (core chain_world)) = 4"
    "map (map_option (\<lambda>x. (weak_ref x, back_ref x))) (heap (core chain_world)) = replicate 4 (Some (None, None))"
    "map (tracked (core chain_world)) [0, 1, 2, 3] = [None, None, None, None]"
    "map (\<lambda>a. handles (core chain_world) a - held_in_data chain_world a) [0, 1, 3] = [0, 0, 0]"
    unfolding chain_world_def by code_simp+
  have four: "b \<in> {0, 1, 2, 3}" if "b < 4" for b :: nat using that by auto
  have dead: "data_handles chain_world b = []" if "\<not> b < 4" for b
    using loop_data_alive [OF r] that z(4) by (auto simp: data_alive_def obj_at_def)
  have weak: "weak_ref y = None \<and> back_ref y = None" if "obj_at (core chain_world) b = Some y" for b y
  proof -
    have "Some (weak_ref y, back_ref y) \<in> set (map (map_option (\<lambda>x. (weak_ref x, back_ref x))) (heap (core chain_world)))"
      using heap_obj_at [OF that] nth_mem [OF obj_at_less [OF that]] by force
    then show ?thesis unfolding z(5) by auto
  qed
  show below: "b < a" if "(b, a) \<in> refers chain_world" for a b
    using that weak z(1) dead [of b] four [of b] by (cases "b < 4") (auto simp: refers_def)
  have alive: "obj_at (core chain_world) b \<noteq> None \<longleftrightarrow> b < 4" for b
  proof (cases "b < 4")
    case True
    have "map (map_option (\<lambda>x. (weak_ref x, back_ref x))) (heap (core chain_world)) ! b = Some (None, None)"
      unfolding z(5) using True by simp
    then have "heap (core chain_world) ! b \<noteq> None" using True z(4) by auto
    then show ?thesis using True z(4) by (simp add: obj_at_def)
  qed (simp add: obj_at_def z(4))
  show "tracked (core chain_world) b = None" if "b \<in> lost chain_world" for b
    using that alive [of b] four [of b] z(6) by (auto simp: lost_def)
  have held: "held_in_data chain_world b = handles (core chain_world) b" if "b \<in> {0, 1, 3}" for b
  proof -
    have "handles (core chain_world) b - held_in_data chain_world b = 0" using z(7) that by auto
    moreover have "held_in_data chain_world b \<le> handles (core chain_world) b" using loop_held [OF r] by (simp add: held_ok_def)
    ultimately show ?thesis by simp
  qed
  have "closed (core chain_world) {0, 1, 3}"
    using alive weak by (auto simp: closed_def no_thread_has_def z(2,3))
  moreover have "b \<in> {0, 1, 3}" if "a \<in> set (data_handles chain_world b)" for a b
    using that z(1) dead [of b] four [of b] by (cases "b < 4") auto
  ultimately have "sealed chain_world {0, 1, 3}" using held unfolding sealed_def by blast
  then show "a \<in> lost chain_world" if "a \<in> {0, 1, 3}"
    using sealed_inaccessible that alive [of a] by (auto simp: lost_def)
qed


section \<open>Why no lost object may be left for re-checking with a tag set\<close>

text \<open>
  A handle moves between two shards while the collector reads their counters: it sees zero both times
  and leaves the living object for re-checking. Then its last handle is dropped, with a tag.
\<close>

definition moves :: "nat \<Rightarrow> nat \<Rightarrow> loop_label list" where
  "moves i j = [ThreadStep (LClone 0 i), ThreadStep (LDrop 0 j)]"

definition racing_trace :: "loop_label list" where
  "racing_trace = ThreadStep (LNew 0 1 0) # replicate 9 (Collect 0) @ moves 0 1 @ replicate 2 (Collect 0) @ moves 1 0
     @ [Collect 0] @ moves 0 1 @ replicate 7 (Collect 0) @ [ThreadStep (LDrop 0 0)]"

definition call_trace :: "loop_label list" where
  "call_trace = CallBegin # replicate 3 (CallStep 0) @ replicate 15 (Collect 0) @ [CallStep 0]"

text \<open>
  C18: a call of \<open>collector_update_now_and_wait\<close> that begins after the last reference to an object was
  dropped may return with the object still there, though the pass did not give up. The object was
  left for re-checking by an earlier pass; the pass that answers the call finds the tag of the drop,
  puts the object back in the default state, and has nothing to re-check.
\<close>

theorem call_may_leave_garbage:
  "\<exists>w w'. loop_reach w \<and> forgotten (core w) 0 \<and> calls w = [] \<and> loop_run call_trace w = Next w' \<and> calls w' = [CallDone]
     \<and> obj_at (core w') 0 \<noteq> None \<and> tracked (core w') 0 = Some DefaultState \<and> loop_counter w' = 0"
proof -
  define w where "w = after (loop_run racing_trace (loop_start 2 1 0))"
  define w' where "w' = after (loop_run call_trace w)"
  have ok: "is_next (loop_run racing_trace (loop_start 2 1 0))" "is_next (loop_run call_trace w)" "calls w = []"
    "calls w' = [CallDone]" "obj_at (core w') 0 \<noteq> None" "tracked (core w') 0 = Some DefaultState" "loop_counter w' = 0"
    "tokens (core w) 0 = 0" "thrs (core w) = []" "map (map_option back_ref) (heap (core w)) = [Some None]"
    unfolding w'_def w_def by code_simp+
  have run: "loop_run racing_trace (loop_start 2 1 0) = Next w" "loop_run call_trace w = Next w'"
    using ok(1,2) by (simp_all add: w_def w'_def outcome.collapse(4))
  have r: "loop_reach w" by (rule collector_loop.execution_reaches [OF loop_reach_start run(1)]) simp
  have "back_ref y \<noteq> Some 0" if "obj_at (core w) v = Some y" for v y
  proof -
    have "Some (back_ref y) \<in> set (map (map_option back_ref) (heap (core w)))"
      using heap_obj_at [OF that] nth_mem [OF obj_at_less [OF that]] by force
    then show ?thesis unfolding ok(10) by auto
  qed
  then have "forgotten (core w) 0" using ok(8,9) by (simp add: forgotten_def nobody_has_def no_thread_has_def)
  then show ?thesis using r run(2) ok(3-7) by blast
qed

end
