(* ===== verification/ShardedRwLock.thy ===== *)
theory ShardedRwLock
  imports Prelude
begin

text \<open>
  \<open>src/src/sharded_rwlock.rs\<close>: one lock per shard, readers take the lock of their current shard,
  a writer takes all of them in order. The locks are \<open>parking_lot\<close>'s and so a parameter, with what
  its documentation promises as the contract. Acquiring and releasing one lock is one step, so
  readers and writers interleave.
\<close>

section \<open>The lock of one shard\<close>

record 'l rwlock_ops =
  new_lock :: 'l
  try_read_lock :: "'l \<Rightarrow> 'l option"
  try_write_lock :: "'l \<Rightarrow> 'l option"
  read_unlock :: "'l \<Rightarrow> 'l"
  write_unlock :: "'l \<Rightarrow> 'l"
  readers :: "'l \<Rightarrow> nat"
  writer :: "'l \<Rightarrow> bool"

text \<open>
  Any number of readers or one writer; a free lock can be taken for writing. (A reader may be
  refused without a writer holding the lock, when one is waiting.)
\<close>

definition rwlock_contract :: "'l rwlock_ops \<Rightarrow> bool" where
  "rwlock_contract ops \<longleftrightarrow>
     readers ops (new_lock ops) = 0 \<and> \<not> writer ops (new_lock ops)
     \<and> (\<forall>l l'. try_read_lock ops l = Some l' \<longrightarrow>
          \<not> writer ops l \<and> \<not> writer ops l' \<and> readers ops l' = readers ops l + 1)
     \<and> (\<forall>l l'. try_write_lock ops l = Some l' \<longrightarrow>
          \<not> writer ops l \<and> readers ops l = 0 \<and> writer ops l' \<and> readers ops l' = 0)
     \<and> (\<forall>l. \<not> writer ops l \<longrightarrow> readers ops l = 0 \<longrightarrow> try_write_lock ops l \<noteq> None)
     \<and> (\<forall>l. readers ops l > 0 \<longrightarrow> readers ops (read_unlock ops l) = readers ops l - 1
          \<and> writer ops (read_unlock ops l) = writer ops l)
     \<and> (\<forall>l. writer ops l \<longrightarrow> \<not> writer ops (write_unlock ops l) \<and> readers ops (write_unlock ops l) = readers ops l)"

section \<open>State\<close>

text \<open>
  The life of one guard: a reader on a shard, a writer inside the loop of \<open>write\<close> with the locks
  below \<open>k\<close> taken, a writer with its guard, and the drop of that guard with the locks below \<open>k\<close>
  released.
\<close>

datatype guard =
    NoGuard
  | ReadGuard nat
  | WriteLocking nat
  | WriteGuard
  | WriteUnlocking nat

record ('l, 'v) sharded_rwlock =
  data_value :: 'v
  locks :: "'l list"
  users :: "guard list"

definition new_sharded_rwlock :: "'l rwlock_ops \<Rightarrow> nat \<Rightarrow> nat \<Rightarrow> 'v \<Rightarrow> ('l, 'v) sharded_rwlock" where
  "new_sharded_rwlock ops n m v =
     \<lparr>data_value = v, locks = replicate n (new_lock ops), users = replicate m NoGuard\<rparr>"

section \<open>Operations\<close>

definition set_user :: "nat \<Rightarrow> guard \<Rightarrow> ('l, 'v) sharded_rwlock \<Rightarrow> ('l, 'v) sharded_rwlock" where
  "set_user c g s = s\<lparr>users := (users s)[c := g]\<rparr>"

definition set_lock :: "nat \<Rightarrow> 'l \<Rightarrow> ('l, 'v) sharded_rwlock \<Rightarrow> ('l, 'v) sharded_rwlock" where
  "set_lock i l s = s\<lparr>locks := (locks s)[i := l]\<rparr>"

definition user_is :: "nat \<Rightarrow> guard \<Rightarrow> ('l, 'v) sharded_rwlock \<Rightarrow> bool" where
  "user_is c g s \<longleftrightarrow> c < length (users s) \<and> users s ! c = g"

text \<open>\<open>read\<close> on current shard \<open>i\<close>; it waits while the lock refuses.\<close>

definition read_lock :: "'l rwlock_ops \<Rightarrow> nat \<Rightarrow> nat \<Rightarrow> ('l, 'v) sharded_rwlock \<Rightarrow> ('l, 'v) sharded_rwlock outcome" where
  "read_lock ops c i s =
     (if user_is c NoGuard s \<and> i < length (locks s)
      then case try_read_lock ops (locks s ! i) of
             None \<Rightarrow> Disabled
           | Some l \<Rightarrow> Next (set_user c (ReadGuard i) (set_lock i l s))
      else Disabled)"

text \<open>\<open>try_read\<close> with its result: whether a guard was given.\<close>

definition try_read :: "'l rwlock_ops \<Rightarrow> nat \<Rightarrow> nat \<Rightarrow> ('l, 'v) sharded_rwlock \<Rightarrow> (bool \<times> ('l, 'v) sharded_rwlock) outcome" where
  "try_read ops c i s =
     (if user_is c NoGuard s \<and> i < length (locks s)
      then case try_read_lock ops (locks s ! i) of
             None \<Rightarrow> Next (False, s)
           | Some l \<Rightarrow> Next (True, set_user c (ReadGuard i) (set_lock i l s))
      else Disabled)"

definition drop_read_guard :: "'l rwlock_ops \<Rightarrow> nat \<Rightarrow> ('l, 'v) sharded_rwlock \<Rightarrow> ('l, 'v) sharded_rwlock outcome" where
  "drop_read_guard ops c s =
     (if c < length (users s)
      then case users s ! c of
             ReadGuard i \<Rightarrow> Next (set_user c NoGuard (set_lock i (read_unlock ops (locks s ! i)) s))
           | _ \<Rightarrow> Disabled
      else Disabled)"

text \<open>\<open>write\<close>: the call, one round of its loop, the guard it returns.\<close>

definition write_start :: "nat \<Rightarrow> ('l, 'v) sharded_rwlock \<Rightarrow> ('l, 'v) sharded_rwlock outcome" where
  "write_start c s = (if user_is c NoGuard s then Next (set_user c (WriteLocking 0) s) else Disabled)"

definition write_lock :: "'l rwlock_ops \<Rightarrow> nat \<Rightarrow> ('l, 'v) sharded_rwlock \<Rightarrow> ('l, 'v) sharded_rwlock outcome" where
  "write_lock ops c s =
     (if c < length (users s)
      then case users s ! c of
             WriteLocking k \<Rightarrow>
               if k < length (locks s)
               then case try_write_lock ops (locks s ! k) of
                      None \<Rightarrow> Disabled
                    | Some l \<Rightarrow> Next (set_user c (WriteLocking (Suc k)) (set_lock k l s))
               else Next (set_user c WriteGuard s)
           | _ \<Rightarrow> Disabled
      else Disabled)"

text \<open>\<open>Drop for WriteGuardOfShardedRwLock\<close>: the start and one round of its loop.\<close>

definition drop_write_guard :: "'l rwlock_ops \<Rightarrow> nat \<Rightarrow> ('l, 'v) sharded_rwlock \<Rightarrow> ('l, 'v) sharded_rwlock outcome" where
  "drop_write_guard ops c s =
     (if c < length (users s)
      then case users s ! c of
             WriteGuard \<Rightarrow> Next (set_user c (WriteUnlocking 0) s)
           | WriteUnlocking k \<Rightarrow>
               if k < length (locks s)
               then Next (set_user c (WriteUnlocking (Suc k)) (set_lock k (write_unlock ops (locks s ! k)) s))
               else Next (set_user c NoGuard s)
           | _ \<Rightarrow> Disabled
      else Disabled)"

text \<open>\<open>Deref\<close> of both guards and \<open>DerefMut\<close> of the write guard.\<close>

definition guard_value :: "nat \<Rightarrow> ('l, 'v) sharded_rwlock \<Rightarrow> 'v option" where
  "guard_value c s =
     (if c < length (users s)
      then case users s ! c of ReadGuard i \<Rightarrow> Some (data_value s) | WriteGuard \<Rightarrow> Some (data_value s) | _ \<Rightarrow> None
      else None)"

definition guard_update :: "nat \<Rightarrow> ('v \<Rightarrow> 'v) \<Rightarrow> ('l, 'v) sharded_rwlock \<Rightarrow> ('l, 'v) sharded_rwlock outcome" where
  "guard_update c f s =
     (if user_is c WriteGuard s then Next (s\<lparr>data_value := f (data_value s)\<rparr>) else Disabled)"

datatype 'v rw_label =
    RwRead nat nat
  | RwTryRead nat nat
  | RwDropRead nat
  | RwWriteStart nat
  | RwWriteLock nat
  | RwDropWrite nat
  | RwUpdate nat "'v \<Rightarrow> 'v"

fun rw_step :: "'l rwlock_ops \<Rightarrow> 'v rw_label \<Rightarrow> ('l, 'v) sharded_rwlock \<Rightarrow> ('l, 'v) sharded_rwlock outcome" where
  "rw_step ops (RwRead c i) s = read_lock ops c i s"
| "rw_step ops (RwTryRead c i) s = (case try_read ops c i s of Next r \<Rightarrow> Next (snd r) | Disabled \<Rightarrow> Disabled
     | Panic \<Rightarrow> Panic | Fault \<Rightarrow> Fault)"
| "rw_step ops (RwDropRead c) s = drop_read_guard ops c s"
| "rw_step ops (RwWriteStart c) s = write_start c s"
| "rw_step ops (RwWriteLock c) s = write_lock ops c s"
| "rw_step ops (RwDropWrite c) s = drop_write_guard ops c s"
| "rw_step ops (RwUpdate c f) s = guard_update c f s"

inductive rw_reach :: "'l rwlock_ops \<Rightarrow> ('l, 'v) sharded_rwlock \<Rightarrow> bool" for ops where
  rw_new: "n > 0 \<Longrightarrow> rw_reach ops (new_sharded_rwlock ops n m v)"
| rw_step: "rw_reach ops s \<Longrightarrow> rw_step ops l s = Next s' \<Longrightarrow> rw_reach ops s'"

section \<open>The invariant\<close>

definition wr_holds :: "nat \<Rightarrow> guard \<Rightarrow> bool" where
  "wr_holds i g = (case g of WriteLocking k \<Rightarrow> i < k | WriteGuard \<Rightarrow> True | WriteUnlocking k \<Rightarrow> k \<le> i | _ \<Rightarrow> False)"

lemma wr_holds_simps [simp]:
  "\<not> wr_holds i NoGuard" "\<not> wr_holds i (ReadGuard j)" "wr_holds i (WriteLocking k) \<longleftrightarrow> i < k"
  "wr_holds i WriteGuard" "wr_holds i (WriteUnlocking k) \<longleftrightarrow> k \<le> i"
  by (simp_all add: wr_holds_def)

definition in_bounds :: "nat \<Rightarrow> guard \<Rightarrow> bool" where
  "in_bounds n g = (case g of ReadGuard i \<Rightarrow> i < n | WriteLocking k \<Rightarrow> k \<le> n | WriteUnlocking k \<Rightarrow> k \<le> n | _ \<Rightarrow> True)"

definition lock_ok :: "'l rwlock_ops \<Rightarrow> guard list \<Rightarrow> nat \<Rightarrow> 'l \<Rightarrow> bool" where
  "lock_ok ops us i l \<longleftrightarrow> readers ops l = count_where (\<lambda>g. g = ReadGuard i) us
     \<and> count_where (wr_holds i) us = (if writer ops l then 1 else 0) \<and> (writer ops l \<longrightarrow> readers ops l = 0)"

definition rw_inv :: "'l rwlock_ops \<Rightarrow> ('l, 'v) sharded_rwlock \<Rightarrow> bool" where
  "rw_inv ops s \<longleftrightarrow> locks s \<noteq> [] \<and> (\<forall>i<length (locks s). lock_ok ops (users s) i (locks s ! i))
     \<and> (\<forall>g\<in>set (users s). in_bounds (length (locks s)) g)"

lemma user_frame [simp]:
  "locks (set_user c g s) = locks s" "users (set_user c g s) = (users s)[c := g]"
  "data_value (set_user c g s) = data_value s" "users (set_lock i l s) = users s"
  "locks (set_lock i l s) = (locks s)[i := l]" "data_value (set_lock i l s) = data_value s"
  by (simp_all add: set_user_def set_lock_def)

text \<open>One user goes from one guard to another while one lock changes accordingly.\<close>

lemma rw_inv_change:
  assumes inv: "rw_inv ops s" and c: "c < length (users s)" and i: "i < length (locks s)"
    and g: "in_bounds (length (locks s)) g"
    and r: "readers ops l + (if users s ! c = ReadGuard i then 1 else 0)
      = readers ops (locks s ! i) + (if g = ReadGuard i then 1 else 0)"
    and w: "(if writer ops l then 1 else 0) + (if wr_holds i (users s ! c) then 1 else 0)
      = (if writer ops (locks s ! i) then 1 else 0) + (if wr_holds i g then 1 else (0::nat))"
    and x: "writer ops l \<Longrightarrow> readers ops l = 0"
    and other: "\<And>j. \<lbrakk>j \<noteq> i; j < length (locks s)\<rbrakk> \<Longrightarrow>
      (g = ReadGuard j \<longleftrightarrow> users s ! c = ReadGuard j) \<and> (wr_holds j g \<longleftrightarrow> wr_holds j (users s ! c))"
  shows "rw_inv ops (set_user c g (set_lock i l s))"
proof -
  have ok: "lock_ok ops ((users s)[c := g]) j ((locks s)[i := l] ! j)" if j: "j < length (locks s)" for j
  proof -
    have o: "lock_ok ops (users s) j (locks s ! j)" using inv j by (simp add: rw_inv_def)
    note r' = count_where_update [OF c, of "\<lambda>g. g = ReadGuard j" g] and w' = count_where_update [OF c, of "wr_holds j" g]
    show ?thesis
    proof (cases "j = i")
      case True
      then show ?thesis using o r w x r' w' i unfolding lock_ok_def by simp
    next
      case False
      then show ?thesis using o r' w' other [OF False j] unfolding lock_ok_def by auto
    qed
  qed
  have "in_bounds (length (locks s)) g'" if "g' \<in> set ((users s)[c := g])" for g'
    using that g inv set_update_subset_insert [of "users s" c g] by (auto simp: rw_inv_def)
  then show ?thesis using ok inv by (simp add: rw_inv_def)
qed

lemma rw_inv_user:
  assumes inv: "rw_inv ops s" and c: "c < length (users s)" and g: "in_bounds (length (locks s)) g"
    and same: "\<And>j. j < length (locks s) \<Longrightarrow>
      (g = ReadGuard j \<longleftrightarrow> users s ! c = ReadGuard j) \<and> (wr_holds j g \<longleftrightarrow> wr_holds j (users s ! c))"
  shows "rw_inv ops (set_user c g s)"
proof -
  have z: "0 < length (locks s)" using inv by (simp add: rw_inv_def)
  then have "lock_ok ops (users s) 0 (locks s ! 0)" using inv by (simp add: rw_inv_def)
  then have "rw_inv ops (set_user c g (set_lock 0 (locks s ! 0) s))"
    using same z by (intro rw_inv_change [OF inv c z g]) (auto simp: lock_ok_def)
  then show ?thesis by (simp add: set_lock_def)
qed

lemma contractD:
  assumes "rwlock_contract ops"
  shows "readers ops (new_lock ops) = 0" "\<not> writer ops (new_lock ops)"
    "try_read_lock ops l = Some l' \<Longrightarrow> \<not> writer ops l \<and> \<not> writer ops l' \<and> readers ops l' = readers ops l + 1"
    "try_write_lock ops l = Some l' \<Longrightarrow> \<not> writer ops l \<and> readers ops l = 0 \<and> writer ops l' \<and> readers ops l' = 0"
    "\<lbrakk>\<not> writer ops l; readers ops l = 0\<rbrakk> \<Longrightarrow> try_write_lock ops l \<noteq> None"
    "readers ops l > 0 \<Longrightarrow> readers ops (read_unlock ops l) = readers ops l - 1 \<and> writer ops (read_unlock ops l) = writer ops l"
    "writer ops l \<Longrightarrow> \<not> writer ops (write_unlock ops l) \<and> readers ops (write_unlock ops l) = readers ops l"
  using assms unfolding rwlock_contract_def by blast+

lemma rw_lock_okD:
  assumes "rw_inv ops s" and "i < length (locks s)"
  shows "readers ops (locks s ! i) = count_where (\<lambda>g. g = ReadGuard i) (users s)"
    "count_where (wr_holds i) (users s) = (if writer ops (locks s ! i) then 1 else 0)"
    "writer ops (locks s ! i) \<Longrightarrow> readers ops (locks s ! i) = 0"
proof -
  have "lock_ok ops (users s) i (locks s ! i)" using assms by (simp add: rw_inv_def)
  then show "readers ops (locks s ! i) = count_where (\<lambda>g. g = ReadGuard i) (users s)"
    "count_where (wr_holds i) (users s) = (if writer ops (locks s ! i) then 1 else 0)"
    "writer ops (locks s ! i) \<Longrightarrow> readers ops (locks s ! i) = 0"
    unfolding lock_ok_def by blast+
qed

lemma read_lock_inv:
  assumes k: "rwlock_contract ops" and inv: "rw_inv ops s" and c: "user_is c NoGuard s" and i: "i < length (locks s)"
    and l: "try_read_lock ops (locks s ! i) = Some l"
  shows "rw_inv ops (set_user c (ReadGuard i) (set_lock i l s))"
  using c i contractD(3) [OF k l]
  by (intro rw_inv_change [OF inv]) (auto simp: user_is_def in_bounds_def)

lemma rw_user_ok: "rw_inv ops s \<Longrightarrow> c < length (users s) \<Longrightarrow> in_bounds (length (locks s)) (users s ! c)"
  by (simp add: rw_inv_def)

lemma rw_holder:
  assumes "rw_inv ops s" and "i < length (locks s)" and "c < length (users s)"
  shows "wr_holds i (users s ! c) \<Longrightarrow> writer ops (locks s ! i)"
    "users s ! c = ReadGuard i \<Longrightarrow> readers ops (locks s ! i) > 0"
proof -
  show "writer ops (locks s ! i)" if "wr_holds i (users s ! c)"
  proof -
    have "count_where (wr_holds i) (users s) > 0" using that assms(3) by (auto simp: count_where_pos)
    then show ?thesis using rw_lock_okD(2) [OF assms(1,2)] by (simp split: if_splits)
  qed
  show "readers ops (locks s ! i) > 0" if "users s ! c = ReadGuard i"
  proof -
    have "ReadGuard i \<in> set (users s)" using that assms(3) nth_mem by metis
    then have "count_where (\<lambda>g. g = ReadGuard i) (users s) > 0" by (auto simp: count_where_pos)
    then show ?thesis using rw_lock_okD(1) [OF assms(1,2)] by simp
  qed
qed

lemma rw_step_inv:
  assumes k: "rwlock_contract ops" and inv: "rw_inv ops s" and st: "rw_step ops l s = Next s'"
  shows "rw_inv ops s' \<and> length (locks s') = length (locks s)"
proof (cases l)
  case (RwRead c i)
  then show ?thesis using st read_lock_inv [OF k inv]
    by (auto simp: read_lock_def split: if_splits option.splits)
next
  case (RwTryRead c i)
  then show ?thesis using st read_lock_inv [OF k inv] inv
    by (auto simp: try_read_def split: if_splits option.splits)
next
  case (RwDropRead c)
  then obtain i where c: "c < length (users s)" "users s ! c = ReadGuard i"
    and s': "s' = set_user c NoGuard (set_lock i (read_unlock ops (locks s ! i)) s)"
    using st by (auto simp: drop_read_guard_def split: if_splits guard.splits)
  have i: "i < length (locks s)" using rw_user_ok [OF inv c(1)] c(2) by (simp add: in_bounds_def)
  note u = contractD(6) [OF k rw_holder(2) [OF inv i c]]
  have "rw_inv ops s'" unfolding s'
    using u rw_holder(2) [OF inv i c] c rw_lock_okD(3) [OF inv i]
    by (intro rw_inv_change [OF inv c(1) i]) (auto simp: in_bounds_def)
  then show ?thesis by (simp add: s')
next
  case (RwWriteStart c)
  then have c: "c < length (users s)" "users s ! c = NoGuard" and s': "s' = set_user c (WriteLocking 0) s"
    using st by (auto simp: write_start_def user_is_def split: if_splits)
  have "rw_inv ops s'" unfolding s' using c by (intro rw_inv_user [OF inv c(1)]) (auto simp: in_bounds_def)
  then show ?thesis by (simp add: s')
next
  case (RwWriteLock c)
  then obtain j where c: "c < length (users s)" "users s ! c = WriteLocking j"
    using st by (auto simp: write_lock_def split: if_splits guard.splits)
  have jb: "j \<le> length (locks s)" using rw_user_ok [OF inv c(1)] c(2) by (simp add: in_bounds_def)
  show ?thesis
  proof (cases "j < length (locks s)")
    case True
    then obtain l' where l': "try_write_lock ops (locks s ! j) = Some l'"
      and s': "s' = set_user c (WriteLocking (Suc j)) (set_lock j l' s)"
      using st c RwWriteLock by (auto simp: write_lock_def split: option.splits)
    have "rw_inv ops s'" unfolding s'
      using contractD(4) [OF k l'] c True by (intro rw_inv_change [OF inv c(1) True]) (auto simp: in_bounds_def)
    then show ?thesis by (simp add: s')
  next
    case False
    then have s': "s' = set_user c WriteGuard s" using st c RwWriteLock by (simp add: write_lock_def)
    have "rw_inv ops s'" unfolding s'
      using c False jb by (intro rw_inv_user [OF inv c(1)]) (auto simp: in_bounds_def)
    then show ?thesis by (simp add: s')
  qed
next
  case (RwDropWrite c)
  then consider (begins) "c < length (users s)" "users s ! c = WriteGuard" "s' = set_user c (WriteUnlocking 0) s"
    | (round) j where "c < length (users s)" "users s ! c = WriteUnlocking j" "j < length (locks s)"
        "s' = set_user c (WriteUnlocking (Suc j)) (set_lock j (write_unlock ops (locks s ! j)) s)"
    | (fin) j where "c < length (users s)" "users s ! c = WriteUnlocking j" "\<not> j < length (locks s)"
        "s' = set_user c NoGuard s"
    using st by (auto simp: drop_write_guard_def split: if_splits guard.splits)
  then show ?thesis
  proof cases
    case begins
    have "rw_inv ops s'" unfolding begins(3)
      using begins(2) by (intro rw_inv_user [OF inv begins(1)]) (auto simp: in_bounds_def)
    then show ?thesis by (simp add: begins)
  next
    case (round j)
    have h: "wr_holds j (users s ! c)" using round(2) by simp
    have "rw_inv ops s'" unfolding round(4)
      using contractD(7) [OF k rw_holder(1) [OF inv round(3,1) h]] rw_holder(1) [OF inv round(3,1) h] round(2,3)
      by (intro rw_inv_change [OF inv round(1,3)]) (auto simp: in_bounds_def)
    then show ?thesis by (simp add: round)
  next
    case (fin j)
    have "rw_inv ops s'" unfolding fin(4)
      using fin(2,3) by (intro rw_inv_user [OF inv fin(1)]) (auto simp: in_bounds_def)
    then show ?thesis by (simp add: fin)
  qed
next
  case (RwUpdate c f)
  then show ?thesis using st inv by (auto simp: guard_update_def rw_inv_def split: if_splits)
qed

lemma rw_reach_inv:
  assumes k: "rwlock_contract ops" and r: "rw_reach ops s"
  shows "rw_inv ops s"
  using r
proof (induction rule: rw_reach.induct)
  case (rw_new n m v)
  then show ?case
    using contractD(1,2) [OF k]
    by (auto simp: rw_inv_def new_sharded_rwlock_def lock_ok_def count_where_replicate in_bounds_def)
qed (use rw_step_inv [OF k] in blast)

section \<open>Exclusion\<close>

lemma count_where_two:
  assumes "i < length xs" and "j < length xs" and "i \<noteq> j" and "P (xs ! i)" and "P (xs ! j)" and "\<not> P y"
  shows "count_where P xs \<ge> 2"
proof -
  have "xs[i := y] ! j = xs ! j" using assms(3) by simp
  then have "count_where P (xs[i := y]) > 0"
    using assms(2,5) by (metis count_where_pos length_list_update nth_mem)
  then show ?thesis using count_where_update [OF assms(1), of P y] assms(4,6) by simp
qed

lemma writer_excludes:
  assumes inv: "rw_inv ops s" and c: "c < length (users s)" "users s ! c = WriteGuard"
    and d: "d < length (users s)" "d \<noteq> c"
  shows "users s ! d \<noteq> ReadGuard i" "\<not> wr_holds i (users s ! d) \<or> length (locks s) \<le> i"
proof -
  show "users s ! d \<noteq> ReadGuard i"
  proof
    assume r: "users s ! d = ReadGuard i"
    then have i: "i < length (locks s)" using rw_user_ok [OF inv d(1)] by (simp add: in_bounds_def)
    have "writer ops (locks s ! i)" by (rule rw_holder(1) [OF inv i c(1)]) (simp add: c)
    then show False using rw_holder(2) [OF inv i d(1) r] rw_lock_okD(3) [OF inv i] by simp
  qed
  show "\<not> wr_holds i (users s ! d) \<or> length (locks s) \<le> i"
  proof (rule ccontr)
    assume "\<not> ?thesis"
    then have h: "wr_holds i (users s ! d)" "i < length (locks s)" by auto
    have "count_where (wr_holds i) (users s) \<ge> 2"
      using count_where_two [OF c(1) d(1), of "wr_holds i" NoGuard] c d h by simp
    then show False using rw_lock_okD(2) [OF inv h(2)] by (simp split: if_splits)
  qed
qed

text \<open>
  C32: a write guard excludes every other guard. While one user has it, no other user has a read
  guard on any shard or a write guard, however the acquisitions of the shards interleave.
\<close>

theorem write_guard_excludes:
  assumes "rwlock_contract ops" and "rw_reach ops s" and "user_is c WriteGuard s" and "user_is d g s" and "d \<noteq> c"
  shows "g \<noteq> WriteGuard \<and> (\<forall>i. g \<noteq> ReadGuard i)"
proof -
  have inv: "rw_inv ops s" by (rule rw_reach_inv [OF assms(1,2)])
  have c: "c < length (users s)" "users s ! c = WriteGuard" and d: "d < length (users s)" "users s ! d = g"
    using assms(3,4) by (simp_all add: user_is_def)
  have "locks s \<noteq> []" using inv by (simp add: rw_inv_def)
  then show ?thesis
    using writer_excludes(1) [OF inv c d(1) assms(5)] writer_excludes(2) [OF inv c d(1) assms(5), of 0] d(2) by auto
qed

text \<open>A lock counting its readers, negative when it is held for writing.\<close>

definition counting_lock :: "int rwlock_ops" where
  "counting_lock = \<lparr>new_lock = 0, try_read_lock = (\<lambda>l. if l < 0 then None else Some (l + 1)),
     try_write_lock = (\<lambda>l. if l = 0 then Some (- 1) else None), read_unlock = (\<lambda>l. l - 1),
     write_unlock = (\<lambda>l. 0), readers = nat, writer = (\<lambda>l. l < 0)\<rparr>"

lemma counting_lock_contract: "rwlock_contract counting_lock"
  by (auto simp: rwlock_contract_def counting_lock_def nat_add_distrib nat_diff_distrib)

fun rw_run :: "'l rwlock_ops \<Rightarrow> 'v rw_label list \<Rightarrow> ('l, 'v) sharded_rwlock \<Rightarrow> ('l, 'v) sharded_rwlock outcome" where
  "rw_run ops [] s = Next s"
| "rw_run ops (l # ls) s = (case rw_step ops l s of Next s' \<Rightarrow> rw_run ops ls s' | r \<Rightarrow> r)"

interpretation rwlock: step_system "rw_step ops" "rw_reach ops" "rw_run ops" for ops
  by unfold_locales (auto simp: bind_outcome_def split: outcome.splits intro: rw_reach.rw_step)

lemma rw_run_start:
  assumes "n > 0" and "is_next (rw_run ops ls (new_sharded_rwlock ops n m v))"
  shows "rw_reach ops (after (rw_run ops ls (new_sharded_rwlock ops n m v)))"
  using rwlock.execution_reaches [OF rw_new [OF assms(1)]] assms(2)
  by (cases "rw_run ops ls (new_sharded_rwlock ops n m v)") auto

theorem write_guard_excludes_witness:
  "users (after (rw_run counting_lock ([RwRead 1 1, RwWriteStart 0, RwWriteLock 0, RwDropRead 1, RwTryRead 1 0]
      @ replicate 2 (RwWriteLock 0)) (new_sharded_rwlock counting_lock 2 2 (5::nat)))) = [WriteGuard, NoGuard]
    \<and> \<not> user_is 1 (ReadGuard 1) (after (rw_run counting_lock ([RwRead 1 1, RwWriteStart 0, RwWriteLock 0, RwDropRead 1,
      RwTryRead 1 0] @ replicate 2 (RwWriteLock 0)) (new_sharded_rwlock counting_lock 2 2 (5::nat))))"
proof -
  let ?ls = "[RwRead 1 1, RwWriteStart 0, RwWriteLock 0, RwDropRead 1, RwTryRead 1 0] @ replicate 2 (RwWriteLock 0)"
  let ?s = "after (rw_run counting_lock ?ls (new_sharded_rwlock counting_lock 2 2 (5::nat)))"
  have ok: "is_next (rw_run counting_lock ?ls (new_sharded_rwlock counting_lock 2 2 (5::nat)))" by code_simp
  have r: "rw_reach counting_lock ?s" by (rule rw_run_start [OF _ ok]) simp
  have u: "users ?s = [WriteGuard, NoGuard]" by code_simp
  then have "user_is 0 WriteGuard ?s" by (simp add: user_is_def)
  then have "\<not> user_is 1 (ReadGuard 1) ?s" using write_guard_excludes [OF counting_lock_contract r] by auto
  then show ?thesis using u by blast
qed

text \<open>
  C33: a reader sees one value. As long as a user keeps its read guard, no step of anybody changes
  the data behind the lock.
\<close>

theorem reader_sees_stable_value:
  assumes "rwlock_contract ops" and "rw_reach ops s" and "user_is c (ReadGuard i) s" and "rw_step ops l s = Next s'"
  shows "data_value s' = data_value s \<and> guard_value c s = Some (data_value s)"
proof -
  have inv: "rw_inv ops s" by (rule rw_reach_inv [OF assms(1,2)])
  have c: "c < length (users s)" "users s ! c = ReadGuard i" using assms(3) by (simp_all add: user_is_def)
  have "data_value s' = data_value s"
  proof (cases l)
    case (RwUpdate d f)
    then have d: "d < length (users s)" "users s ! d = WriteGuard"
      using assms(4) by (auto simp: guard_update_def user_is_def split: if_splits)
    then have "c \<noteq> d" using c(2) by auto
    then show ?thesis using writer_excludes(1) [OF inv d c(1)] c(2) by blast
  qed (use assms(4) in \<open>auto simp: read_lock_def try_read_def drop_read_guard_def write_start_def write_lock_def
      drop_write_guard_def split: if_splits option.splits guard.splits\<close>)
  then show ?thesis using c by (simp add: guard_value_def)
qed

theorem reader_sees_stable_value_witness:
  "guard_value 1 (after (rw_run counting_lock [RwWriteStart 0, RwWriteLock 0, RwRead 1 1]
      (new_sharded_rwlock counting_lock 2 2 (5::nat)))) = Some 5"
proof -
  let ?s = "after (rw_run counting_lock [RwWriteStart 0, RwWriteLock 0, RwRead 1 1]
      (new_sharded_rwlock counting_lock 2 2 (5::nat)))"
  have ok: "is_next (rw_run counting_lock [RwWriteStart 0, RwWriteLock 0, RwRead 1 1]
      (new_sharded_rwlock counting_lock 2 2 (5::nat)))" by code_simp
  have r: "rw_reach counting_lock ?s" by (rule rw_run_start [OF _ ok]) simp
  have u: "users ?s = [WriteLocking 1, ReadGuard 1]" "data_value ?s = 5" by code_simp+
  have n: "is_next (rw_step counting_lock (RwDropRead 1) ?s)" by code_simp
  have "user_is 1 (ReadGuard 1) ?s" using u(1) by (simp add: user_is_def)
  then show ?thesis
    using reader_sees_stable_value [OF counting_lock_contract r, of 1 1 "RwDropRead 1"] n u(2)
    by (cases "rw_step counting_lock (RwDropRead 1) ?s") auto
qed

section \<open>No deadlock\<close>

lemma max_locking:
  assumes "\<exists>c k. c < length us \<and> us ! c = WriteLocking k" and b: "\<And>c k. c < length us \<Longrightarrow> us ! c = WriteLocking k \<Longrightarrow> k \<le> n"
  shows "\<exists>c k. c < length us \<and> us ! c = WriteLocking k \<and> (\<forall>d j. d < length us \<longrightarrow> us ! d = WriteLocking j \<longrightarrow> j \<le> k)"
proof -
  let ?K = "{k. \<exists>c<length us. us ! c = WriteLocking k}"
  have fin: "finite ?K" by (rule finite_subset [of _ "{..n}"]) (use b in auto)
  have "?K \<noteq> {}" using assms(1) by blast
  then have "Max ?K \<in> ?K" by (rule Max_in [OF fin])
  then show ?thesis using Max_ge [OF fin] by blast
qed

text \<open>
  C34: writers do not deadlock each other. When every guard that was given out has been dropped and
  some writers are inside \<open>write\<close>, each with some shards locked, one of them can take its next
  shard: the one furthest along, because all take the shards in the same order.
\<close>

theorem waiting_writers_progress:
  assumes "rwlock_contract ops" and "rw_reach ops s"
    and "\<forall>g\<in>set (users s). g = NoGuard \<or> (\<exists>k. g = WriteLocking k)"
    and "\<exists>g\<in>set (users s). g \<noteq> NoGuard"
  shows "\<exists>c s'. rw_step ops (RwWriteLock c) s = Next s'"
proof -
  let ?us = "users s"
  have inv: "rw_inv ops s" by (rule rw_reach_inv [OF assms(1,2)])
  have w: "\<exists>c k. c < length ?us \<and> ?us ! c = WriteLocking k"
  proof -
    obtain g where g: "g \<in> set ?us" "g \<noteq> NoGuard" using assms(4) by blast
    then obtain k where "g = WriteLocking k" using assms(3) by blast
    then show ?thesis using g(1) by (auto simp: in_set_conv_nth)
  qed
  have b: "k \<le> length (locks s)" if "c < length ?us" "?us ! c = WriteLocking k" for c k
    using rw_user_ok [OF inv that(1)] that(2) by (simp add: in_bounds_def)
  have "\<exists>c k. c < length ?us \<and> ?us ! c = WriteLocking k
      \<and> (\<forall>d j. d < length ?us \<longrightarrow> ?us ! d = WriteLocking j \<longrightarrow> j \<le> k)"
    by (rule max_locking [OF w]) (rule b)
  then obtain c k where c: "c < length ?us" "?us ! c = WriteLocking k"
    and top: "\<forall>d j. d < length ?us \<longrightarrow> ?us ! d = WriteLocking j \<longrightarrow> j \<le> k"
    by (elim exE conjE) (rule that)
  show ?thesis
  proof (cases "k < length (locks s)")
    case True
    have nw: "\<not> wr_holds k g" and nr: "g \<noteq> ReadGuard k" if g: "g \<in> set ?us" for g
    proof -
      obtain d where d: "d < length ?us" "?us ! d = g" using g by (auto simp: in_set_conv_nth)
      consider "g = NoGuard" | j where "g = WriteLocking j" using assms(3) g by blast
      then have "\<not> wr_holds k g \<and> g \<noteq> ReadGuard k" using top d by cases auto
      then show "\<not> wr_holds k g" "g \<noteq> ReadGuard k" by simp_all
    qed
    have "count_where (wr_holds k) ?us = 0" "count_where (\<lambda>g. g = ReadGuard k) ?us = 0"
      using nw nr count_where_pos [of "wr_holds k" ?us] count_where_pos [of "\<lambda>g. g = ReadGuard k" ?us] by auto
    then have "\<not> writer ops (locks s ! k)" "readers ops (locks s ! k) = 0"
      using rw_lock_okD(1,2) [OF inv True] by (simp_all split: if_splits)
    then obtain l where "try_write_lock ops (locks s ! k) = Some l"
      using contractD(5) [OF assms(1)] by blast
    then have "rw_step ops (RwWriteLock c) s = Next (set_user c (WriteLocking (Suc k)) (set_lock k l s))"
      using c True by (simp add: write_lock_def)
    then show ?thesis by blast
  next
    case False
    then have "rw_step ops (RwWriteLock c) s = Next (set_user c WriteGuard s)" using c by (simp add: write_lock_def)
    then show ?thesis by blast
  qed
qed

theorem waiting_writers_progress_witness:
  "\<exists>c s'. rw_step counting_lock (RwWriteLock c) (after (rw_run counting_lock
      [RwWriteStart 0, RwWriteStart 1, RwWriteLock 1] (new_sharded_rwlock counting_lock 2 2 (5::nat)))) = Next s'"
proof -
  let ?s = "after (rw_run counting_lock [RwWriteStart 0, RwWriteStart 1, RwWriteLock 1]
      (new_sharded_rwlock counting_lock 2 2 (5::nat)))"
  have ok: "is_next (rw_run counting_lock [RwWriteStart 0, RwWriteStart 1, RwWriteLock 1]
      (new_sharded_rwlock counting_lock 2 2 (5::nat)))" by code_simp
  have r: "rw_reach counting_lock ?s" by (rule rw_run_start [OF _ ok]) simp
  have "users ?s = [WriteLocking 0, WriteLocking 1]" by code_simp
  then show ?thesis by (intro waiting_writers_progress [OF counting_lock_contract r]) auto
qed

end
