(* ===== verification/FatPointers.thy ===== *)
theory FatPointers
  imports Calls
begin

text \<open>
  The type-erased side of the collector: the fat pointers and vtables of \<open>src/src/sdarc.rs\<close>, and
  the collector's table of \<open>src/src/collector.rs\<close>, whose key is the pointer to an object's counters
  and whose entry holds a fat pointer with the tracking state. The functions of \<open>CollectorThread\<close>
  are done again over that table, with the assertions and \<open>unwrap\<close>s the code has there, and with
  every access through an erased pointer checked against the type the object really has.
\<close>

section \<open>Types, vtables, fat pointers\<close>

text \<open>
  What an \<open>SdarcInner\<close> holds: a type of the program, or the \<open>WeakSdarcInner\<close> of one. Where the
  compiler puts the field \<open>counters\<close> in each is the argument \<open>offset_of\<close> of what follows. A
  function of the vtable is named by the type it is compiled for.
\<close>

datatype ty = User nat | WeakInner ty

type_synonym cptr = nat

record vtable =
  offset_of_counter :: nat
  clear_weak_backref_fn :: ty
  drop_sdarc_inner_fn :: ty
  type_name_fn :: ty

definition get_sdarc_vtable_ref :: "(ty \<Rightarrow> nat) \<Rightarrow> ty \<Rightarrow> vtable" where
  "get_sdarc_vtable_ref offset_of T = \<lparr>offset_of_counter = offset_of T, clear_weak_backref_fn = T,
     drop_sdarc_inner_fn = T, type_name_fn = T\<rparr>"

record SdarcInnerFatPtr =
  erased_ptr :: addr
  vtable_ref :: vtable

definition fat_ptr_new :: "(ty \<Rightarrow> nat) \<Rightarrow> ty \<Rightarrow> addr \<Rightarrow> SdarcInnerFatPtr" where
  "fat_ptr_new offset_of T p = \<lparr>erased_ptr = p, vtable_ref = get_sdarc_vtable_ref offset_of T\<rparr>"

section \<open>The collector with its table\<close>

type_synonym TrackedCounter = "SdarcInnerFatPtr \<times> tstate"

definition tracked_counter_new :: "SdarcInnerFatPtr \<Rightarrow> TrackedCounter" where
  "tracked_counter_new f = (f, DefaultState)"

text \<open>
  \<open>inner_of\<close> is what memory holds at an object's address: its type and the pointer to its counters.
  In \<open>core\<close> the fields \<open>tracked\<close>, \<open>pending\<close> and \<open>tofree\<close> are not used; the table, the lists of new
  counters and the list of counters to free stand for them.
\<close>

record keyed_world = world +
  inner_of :: "addr \<Rightarrow> (ty \<times> cptr) option"
  new_counters_to_track :: "(SdarcInnerFatPtr \<times> cptr) list list"
  tracked_counters :: "cptr \<Rightarrow> TrackedCounter option"
  to_free :: "cptr list"

text \<open>\<open>into_typed\<close>: using memory at a type it does not have is undefined behaviour.\<close>

definition into_typed :: "ty \<Rightarrow> addr \<Rightarrow> keyed_world \<Rightarrow> 'a outcome \<Rightarrow> 'a outcome" where
  "into_typed T p k r = (case inner_of k p of None \<Rightarrow> Fault | Some (U, c) \<Rightarrow> if U = T then r else Fault)"

definition get_counters_ptr :: "(ty \<Rightarrow> nat) \<Rightarrow> SdarcInnerFatPtr \<Rightarrow> keyed_world \<Rightarrow> cptr outcome" where
  "get_counters_ptr offset_of f k =
     (case inner_of k (erased_ptr f) of
        None \<Rightarrow> Fault
      | Some (U, c) \<Rightarrow> if offset_of_counter (vtable_ref f) = offset_of U then Next c else Fault)"

definition clear_weak_back_ref ::
  "SdarcInnerFatPtr \<Rightarrow> keyed_world \<Rightarrow> (ClearWeakBackRefResult \<times> keyed_world) outcome" where
  "clear_weak_back_ref f k =
     into_typed (clear_weak_backref_fn (vtable_ref f)) (erased_ptr f) k
       (bind_outcome (clear_weak_backref_impl (erased_ptr f) (core k)) (\<lambda>(r, s). Next (r, k\<lparr>core := s\<rparr>)))"

definition drop_sdarc_inner_impl :: "ty \<Rightarrow> addr \<Rightarrow> nat \<Rightarrow> keyed_world \<Rightarrow> keyed_world outcome" where
  "drop_sdarc_inner_impl T p i k =
     into_typed T p k
       (bind_outcome (free_inner i p (world.truncate k)) (\<lambda>w.
          Next (k\<lparr>core := core w, data_handles := data_handles w, counters_to_recheck := counters_to_recheck w,
                  inner_of := (inner_of k)(p := None)\<rparr>)))"

definition fat_ptr_free :: "SdarcInnerFatPtr \<Rightarrow> nat \<Rightarrow> keyed_world \<Rightarrow> keyed_world outcome" where
  "fat_ptr_free f i k = drop_sdarc_inner_impl (drop_sdarc_inner_fn (vtable_ref f)) (erased_ptr f) i k"

section \<open>Registering and tracking\<close>

text \<open>
  \<open>Sdarc::new\<close> of a value of type \<open>T\<close>: the object is at \<open>a\<close>, its counters at \<open>c\<close>; the thread is on
  shard \<open>j\<close> when it registers it.
\<close>

definition keyed_new :: "(ty \<Rightarrow> nat) \<Rightarrow> ty \<Rightarrow> addr \<Rightarrow> cptr \<Rightarrow> nat \<Rightarrow> nat \<Rightarrow> keyed_world \<Rightarrow> keyed_world outcome" where
  "keyed_new offset_of T a c i j k =
     bind_outcome (sdarc_new a i j (core k)) (\<lambda>s.
       Next (k\<lparr>core := s, inner_of := (inner_of k)(a \<mapsto> (T, c)),
         new_counters_to_track := (new_counters_to_track k)
           [j := new_counters_to_track k ! j @ [(fat_ptr_new offset_of T a, c)]]\<rparr>))"

text \<open>
  \<open>Sdarc::downgrade\<close> of the object at \<open>a\<close>, when it has no weak object: its weak object, at \<open>w\<close>, is an
  \<open>SdarcInner\<close> of another type.
\<close>

definition keyed_downgrade_init ::
  "(ty \<Rightarrow> nat) \<Rightarrow> addr \<Rightarrow> addr \<Rightarrow> cptr \<Rightarrow> nat \<Rightarrow> nat \<Rightarrow> keyed_world \<Rightarrow> keyed_world outcome" where
  "keyed_downgrade_init offset_of a w c i j k =
     bind_outcome (downgrade_init a w i j (core k)) (\<lambda>s.
       case inner_of k a of
         None \<Rightarrow> Fault
       | Some (T, c') \<Rightarrow> Next (k\<lparr>core := s, inner_of := (inner_of k)(w \<mapsto> (WeakInner T, c)),
           new_counters_to_track := (new_counters_to_track k)
             [j := new_counters_to_track k ! j @ [(fat_ptr_new offset_of (WeakInner T) w, c)]]\<rparr>))"

fun insert_new_counters ::
  "(SdarcInnerFatPtr \<times> cptr) list \<Rightarrow> (cptr \<Rightarrow> TrackedCounter option)
    \<Rightarrow> (cptr \<Rightarrow> TrackedCounter option) outcome" where
  "insert_new_counters [] m = Next m"
| "insert_new_counters ((f, c) # rest) m =
     (if m c \<noteq> None then Panic else insert_new_counters rest (m(c \<mapsto> tracked_counter_new f)))"

definition keyed_take :: "nat \<Rightarrow> keyed_world \<Rightarrow> keyed_world outcome" where
  "keyed_take j k =
     (if at_cpc (core k) = CIdle \<and> j < nshards (core k)
      then bind_outcome (insert_new_counters (new_counters_to_track k ! j) (tracked_counters k)) (\<lambda>m.
             Next (k\<lparr>tracked_counters := m, new_counters_to_track := (new_counters_to_track k)[j := []]\<rparr>))
      else Disabled)"

section \<open>Visits\<close>

text \<open>The counters at \<open>c\<close> are those of the object that has them.\<close>

definition counters_owner :: "keyed_world \<Rightarrow> cptr \<Rightarrow> addr option" where
  "counters_owner k c = find (\<lambda>a. map_option snd (inner_of k a) = Some c) [0..<length (heap (core k))]"

definition at_counters :: "cptr \<Rightarrow> keyed_world \<Rightarrow> (addr \<Rightarrow> obj \<Rightarrow> 'a outcome) \<Rightarrow> 'a outcome" where
  "at_counters c k f =
     (case counters_owner k c of
        None \<Rightarrow> Fault
      | Some a \<Rightarrow> (case obj_at (core k) a of None \<Rightarrow> Fault | Some x \<Rightarrow> f a x))"

definition keyed_update_state :: "cptr \<Rightarrow> SdarcInnerFatPtr \<Rightarrow> tstate \<Rightarrow> keyed_world \<Rightarrow> (tstate \<times> keyed_world) outcome" where
  "keyed_update_state c f st k =
     (let shard_list = [0..<nshards (core k)] in
      case st of
        DefaultState \<Rightarrow> at_counters c k (\<lambda>a x.
          if read_ref_count_sum_relaxed shard_list x = 0
          then let (n, y) = clear_tags_and_read_ref_count_sum_acquire shard_list x
               in Next (if n = 0 then RequiresReChecking else DefaultState, k\<lparr>core := put a y (core k)\<rparr>)
          else Next (DefaultState, k))
      | RequiresReChecking \<Rightarrow> at_counters c k (\<lambda>a x.
          case read_ref_count_sum_if_all_tags_unset_acquire shard_list x of
            None \<Rightarrow> Next (DefaultState, k)
          | Some n \<Rightarrow>
              if n = 0
              then bind_outcome (clear_weak_back_ref f k) (\<lambda>(r, k').
                     Next (if r = WeakBackRefCleared then RequiresReChecking else ReadyToFree, k'))
              else if n > 0 then Next (DefaultState, k)
              else Panic)
      | ReadyToFree \<Rightarrow> Panic)"

definition keyed_visit :: "cptr \<Rightarrow> keyed_world \<Rightarrow> keyed_world outcome" where
  "keyed_visit c k =
     (case tracked_counters k c of
        None \<Rightarrow> Next k
      | Some (f, st) \<Rightarrow>
          if erased_ptr f \<in> set (hz (core k))
          then Next (k\<lparr>tracked_counters := (tracked_counters k)(c \<mapsto> (f, DefaultState))\<rparr>)
          else bind_outcome (keyed_update_state c f st k) (\<lambda>(st', k').
                 Next (k'\<lparr>tracked_counters := (tracked_counters k')(c \<mapsto> (f, st')),
                          to_free := (if st' = ReadyToFree then to_free k' @ [c] else to_free k')\<rparr>)))"

fun keyed_update_each :: "cptr list \<Rightarrow> cptr list \<Rightarrow> keyed_world \<Rightarrow> (cptr list \<times> keyed_world) outcome" where
  "keyed_update_each [] acc k = Next (acc, k)"
| "keyed_update_each (c # cs) acc k = bind_outcome (keyed_visit c k) (\<lambda>k'.
     keyed_update_each cs
       (if map_option snd (tracked_counters k' c) = Some RequiresReChecking then insort_insert c acc else acc) k')"

section \<open>Frees\<close>

fun keyed_free_pointers :: "(ty \<Rightarrow> nat) \<Rightarrow> nat \<Rightarrow> cptr list \<Rightarrow> keyed_world \<Rightarrow> keyed_world outcome" where
  "keyed_free_pointers offset_of i [] k = Next k"
| "keyed_free_pointers offset_of i (c # cs) k =
     (case tracked_counters k c of
        None \<Rightarrow> Panic
      | Some (f, st) \<Rightarrow>
          let k' = k\<lparr>tracked_counters := (tracked_counters k)(c := None)\<rparr> in
          if st \<noteq> ReadyToFree then Panic
          else bind_outcome (get_counters_ptr offset_of f k') (\<lambda>c'.
                 if c' \<noteq> c then Panic
                 else bind_outcome (fat_ptr_free f i k') (keyed_free_pointers offset_of i cs)))"

text \<open>
  An inner iteration: the hazard pointer set, the loop over counters, the frees. \<open>cs\<close> are the keys
  of the table or the counters to re-check.
\<close>

definition keyed_iteration ::
  "(ty \<Rightarrow> nat) \<Rightarrow> cptr list \<Rightarrow> nat \<Rightarrow> keyed_world \<Rightarrow> (cptr list \<times> keyed_world) outcome" where
  "keyed_iteration offset_of cs i k =
     bind_outcome (traverse_atomic_reader_signals (core k)) (\<lambda>s.
     bind_outcome (keyed_update_each cs [] (k\<lparr>core := s\<rparr>)) (\<lambda>(new_to_recheck, k').
     bind_outcome (keyed_free_pointers offset_of i (to_free k') (k'\<lparr>to_free := []\<rparr>)) (\<lambda>k''.
       Next (new_to_recheck, k''))))"

section \<open>The machine over the table\<close>

text \<open>
  Threads take their single steps, the collector its inner iterations and its look at one shard
  of new objects. A new object's counters have a pointer no live object's counters have: the
  allocator's promise. What handles an object's data holds is the program's affair.
\<close>

datatype keyed_label =
    KNew ty addr cptr nat nat
  | KDowngradeInit addr addr cptr nat nat
  | KThread label
  | KData addr "addr list"
  | KTake nat
  | KIterate "cptr list" nat

fun allocates :: "label \<Rightarrow> bool" where
  "allocates (LNew a i j) = True"
| "allocates (LDowngradeInit a w i j) = True"
| "allocates l = False"

definition new_counters_free :: "cptr \<Rightarrow> keyed_world \<Rightarrow> bool" where
  "new_counters_free c k \<longleftrightarrow> counters_owner k c = None"

fun keyed_step :: "(ty \<Rightarrow> nat) \<Rightarrow> keyed_label \<Rightarrow> keyed_world \<Rightarrow> keyed_world outcome" where
  "keyed_step offset_of (KNew T a c i j) k =
     (if new_counters_free c k then keyed_new offset_of T a c i j k else Disabled)"
| "keyed_step offset_of (KDowngradeInit a w c i j) k =
     (if new_counters_free c k then keyed_downgrade_init offset_of a w c i j k else Disabled)"
| "keyed_step offset_of (KThread l) k =
     (if is_collector l \<or> allocates l then Disabled
      else bind_outcome (step l (core k)) (\<lambda>s. Next (k\<lparr>core := s\<rparr>)))"
| "keyed_step offset_of (KData a cs) k = Next (k\<lparr>data_handles := (data_handles k)(a := cs)\<rparr>)"
| "keyed_step offset_of (KTake j) k = keyed_take j k"
| "keyed_step offset_of (KIterate cs i) k =
     (if distinct cs \<and> i < nshards (core k)
      then bind_outcome (keyed_iteration offset_of cs i k) (\<lambda>(r, k'). Next k') else Disabled)"

definition keyed_start :: "nat \<Rightarrow> nat \<Rightarrow> nat \<Rightarrow> keyed_world" where
  "keyed_start n addrs cs =
     \<lparr>core = start n addrs cs, data_handles = \<lambda>_. [], counters_to_recheck = [],
      collection_waiting = [], notified = [], outer_iteration_counter = 0,
      inner_of = \<lambda>_. None, new_counters_to_track = replicate n [], tracked_counters = \<lambda>_. None,
      to_free = []\<rparr>"

inductive keyed_reach :: "(ty \<Rightarrow> nat) \<Rightarrow> keyed_world \<Rightarrow> bool" for offset_of where
  keyed_reach_start: "n > 0 \<Longrightarrow> keyed_reach offset_of (keyed_start n addrs cs)"
| keyed_reach_step: "keyed_reach offset_of k \<Longrightarrow> keyed_step offset_of l k = Next k' \<Longrightarrow> keyed_reach offset_of k'"

fun keyed_run :: "(ty \<Rightarrow> nat) \<Rightarrow> keyed_label list \<Rightarrow> keyed_world \<Rightarrow> keyed_world outcome" where
  "keyed_run offset_of [] k = Next k"
| "keyed_run offset_of (l # ls) k = bind_outcome (keyed_step offset_of l k) (keyed_run offset_of ls)"

interpretation keyed: step_system "keyed_step offset_of" "keyed_reach offset_of" "keyed_run offset_of"
  for offset_of
  by unfold_locales (auto intro: keyed_reach_step)

section \<open>What the table stands for\<close>

definition abs_tracked :: "keyed_world \<Rightarrow> addr \<Rightarrow> tstate option" where
  "abs_tracked k a = (case inner_of k a of None \<Rightarrow> None | Some (T, c) \<Rightarrow> map_option snd (tracked_counters k c))"

definition abs_sys :: "keyed_world \<Rightarrow> sys" where
  "abs_sys k = (core k)\<lparr>tracked := abs_tracked k,
     pending := map (map (\<lambda>(f, c). erased_ptr f)) (new_counters_to_track k),
     tofree := map (\<lambda>c. the (counters_owner k c)) (to_free k)\<rparr>"

definition abs_world :: "keyed_world \<Rightarrow> world" where
  "abs_world k = (world.truncate k)\<lparr>core := abs_sys k\<rparr>"

end
