(* ===== verification/FatPointerSafety.thy ===== *)
theory FatPointerSafety
  imports FatPointers CollectorRefinement
begin

text \<open>
  The collector's table against the machine of \<open>Collecting\<close>: what the table, the fat pointers and
  the memory behind them satisfy in every reachable state, that the functions over the table
  compute the functions over objects, and so that no assertion of theirs fails and no erased pointer
  is used at another type than its object's.
\<close>

section \<open>The fields the table stands for\<close>

definition with_tables :: "(addr \<Rightarrow> tstate option) \<Rightarrow> addr list list \<Rightarrow> addr list \<Rightarrow> sys \<Rightarrow> sys" where
  "with_tables tr pe tf s = s\<lparr>tracked := tr, pending := pe, tofree := tf\<rparr>"

lemma with_tables_simps [simp]:
  "nshards (with_tables tr pe tf s) = nshards s" "heap (with_tables tr pe tf s) = heap s"
  "hz (with_tables tr pe tf s) = hz s" "thrs (with_tables tr pe tf s) = thrs s"
  "at_cpc (with_tables tr pe tf s) = at_cpc s" "todo (with_tables tr pe tf s) = todo s"
  "handles (with_tables tr pe tf s) = handles s"
  "tracked (with_tables tr pe tf s) = tr" "pending (with_tables tr pe tf s) = pe"
  "tofree (with_tables tr pe tf s) = tf" "obj_at (with_tables tr pe tf s) a = obj_at s a"
  "set_tracked a st (with_tables tr pe tf s) = with_tables (tr(a := Some st)) pe tf s"
  "with_tables tr pe tf s\<lparr>tofree := tf'\<rparr> = with_tables tr pe tf' s"
  "with_tables tr pe tf s\<lparr>tracked := tr'\<rparr> = with_tables tr' pe tf s"
  "put a x (with_tables tr pe tf s) = with_tables tr pe tf (put a x s)"
  "with_tables tr pe tf s\<lparr>heap := h\<rparr> = with_tables tr pe tf (s\<lparr>heap := h\<rparr>)"
  by (simp_all add: with_tables_def obj_at_def set_tracked_def put_def)

abbreviation same_tables ::
  "(addr \<Rightarrow> tstate option) \<Rightarrow> addr list list \<Rightarrow> addr list \<Rightarrow> sys outcome \<Rightarrow> sys outcome" where
  "same_tables tr pe tf r \<equiv> bind_outcome r (\<lambda>s. Next (with_tables tr pe tf s))"

lemma with_tables_update [simp]:
  "with_tables tr pe tf s\<lparr>thrs := th\<rparr> = with_tables tr pe tf (s\<lparr>thrs := th\<rparr>)"
  "with_tables tr pe tf s\<lparr>handles := h\<rparr> = with_tables tr pe tf (s\<lparr>handles := h\<rparr>)"
  "with_tables tr pe tf s\<lparr>cells := c\<rparr> = with_tables tr pe tf (s\<lparr>cells := c\<rparr>)"
  "cells (with_tables tr pe tf s) = cells s"
  by (simp_all add: with_tables_def)

lemma with_tables_ops [simp]:
  "add_handle a (with_tables tr pe tf s) = with_tables tr pe tf (add_handle a s)"
  "take_handle a (with_tables tr pe tf s) = with_tables tr pe tf (take_handle a s)"
  "add_handle_opt p (with_tables tr pe tf s) = with_tables tr pe tf (add_handle_opt p s)"
  "take_handle_opt p (with_tables tr pe tf s) = with_tables tr pe tf (take_handle_opt p s)"
  "set_thr t th (with_tables tr pe tf s) = with_tables tr pe tf (set_thr t th s)"
  "has_handle (with_tables tr pe tf s) p = has_handle s p"
  by (simp_all add: add_handle_def take_handle_def add_handle_opt_def take_handle_opt_def set_thr_def
      has_handle_def split: option.split)

lemma same_tables_case:
  "same_tables tr pe tf (case p of None \<Rightarrow> r | Some x \<Rightarrow> q x)
    = (case p of None \<Rightarrow> same_tables tr pe tf r | Some x \<Rightarrow> same_tables tr pe tf (q x))"
  "same_tables tr pe tf (if b then r else r') = (if b then same_tables tr pe tf r else same_tables tr pe tf r')"
  by (simp_all split: option.split)

lemma with_tables_cas:
  "compare_and_set c m n i (with_tables tr pe tf s) = same_tables tr pe tf (compare_and_set c m n i s)"
proof -
  have e: "cas_increment n i (cas_exchange c n (with_tables tr pe tf s))
      = same_tables tr pe tf (cas_increment n i (cas_exchange c n s))"
    by (simp add: cas_increment_def cas_exchange_def deref_def split: option.split)
  show ?thesis
    unfolding compare_and_set_def e
    by (cases "cas_increment n i (cas_exchange c n s)") simp_all
qed

lemma with_tables_thread:
  assumes "\<not> is_collector l" and "\<not> allocates l"
  shows "step l (with_tables tr pe tf s) = same_tables tr pe tf (step l s)"
proof (cases l)
  case (LCompareAndSet c m n i)
  then show ?thesis by (simp add: with_tables_cas)
next
  case (LRelease t)
  then show ?thesis by (auto simp: release_hazard_data_def thr_step_def)
qed (use assms in \<open>simp_all only: step.simps is_collector.simps allocates.simps simp_thms\<close>,
    simp_all add: thr_step_def deref_def read_ptr_def sdarc_clone_def sdarc_drop_def sdarc_deref_def
      downgrade_clone_def ptr_swap_def reader_defs Let_def
      split: option.split cellref.split pc.split)

lemma with_tables_drop:
  "sdarc_drop a i (with_tables tr pe tf s) = same_tables tr pe tf (sdarc_drop a i s)"
  "drop_weak_inner_ref v i (with_tables tr pe tf s) = same_tables tr pe tf (drop_weak_inner_ref v i s)"
  by (simp_all add: sdarc_drop_def drop_weak_inner_ref_def deref_def with_tables_def obj_at_def put_def
      take_handle_def split: option.split)

lemma with_tables_traverse:
  "traverse_atomic_reader_signals (with_tables tr pe tf s)
    = same_tables tr pe tf (traverse_atomic_reader_signals s)"
  by (simp add: traverse_atomic_reader_signals_def with_tables_def Let_def)

lemma with_tables_clear_weak:
  "clear_weak_backref_impl a (with_tables tr pe tf s)
    = bind_outcome (clear_weak_backref_impl a s) (\<lambda>(r, s'). Next (r, with_tables tr pe tf s'))"
  by (simp add: clear_weak_backref_impl_def split: option.split)

definition world_with :: "(addr \<Rightarrow> tstate option) \<Rightarrow> addr list list \<Rightarrow> addr list \<Rightarrow> world \<Rightarrow> world" where
  "world_with tr pe tf w = w\<lparr>core := with_tables tr pe tf (core w)\<rparr>"

abbreviation same_world ::
  "(addr \<Rightarrow> tstate option) \<Rightarrow> addr list list \<Rightarrow> addr list \<Rightarrow> world outcome \<Rightarrow> world outcome" where
  "same_world tr pe tf r \<equiv> bind_outcome r (\<lambda>w. Next (world_with tr pe tf w))"

lemma world_with_simps [simp]:
  "core (world_with tr pe tf w) = with_tables tr pe tf (core w)"
  "data_handles (world_with tr pe tf w) = data_handles w"
  "world_with tr pe tf w\<lparr>core := s\<rparr> = w\<lparr>core := s\<rparr>"
  "on_sdarc_drop c (world_with tr pe tf w) = world_with tr pe tf (on_sdarc_drop c w)"
  by (simp_all add: world_with_def on_sdarc_drop_def)

lemma world_with_handles:
  "drop_handles i cs (world_with tr pe tf w) = same_world tr pe tf (drop_handles i cs w)"
proof (induction cs arbitrary: w)
  case (Cons c cs)
  have "drop_in_collector i c (world_with tr pe tf w) = same_world tr pe tf (drop_in_collector i c w)"
    by (cases "sdarc_drop c i (core w)") (simp_all add: drop_in_collector_def with_tables_drop world_with_def on_sdarc_drop_def)
  then show ?case using Cons.IH by (cases "drop_in_collector i c w") simp_all
qed simp

lemma world_with_free:
  "free_inner i a (world_with tr pe tf w) = same_world tr pe tf (free_inner i a w)"
proof (cases "obj_at (core w) a")
  case (Some x)
  let ?h = "(core w)\<lparr>heap := (heap (core w))[a := None]\<rparr>"
  let ?w = "case weak_ref x of None \<Rightarrow> w | Some v \<Rightarrow> on_sdarc_drop v w"
  have e: "(case weak_ref x of None \<Rightarrow> world_with tr pe tf w | Some v \<Rightarrow> on_sdarc_drop v (world_with tr pe tf w))
      = world_with tr pe tf ?w" by (simp split: option.split)
  show ?thesis
  proof (cases "drop_weak_inner_ref (weak_ref x) i ?h")
    case (Next s')
    have u: "?w\<lparr>core := with_tables tr pe tf s', data_handles := d\<rparr>
        = world_with tr pe tf (?w\<lparr>core := s', data_handles := d\<rparr>)" for d by (simp add: world_with_def)
    show ?thesis using Some Next by (simp add: free_inner_def with_tables_drop Let_def e u world_with_handles)
  qed (use Some in \<open>simp_all add: free_inner_def with_tables_drop\<close>)
qed (simp add: free_inner_def)

section \<open>What every reachable state satisfies\<close>

text \<open>The fat pointer of an entry points to the object with these counters, at that object's type.\<close>

definition entry_ok :: "(ty \<Rightarrow> nat) \<Rightarrow> keyed_world \<Rightarrow> SdarcInnerFatPtr \<Rightarrow> cptr \<Rightarrow> bool" where
  "entry_ok offset_of k f c \<longleftrightarrow>
     (\<exists>T. inner_of k (erased_ptr f) = Some (T, c) \<and> vtable_ref f = get_sdarc_vtable_ref offset_of T)"

definition new_entries :: "keyed_world \<Rightarrow> (SdarcInnerFatPtr \<times> cptr) list" where
  "new_entries k = concat (new_counters_to_track k)"

definition memory_typed :: "keyed_world \<Rightarrow> bool" where
  "memory_typed k \<longleftrightarrow> (\<forall>a. inner_of k a = None \<longleftrightarrow> obj_at (core k) a = None)
     \<and> (\<forall>a b T U c. inner_of k a = Some (T, c) \<longrightarrow> inner_of k b = Some (U, c) \<longrightarrow> a = b)"

definition table_ok :: "(ty \<Rightarrow> nat) \<Rightarrow> keyed_world \<Rightarrow> bool" where
  "table_ok offset_of k \<longleftrightarrow> memory_typed k
     \<and> (\<forall>c f st. tracked_counters k c = Some (f, st) \<longrightarrow> entry_ok offset_of k f c)
     \<and> (\<forall>f c. (f, c) \<in> set (new_entries k) \<longrightarrow> entry_ok offset_of k f c \<and> tracked_counters k c = None)
     \<and> distinct (map snd (new_entries k)) \<and> length (new_counters_to_track k) = nshards (core k)
     \<and> distinct (to_free k)
     \<and> (\<forall>c\<in>set (to_free k). \<exists>f. tracked_counters k c = Some (f, ReadyToFree))"

lemma table_okD:
  assumes "table_ok offset_of k"
  shows "memory_typed k" and "tracked_counters k c = Some (f, st) \<Longrightarrow> entry_ok offset_of k f c"
    and "(f, c) \<in> set (new_entries k) \<Longrightarrow> entry_ok offset_of k f c \<and> tracked_counters k c = None"
    and "distinct (map snd (new_entries k))" and "length (new_counters_to_track k) = nshards (core k)"
    and "distinct (to_free k)" and "c \<in> set (to_free k) \<Longrightarrow> \<exists>f. tracked_counters k c = Some (f, ReadyToFree)"
  using assms by (auto simp: table_ok_def)

lemma typed_alive: "memory_typed k \<Longrightarrow> inner_of k a = Some (T, c) \<Longrightarrow> \<exists>x. obj_at (core k) a = Some x"
  unfolding memory_typed_def by (metis not_None_eq)

lemma typed_unique:
  "memory_typed k \<Longrightarrow> inner_of k a = Some (T, c) \<Longrightarrow> inner_of k b = Some (U, c) \<Longrightarrow> a = b"
  unfolding memory_typed_def by blast

lemma owner_of:
  assumes "memory_typed k" and "inner_of k a = Some (T, c)"
  shows "counters_owner k c = Some a"
proof -
  obtain x where "obj_at (core k) a = Some x" using typed_alive [OF assms] by blast
  then have "a \<in> set [0..<length (heap (core k))]" using obj_at_less by simp
  moreover have "map_option snd (inner_of k a) = Some c" using assms(2) by simp
  ultimately have "counters_owner k c \<noteq> None" unfolding counters_owner_def find_None_iff by blast
  moreover have "b = a" if "counters_owner k c = Some b" for b
    using that assms typed_unique [OF assms(1)] by (auto simp: counters_owner_def find_Some_iff)
  ultimately show ?thesis by blast
qed

lemma owner_has:
  "counters_owner k c = Some a \<Longrightarrow> \<exists>T. inner_of k a = Some (T, c)"
  by (auto simp: counters_owner_def find_Some_iff)

lemma owner_none: "memory_typed k \<Longrightarrow> counters_owner k c = None \<Longrightarrow> inner_of k a \<noteq> Some (T, c)"
  using owner_of by fastforce

lemma owner_same: 
  "inner_of k' = inner_of k \<Longrightarrow> length (heap (core k')) = length (heap (core k))
    \<Longrightarrow> counters_owner k' c = counters_owner k c"
  by (simp add: counters_owner_def)

lemma abs_tracked_owner: "counters_owner k c = Some a \<Longrightarrow> abs_tracked k a = map_option snd (tracked_counters k c)"
  using owner_has [of k c a] by (auto simp: abs_tracked_def)

lemma abs_sys_tables:
  "abs_sys k = with_tables (abs_tracked k) (map (map (\<lambda>(f, c). erased_ptr f)) (new_counters_to_track k))
     (map (\<lambda>c. the (counters_owner k c)) (to_free k)) (core k)"
  by (simp add: abs_sys_def with_tables_def)

section \<open>One visit\<close>

definition same_shape :: "sys \<Rightarrow> sys \<Rightarrow> bool" where
  "same_shape s s' \<longleftrightarrow> nshards s' = nshards s \<and> length (heap s') = length (heap s) \<and> hz s' = hz s
     \<and> at_cpc s' = at_cpc s \<and> todo s' = todo s \<and> (\<forall>a. obj_at s' a = None \<longleftrightarrow> obj_at s a = None)"

lemma same_shape_refl [simp]: "same_shape s s"
  by (simp add: same_shape_def)

lemma same_shape_put: "obj_at s a = Some x \<Longrightarrow> same_shape s (put a y s)"
  using obj_at_put [OF obj_at_less, of s a x y] by (auto simp: same_shape_def put_def)

lemma abs_tracked_core [simp]: "abs_tracked (k\<lparr>core := s\<rparr>) = abs_tracked k"
  by (auto simp: abs_tracked_def fun_eq_iff split: option.split)

lemma abs_sys_core:
  assumes "same_shape (core k) s"
  shows "abs_sys (k\<lparr>core := s\<rparr>) = with_tables (abs_tracked k)
     (map (map (\<lambda>(f, c). erased_ptr f)) (new_counters_to_track k)) (map (\<lambda>c. the (counters_owner k c)) (to_free k)) s"
proof -
  have "counters_owner (k\<lparr>core := s\<rparr>) c = counters_owner k c" for c
    using assms by (intro owner_same) (simp_all add: same_shape_def)
  then show ?thesis by (simp add: abs_sys_tables)
qed

lemma clear_weak_shape:
  "clear_weak_backref_impl a s = Next (r, s') \<Longrightarrow> same_shape s s'"
  by (auto simp: clear_weak_backref_impl_def same_shape_put split: option.splits if_splits)

lemma keyed_update_state_shape:
  assumes "keyed_update_state c f st k = Next (st', k')"
  shows "\<exists>s. k' = k\<lparr>core := s\<rparr> \<and> same_shape (core k) s"
proof -
  have id: "\<exists>s. k1 = k1\<lparr>core := s\<rparr> \<and> same_shape (core k1) s" for k1 :: keyed_world
    by (rule exI [of _ "core k1"]) simp
  show ?thesis
    using assms
    by (cases st)
      (auto simp: keyed_update_state_def at_counters_def Let_def clear_weak_back_ref_def into_typed_def
        bind_outcome_Next id same_shape_put clear_weak_shape
        split: option.splits if_splits prod.splits)
qed

lemma keyed_update_state_refines:
  assumes t: "memory_typed k" and e: "entry_ok offset_of k f c"
  shows "update_state (erased_ptr f) st (abs_sys k)
    = bind_outcome (keyed_update_state c f st k) (\<lambda>(st', k'). Next (set_tracked (erased_ptr f) st' (abs_sys k')))"
proof -
  let ?a = "erased_ptr f" and ?s = "core k"
  obtain T where T: "inner_of k ?a = Some (T, c)" "vtable_ref f = get_sdarc_vtable_ref offset_of T"
    using e by (auto simp: entry_ok_def)
  obtain x where x: "obj_at ?s ?a = Some x" using typed_alive [OF t T(1)] by blast
  have at: "at_counters c k g = g ?a x" for g :: "addr \<Rightarrow> obj \<Rightarrow> (tstate \<times> keyed_world) outcome"
    using owner_of [OF t T(1)] x by (simp add: at_counters_def)
  have o: "obj_at (abs_sys k) ?a = Some x" "nshards (abs_sys k) = nshards ?s"
    by (simp_all add: abs_sys_tables x)
  show ?thesis
  proof (cases st)
    case DefaultState
    have "abs_sys (k\<lparr>core := put ?a y ?s\<rparr>) = put ?a y (abs_sys k)" for y
      by (simp only: abs_sys_core [OF same_shape_put [OF x]]) (simp add: abs_sys_tables)
    then show ?thesis
      using DefaultState o by (simp add: update_state_def keyed_update_state_def at deref_def split: prod.split)
  next
    case RequiresReChecking
    have cw: "clear_weak_back_ref f k
        = bind_outcome (clear_weak_backref_impl ?a ?s) (\<lambda>(r, s). Next (r, k\<lparr>core := s\<rparr>))"
      using T by (simp add: clear_weak_back_ref_def into_typed_def get_sdarc_vtable_ref_def)
    have "bind_outcome (clear_weak_backref_impl ?a (abs_sys k)) (\<lambda>(r, s'). Next (set_tracked ?a (h r) s'))
        = bind_outcome (clear_weak_back_ref f k) (\<lambda>(r, k'). Next (set_tracked ?a (h r) (abs_sys k')))"
      for h :: "ClearWeakBackRefResult \<Rightarrow> tstate"
    proof (cases "clear_weak_backref_impl ?a ?s")
      case (Next p)
      then obtain r s' where p: "clear_weak_backref_impl ?a ?s = Next (r, s')" by (cases p) auto
      then show ?thesis
        by (simp add: cw p abs_sys_core [OF clear_weak_shape [OF p]])
          (simp add: abs_sys_tables with_tables_clear_weak p)
    qed (simp_all add: cw abs_sys_tables with_tables_clear_weak)
    note w = this [of "\<lambda>r. if r = WeakBackRefCleared then RequiresReChecking else ReadyToFree"]
    have split: "bind_outcome (bind_outcome q (\<lambda>(r, k'). Next (h r, k'))) (\<lambda>(st', k'). Next (set_tracked ?a st' (abs_sys k')))
        = bind_outcome q (\<lambda>(r, k'). Next (set_tracked ?a (h r) (abs_sys k')))"
      for q :: "(ClearWeakBackRefResult \<times> keyed_world) outcome" and h :: "ClearWeakBackRefResult \<Rightarrow> tstate"
      by (cases q) auto
    show ?thesis
      using RequiresReChecking o
      by (simp add: update_state_def keyed_update_state_def at deref_def w split split: option.split)
  qed (simp add: update_state_def keyed_update_state_def)
qed

section \<open>The loop over the counters\<close>

lemma table_fields [simp]:
  "entry_ok offset_of (k\<lparr>tracked_counters := m\<rparr>) = entry_ok offset_of k"
  "entry_ok offset_of (k\<lparr>to_free := l\<rparr>) = entry_ok offset_of k"
  "new_entries (k\<lparr>tracked_counters := m\<rparr>) = new_entries k" "new_entries (k\<lparr>to_free := l\<rparr>) = new_entries k"
  "memory_typed (k\<lparr>tracked_counters := m\<rparr>) = memory_typed k" "memory_typed (k\<lparr>to_free := l\<rparr>) = memory_typed k"
  "counters_owner (k\<lparr>tracked_counters := m\<rparr>) = counters_owner k"
  "counters_owner (k\<lparr>to_free := l\<rparr>) = counters_owner k"
  "abs_tracked (k\<lparr>to_free := l\<rparr>) = abs_tracked k"
  by (simp_all add: entry_ok_def fun_eq_iff new_entries_def memory_typed_def counters_owner_def
      abs_tracked_def split: option.split)

lemma track_entry:
  assumes t: "memory_typed k" and a: "inner_of k a = Some (T, c)"
  shows "abs_tracked (k\<lparr>tracked_counters := (tracked_counters k)(c \<mapsto> (f, st))\<rparr>) = (abs_tracked k)(a := Some st)"
proof (rule ext)
  fix b
  show "abs_tracked (k\<lparr>tracked_counters := (tracked_counters k)(c \<mapsto> (f, st))\<rparr>) b
      = ((abs_tracked k)(a := Some st)) b"
  proof (cases "b = a")
    case False
    then have "inner_of k b \<noteq> Some (U, c)" for U using typed_unique [OF t a] by blast
    with False show ?thesis by (simp add: abs_tracked_def split: option.split prod.split)
  qed (simp add: abs_tracked_def a)
qed

lemma abs_sys_entry:
  assumes "memory_typed k" and "inner_of k a = Some (T, c)"
  shows "abs_sys (k\<lparr>tracked_counters := (tracked_counters k)(c \<mapsto> (f, st))\<rparr>) = set_tracked a st (abs_sys k)"
    and "abs_sys (k\<lparr>tracked_counters := (tracked_counters k)(c \<mapsto> (f, st)), to_free := to_free k @ [c]\<rparr>)
      = set_tracked a st (abs_sys k)\<lparr>tofree := tofree (abs_sys k) @ [a]\<rparr>"
    unfolding abs_sys_tables by (simp_all add: track_entry [OF assms] owner_of [OF assms])

lemma table_ok_core:
  assumes "table_ok offset_of k" and "same_shape (core k) s"
  shows "table_ok offset_of (k\<lparr>core := s\<rparr>)"
  using assms by (simp add: table_ok_def memory_typed_def entry_ok_def new_entries_def same_shape_def)

lemma table_ok_entry:
  assumes ok: "table_ok offset_of k" and c: "tracked_counters k c = Some (f, st)" and new: "c \<notin> set (to_free k)"
  shows "table_ok offset_of (k\<lparr>tracked_counters := (tracked_counters k)(c \<mapsto> (f, st'))\<rparr>)"
    and "table_ok offset_of (k\<lparr>tracked_counters := (tracked_counters k)(c \<mapsto> (f, ReadyToFree)),
      to_free := to_free k @ [c]\<rparr>)"
proof -
  have n: "(g, c) \<notin> set (new_entries k)" for g using table_okD(3) [OF ok, of g c] c by auto
  have "entry_ok offset_of k f c" by (rule table_okD(2) [OF ok c])
  note facts = table_okD [OF ok] this n new
  have m: "\<forall>d g s. ((tracked_counters k)(c \<mapsto> (f, z))) d = Some (g, s) \<longrightarrow> entry_ok offset_of k g d"
    "\<forall>g d. (g, d) \<in> set (new_entries k) \<longrightarrow> entry_ok offset_of k g d \<and> ((tracked_counters k)(c \<mapsto> (f, z))) d = None"
    for z
    using facts(2,3,8,9) by auto
  moreover have "\<forall>d\<in>set (to_free k). \<exists>g. ((tracked_counters k)(c \<mapsto> (f, s))) d = Some (g, ReadyToFree)" for s
    using facts(7) new by auto
  ultimately show "table_ok offset_of (k\<lparr>tracked_counters := (tracked_counters k)(c \<mapsto> (f, st'))\<rparr>)"
    "table_ok offset_of (k\<lparr>tracked_counters := (tracked_counters k)(c \<mapsto> (f, ReadyToFree)),
      to_free := to_free k @ [c]\<rparr>)"
    using facts(1,4,5,6) new m [of st'] m [of ReadyToFree] unfolding table_ok_def by (simp_all del: fun_upd_apply) auto
qed

text \<open>What a visit leaves: all but the objects' counters, the table and the list of counters to free.\<close>

definition visit_frame :: "keyed_world \<Rightarrow> keyed_world \<Rightarrow> bool" where
  "visit_frame k k' \<longleftrightarrow> inner_of k' = inner_of k \<and> new_counters_to_track k' = new_counters_to_track k
     \<and> same_shape (core k) (core k')
     \<and> (\<forall>s. world.truncate k'\<lparr>core := s\<rparr> = world.truncate k\<lparr>core := s\<rparr>)"

lemma visit_frame_refl [simp]: "visit_frame k k"
  by (simp add: visit_frame_def)

lemma visit_frame_trans: "visit_frame k k' \<Longrightarrow> visit_frame k' k'' \<Longrightarrow> visit_frame k k''"
  by (simp add: visit_frame_def same_shape_def)

lemma visit_frame_owner: "visit_frame k k' \<Longrightarrow> counters_owner k' = counters_owner k"
  using owner_same by (auto simp: visit_frame_def same_shape_def fun_eq_iff)

lemma visit_frame_core: "same_shape (core k) s \<Longrightarrow> visit_frame k (k\<lparr>core := s\<rparr>)"
  by (simp add: visit_frame_def world.defs)

lemma visit_frame_entry:
  "visit_frame k k' \<Longrightarrow> visit_frame k (k'\<lparr>tracked_counters := m\<rparr>)"
  "visit_frame k k' \<Longrightarrow> visit_frame k (k'\<lparr>to_free := l\<rparr>)"
  by (simp_all add: visit_frame_def world.defs)

lemma keyed_visit_refines:
  assumes ok: "table_ok offset_of k" and new: "c \<notin> set (to_free k)"
  shows "(\<forall>a. counters_owner k c = Some a \<longrightarrow>
        visit_counter a (abs_sys k) = bind_outcome (keyed_visit c k) (\<lambda>k'. Next (abs_sys k')))
    \<and> (counters_owner k c = None \<longrightarrow> keyed_visit c k = Next k \<and> tracked_counters k c = None)
    \<and> (\<forall>k'. keyed_visit c k = Next k' \<longrightarrow> table_ok offset_of k' \<and> visit_frame k k'
        \<and> set (to_free k') \<subseteq> insert c (set (to_free k)))"
proof (cases "tracked_counters k c")
  case None
  then show ?thesis
    using ok by (auto simp: keyed_visit_def visit_counter_def abs_tracked_owner abs_sys_tables)
next
  case (Some e)
  obtain f st where e: "tracked_counters k c = Some (f, st)" using Some by (cases e) auto
  let ?a = "erased_ptr f"
  have t: "memory_typed k" by (rule table_okD(1) [OF ok])
  have f: "entry_ok offset_of k f c" by (rule table_okD(2) [OF ok e])
  obtain T where T: "inner_of k ?a = Some (T, c)" using f by (auto simp: entry_ok_def)
  have o: "counters_owner k c = Some ?a" by (rule owner_of [OF t T])
  have tr: "tracked (abs_sys k) ?a = Some st" "hz (abs_sys k) = hz (core k)"
    using abs_tracked_owner [OF o] e by (simp_all add: abs_sys_tables)
  show ?thesis
  proof (cases "?a \<in> set (hz (core k))")
    case True
    then have "keyed_visit c k = Next (k\<lparr>tracked_counters := (tracked_counters k)(c \<mapsto> (f, DefaultState))\<rparr>)"
      by (simp add: keyed_visit_def e)
    then show ?thesis
      using o tr True table_ok_entry(1) [OF ok e new] abs_sys_entry(1) [OF t T]
      by (auto simp: visit_counter_def visit_frame_entry)
  next
    case False
    let ?go = "\<lambda>st' k'. k'\<lparr>tracked_counters := (tracked_counters k')(c \<mapsto> (f, st')),
      to_free := (if st' = ReadyToFree then to_free k' @ [c] else to_free k')\<rparr>"
    have v: "keyed_visit c k = bind_outcome (keyed_update_state c f st k) (\<lambda>(st', k'). Next (?go st' k'))"
      using False by (simp add: keyed_visit_def e)
    have step: "table_ok offset_of (?go st' k') \<and> visit_frame k (?go st' k')
        \<and> set (to_free (?go st' k')) \<subseteq> insert c (set (to_free k))
        \<and> abs_sys (?go st' k') = (if st' = ReadyToFree
             then set_tracked ?a st' (abs_sys k')\<lparr>tofree := tofree (abs_sys k') @ [?a]\<rparr>
             else set_tracked ?a st' (abs_sys k'))"
      if u: "keyed_update_state c f st k = Next (st', k')" for st' k'
    proof -
      obtain s where s: "k' = k\<lparr>core := s\<rparr>" "same_shape (core k) s"
        using keyed_update_state_shape [OF u] by blast
      have ok': "table_ok offset_of k'" unfolding s(1) by (rule table_ok_core [OF ok s(2)])
      have e': "tracked_counters k' c = Some (f, st)" "c \<notin> set (to_free k')" "inner_of k' ?a = Some (T, c)"
        using e new T by (simp_all add: s(1))
      have fr: "visit_frame k k'" unfolding s(1) by (rule visit_frame_core [OF s(2)])
      show ?thesis
      proof (cases "st' = ReadyToFree")
        case True
        then show ?thesis
          using table_ok_entry(2) [OF ok' e'(1,2)] abs_sys_entry(2) [OF table_okD(1) [OF ok'] e'(3)] fr
          by (auto simp: visit_frame_entry s(1))
      next
        case False
        then show ?thesis
          using table_ok_entry(1) [OF ok' e'(1,2)] abs_sys_entry(1) [OF table_okD(1) [OF ok'] e'(3)] fr
          by (auto simp: visit_frame_entry s(1))
      qed
    qed
    have "visit_counter ?a (abs_sys k) = bind_outcome (update_state ?a st (abs_sys k)) (\<lambda>s'.
        Next (if tracked s' ?a = Some ReadyToFree then s'\<lparr>tofree := tofree s' @ [?a]\<rparr> else s'))"
      using tr False by (simp add: visit_counter_def)
    also have "\<dots> = bind_outcome (keyed_visit c k) (\<lambda>k'. Next (abs_sys k'))"
      unfolding keyed_update_state_refines [OF t f] v
      by (cases "keyed_update_state c f st k")
        (use step in \<open>auto simp: set_tracked_def split: prod.split\<close>)
    finally show ?thesis using o step v by (auto simp: bind_outcome_Next)
  qed
qed

text \<open>The objects that have the counters of a list, and the same for a set of counters.\<close>

definition owners :: "keyed_world \<Rightarrow> cptr list \<Rightarrow> addr list" where
  "owners k cs = List.map_filter (counters_owner k) cs"

definition owner_set :: "keyed_world \<Rightarrow> cptr list \<Rightarrow> addr list" where
  "owner_set k cs = sorted_list_of_set (set (owners k cs))"

lemma owners_simps [simp]:
  "owners k [] = []"
  "owners k (c # cs) = (case counters_owner k c of None \<Rightarrow> owners k cs | Some a \<Rightarrow> a # owners k cs)"
  by (simp_all add: owners_def List.map_filter_simps split: option.split)

lemma set_owners: "set (owners k cs) = {a. \<exists>c\<in>set cs. counters_owner k c = Some a}"
  by (induction cs) (auto split: option.split)

lemma owner_set_insert:
  "counters_owner k c = Some a \<Longrightarrow> owner_set k (insort_insert c cs) = insort_insert a (owner_set k cs)"
proof -
  assume a: "counters_owner k c = Some a"
  have "set (owners k (insort_insert c cs)) = insert a (set (owners k cs))"
    using a by (auto simp: set_owners set_insort_insert)
  moreover have "sorted (insort_insert a (owner_set k cs))" "distinct (insort_insert a (owner_set k cs))"
    "set (insort_insert a (owner_set k cs)) = insert a (set (owners k cs))"
    by (simp_all add: owner_set_def sorted_insort_insert distinct_insort_insert set_insort_insert)
  ultimately show ?thesis
    by (metis owner_set_def sorted_list_of_set.idem_if_sorted_distinct)
qed

lemma keyed_each_refines:
  assumes "table_ok offset_of k" and "distinct cs" and "set cs \<inter> set (to_free k) = {}"
  shows "update_each (owners k cs) (owner_set k acc) (abs_sys k)
      = bind_outcome (keyed_update_each cs acc k) (\<lambda>(r, k'). Next (owner_set k r, abs_sys k'))
    \<and> (\<forall>r k'. keyed_update_each cs acc k = Next (r, k') \<longrightarrow> table_ok offset_of k' \<and> visit_frame k k')"
  using assms
proof (induction cs arbitrary: acc k)
  case (Cons c cs)
  have new: "c \<notin> set (to_free k)" using Cons.prems(3) by simp
  note v = keyed_visit_refines [OF Cons.prems(1) new]
  let ?more = "\<lambda>k'. if map_option snd (tracked_counters k' c) = Some RequiresReChecking
      then insort_insert c acc else acc"
  have ih: "update_each (owners k cs) (owner_set k acc') (abs_sys k')
        = bind_outcome (keyed_update_each cs acc' k') (\<lambda>(r, k''). Next (owner_set k r, abs_sys k''))
      \<and> (\<forall>r k''. keyed_update_each cs acc' k' = Next (r, k'') \<longrightarrow> table_ok offset_of k'' \<and> visit_frame k k'')"
    if k': "keyed_visit c k = Next k'" for k' acc'
  proof -
    have k'_ok: "table_ok offset_of k'" "visit_frame k k'" "set (to_free k') \<subseteq> insert c (set (to_free k))"
      using v k' by blast+
    have "counters_owner k' = counters_owner k" by (rule visit_frame_owner [OF k'_ok(2)])
    then have "owners k' = owners k" by (intro ext) (simp add: owners_def)
    then have o: "owners k' = owners k" "owner_set k' = owner_set k"
      by (simp_all add: owner_set_def fun_eq_iff)
    have "distinct cs" "set cs \<inter> set (to_free k') = {}" using Cons.prems(2,3) k'_ok(3) by auto
    from Cons.IH [OF k'_ok(1) this, of acc'] visit_frame_trans [OF k'_ok(2)] show ?thesis
      unfolding o by blast
  qed
  show ?case
  proof (cases "counters_owner k c")
    case None
    then have "keyed_visit c k = Next k" "tracked_counters k c = None" using v by simp_all
    then show ?thesis using ih [of k acc] None by simp
  next
    case (Some a)
    then have vis: "visit_counter a (abs_sys k) = bind_outcome (keyed_visit c k) (\<lambda>k'. Next (abs_sys k'))"
      using v by blast
    show ?thesis
    proof (cases "keyed_visit c k")
      case (Next k')
      have "counters_owner k' = counters_owner k" using v Next visit_frame_owner by blast
      then have "tracked (abs_sys k') a = map_option snd (tracked_counters k' c)"
        using abs_tracked_owner [of k' c a] Some by (simp add: abs_sys_tables)
      then show ?thesis
        using ih [OF Next, of "?more k'"] Some vis Next by (auto simp: owner_set_insert)
    qed (use Some vis in auto)
  qed
qed simp

section \<open>Frees\<close>

text \<open>What freeing the object at \<open>a\<close> and dropping its handles does to which objects live.\<close>

definition dying :: "addr set \<Rightarrow> world \<Rightarrow> world \<Rightarrow> bool" where
  "dying A w w' \<longleftrightarrow> nshards (core w') = nshards (core w) \<and> length (heap (core w')) = length (heap (core w))
     \<and> at_cpc (core w') = at_cpc (core w) \<and> todo (core w') = todo (core w)
     \<and> (\<forall>b. obj_at (core w') b = None \<longleftrightarrow> b \<in> A \<or> obj_at (core w) b = None)
     \<and> collection_waiting w' = collection_waiting w \<and> notified w' = notified w
     \<and> outer_iteration_counter w' = outer_iteration_counter w"

lemma dying_trans: "dying A w w' \<Longrightarrow> dying B w' w'' \<Longrightarrow> dying (A \<union> B) w w''"
  by (auto simp: dying_def)

lemma sdarc_drop_shape:
  assumes "sdarc_drop c i s = Next s'"
  shows "same_shape s s'"
proof -
  obtain x where x: "obj_at s c = Some x" and s': "s' = take_handle c (put c (on_shard i a_decremented x) s)"
    using assms by (auto simp: sdarc_drop_def deref_def split: option.splits if_splits)
  show ?thesis
    using same_shape_put [OF x, of "on_shard i a_decremented x"] unfolding s' same_shape_def
    by simp
qed

lemma drop_in_collector_dying: "drop_in_collector i c w = Next w' \<Longrightarrow> dying {} w w'"
  using sdarc_drop_shape
  by (fastforce simp: drop_in_collector_def on_sdarc_drop_def dying_def same_shape_def bind_outcome_Next)

lemma drop_handles_dying: "drop_handles i cs w = Next w' \<Longrightarrow> dying {} w w'"
proof (induction cs arbitrary: w)
  case (Cons c cs)
  then obtain w1 where w1: "drop_in_collector i c w = Next w1" "drop_handles i cs w1 = Next w'"
    by (auto simp: bind_outcome_Next)
  show ?case using dying_trans [OF drop_in_collector_dying [OF w1(1)] Cons.IH [OF w1(2)]] by simp
qed (simp add: dying_def)

lemma free_inner_Next:
  assumes "free_inner i a w = Next w'"
  obtains x s1 where "obj_at (core w) a = Some x"
    and "drop_weak_inner_ref (weak_ref x) i ((core w)\<lparr>heap := (heap (core w))[a := None]\<rparr>) = Next s1"
    and "drop_handles i (data_handles w a) ((case weak_ref x of None \<Rightarrow> w | Some v \<Rightarrow> on_sdarc_drop v w)
        \<lparr>core := s1, data_handles := (data_handles w)(a := [])\<rparr>) = Next w'"
  using assms by (auto simp: free_inner_def bind_outcome_Next split: option.splits if_splits)

lemma free_inner_dying:
  assumes "free_inner i a w = Next w'"
  shows "dying {a} w w'"
proof -
  let ?h = "(core w)\<lparr>heap := (heap (core w))[a := None]\<rparr>"
  obtain x s1 where x: "obj_at (core w) a = Some x" and s1: "drop_weak_inner_ref (weak_ref x) i ?h = Next s1"
    and w': "drop_handles i (data_handles w a) ((case weak_ref x of None \<Rightarrow> w | Some v \<Rightarrow> on_sdarc_drop v w)
        \<lparr>core := s1, data_handles := (data_handles w)(a := [])\<rparr>) = Next w'" (is "drop_handles i _ ?w1 = _")
    by (rule free_inner_Next [OF assms])
  have "same_shape ?h s1"
    using s1 same_shape_put [of ?h] by (auto simp: drop_weak_inner_ref_def deref_def split: option.splits)
  moreover have "obj_at ?h b = None \<longleftrightarrow> b \<in> {a} \<or> obj_at (core w) b = None" for b
    using obj_at_less [OF x] by (auto simp: obj_at_def nth_list_update)
  ultimately have "dying {a} w ?w1"
    by (simp add: dying_def same_shape_def on_sdarc_drop_def split: option.split)
  from dying_trans [OF this drop_handles_dying [OF w']] show ?thesis by simp
qed

lemma truncate_simps [simp]:
  "core (world.truncate k) = core k" "data_handles (world.truncate k) = data_handles k"
  "counters_to_recheck (world.truncate k) = counters_to_recheck k"
  "collection_waiting (world.truncate k) = collection_waiting k"
  "notified (world.truncate k) = notified k"
  "outer_iteration_counter (world.truncate k) = outer_iteration_counter k"
  by (simp_all add: world.defs)

lemma abs_world_tables:
  "abs_world k = world_with (abs_tracked k) (map (map (\<lambda>(f, c). erased_ptr f)) (new_counters_to_track k))
     (map (\<lambda>c. the (counters_owner k c)) (to_free k)) (world.truncate k)"
  by (simp add: abs_world_def world_with_def abs_sys_tables)

lemma keyed_free_one:
  assumes ok: "table_ok offset_of k" and e: "to_free k = []" and c: "tracked_counters k c = Some (f, ReadyToFree)"
    and w: "free_inner i (erased_ptr f) (world.truncate k) = Next w"
  defines "k' \<equiv> k\<lparr>tracked_counters := (tracked_counters k)(c := None), core := core w,
    data_handles := data_handles w, counters_to_recheck := counters_to_recheck w,
    inner_of := (inner_of k)(erased_ptr f := None)\<rparr>"
  shows "table_ok offset_of k'"
    and "abs_world k' = world_with ((abs_tracked k)(erased_ptr f := None))
      (map (map (\<lambda>(f, c). erased_ptr f)) (new_counters_to_track k)) [] w"
    and "d \<noteq> c \<Longrightarrow> tracked_counters k d \<noteq> None \<Longrightarrow> counters_owner k' d = counters_owner k d"
proof -
  let ?a = "erased_ptr f"
  have t: "memory_typed k" by (rule table_okD(1) [OF ok])
  obtain T where T: "inner_of k ?a = Some (T, c)"
    using table_okD(2) [OF ok c] by (auto simp: entry_ok_def)
  have dy: "dying {?a} (world.truncate k) w" by (rule free_inner_dying [OF w])
  have inner: "inner_of k' b = (if b = ?a then None else inner_of k b)" for b by (simp add: k'_def)
  have keep: "entry_ok offset_of k' g d" if "entry_ok offset_of k g d" "d \<noteq> c" for g d
    using that T by (auto simp: entry_ok_def inner)
  have n: "(g, c) \<notin> set (new_entries k)" for g using table_okD(3) [OF ok, of g c] c by auto
  have ne: "new_entries k' = new_entries k" by (simp add: k'_def new_entries_def)
  have mt: "memory_typed k'"
    using t dy unfolding memory_typed_def inner by (auto simp: k'_def dying_def)
  show "table_ok offset_of k'"
    unfolding table_ok_def ne
  proof (intro conjI allI impI)
    show "memory_typed k'" by (rule mt)
    show "entry_ok offset_of k' g d" if "tracked_counters k' d = Some (g, st)" for d g st
      using that keep table_okD(2) [OF ok, of d g st] by (auto simp: k'_def split: if_splits)
    show "entry_ok offset_of k' g d" if "(g, d) \<in> set (new_entries k)" for g d
      using that keep n table_okD(3) [OF ok that] by metis
    show "tracked_counters k' d = None" if "(g, d) \<in> set (new_entries k)" for g d
      using table_okD(3) [OF ok that] by (simp add: k'_def)
  qed (use table_okD(4,5) [OF ok] dy e in \<open>simp_all add: k'_def dying_def\<close>)
  have "abs_tracked k' b = ((abs_tracked k)(?a := None)) b" for b
  proof (cases "b = ?a")
    case False
    then have "inner_of k b \<noteq> Some (U, c)" for U using typed_unique [OF t T] by blast
    then show ?thesis using False by (auto simp: abs_tracked_def inner k'_def split: option.split)
  qed (simp add: abs_tracked_def inner)
  then have tr: "abs_tracked k' = (abs_tracked k)(?a := None)" by blast
  have "world.truncate k' = w" using dy by (cases w) (simp add: k'_def world.defs dying_def)
  then show "abs_world k' = world_with ((abs_tracked k)(?a := None))
      (map (map (\<lambda>(f, c). erased_ptr f)) (new_counters_to_track k)) [] w"
    unfolding abs_world_tables tr by (simp add: k'_def e)
  show "counters_owner k' d = counters_owner k d" if d: "d \<noteq> c" "tracked_counters k d \<noteq> None"
  proof -
    obtain g st where "tracked_counters k d = Some (g, st)" using d(2) by auto
    then obtain U where U: "inner_of k (erased_ptr g) = Some (U, d)"
      using table_okD(2) [OF ok] by (fastforce simp: entry_ok_def)
    then have "inner_of k' (erased_ptr g) = Some (U, d)" using d(1) T by (auto simp: inner)
    then show ?thesis using owner_of [OF mt] owner_of [OF t U] by simp
  qed
qed

lemma keyed_free_refines:
  assumes "table_ok offset_of k" and "to_free k = []" and "distinct cs"
    and "\<forall>c\<in>set cs. \<exists>f. tracked_counters k c = Some (f, ReadyToFree)"
  shows "free_pointers i (map (\<lambda>c. the (counters_owner k c)) cs) (abs_world k)
      = bind_outcome (keyed_free_pointers offset_of i cs k) (\<lambda>k'. Next (abs_world k'))
    \<and> (\<forall>k'. keyed_free_pointers offset_of i cs k = Next k' \<longrightarrow> table_ok offset_of k' \<and> to_free k' = []
         \<and> at_cpc (core k') = at_cpc (core k) \<and> todo (core k') = todo (core k))"
  using assms
proof (induction cs arbitrary: k)
  case (Cons c cs)
  let ?pe = "map (map (\<lambda>(f, c). erased_ptr f)) (new_counters_to_track k)"
  obtain f where c: "tracked_counters k c = Some (f, ReadyToFree)" using Cons.prems(4) by auto
  let ?a = "erased_ptr f" and ?k = "k\<lparr>tracked_counters := (tracked_counters k)(c := None)\<rparr>"
  obtain T where T: "inner_of k ?a = Some (T, c)" "vtable_ref f = get_sdarc_vtable_ref offset_of T"
    using table_okD(2) [OF Cons.prems(1) c] by (auto simp: entry_ok_def)
  have o: "counters_owner k c = Some ?a" by (rule owner_of [OF table_okD(1) [OF Cons.prems(1)] T(1)])
  have tr: "abs_tracked k ?a = Some ReadyToFree" using abs_tracked_owner [OF o] c by simp
  have trunc: "world.truncate ?k = world.truncate k" by (simp add: world.defs)
  have free: "fat_ptr_free f i ?k = bind_outcome (free_inner i ?a (world.truncate k)) (\<lambda>w.
      Next (?k\<lparr>core := core w, data_handles := data_handles w, counters_to_recheck := counters_to_recheck w,
        inner_of := (inner_of k)(?a := None)\<rparr>))"
    using T by (simp add: fat_ptr_free_def drop_sdarc_inner_impl_def into_typed_def get_sdarc_vtable_ref_def trunc)
  have ptr: "get_counters_ptr offset_of f ?k = Next c"
    using T by (simp add: get_counters_ptr_def get_sdarc_vtable_ref_def)
  have keyed: "keyed_free_pointers offset_of i (c # cs) k
      = bind_outcome (fat_ptr_free f i ?k) (keyed_free_pointers offset_of i cs)"
    using c by (simp add: ptr)
  have "core (abs_world k)\<lparr>tracked := (tracked (core (abs_world k)))(?a := None)\<rparr>
      = with_tables ((abs_tracked k)(?a := None)) ?pe [] (core k)"
    using Cons.prems(2) by (simp add: abs_world_tables)
  then have w0: "abs_world k\<lparr>core := core (abs_world k)\<lparr>tracked := (tracked (core (abs_world k)))(?a := None)\<rparr>\<rparr>
      = world_with ((abs_tracked k)(?a := None)) ?pe [] (world.truncate k)"
    by (simp add: abs_world_def world_with_def)
  have abs: "free_pointers i (map (\<lambda>c. the (counters_owner k c)) (c # cs)) (abs_world k)
      = bind_outcome (free_inner i ?a (world.truncate k)) (\<lambda>w. free_pointers i
          (map (\<lambda>c. the (counters_owner k c)) cs) (world_with ((abs_tracked k)(?a := None)) ?pe [] w))"
    using tr by (simp add: o w0 world_with_free)
      (cases "free_inner i ?a (world.truncate k)"; simp add: abs_world_tables)
  show ?case
  proof (cases "free_inner i ?a (world.truncate k)")
    case (Next w)
    let ?k' = "?k\<lparr>core := core w, data_handles := data_handles w, counters_to_recheck := counters_to_recheck w,
      inner_of := (inner_of k)(?a := None)\<rparr>"
    note one = keyed_free_one [OF Cons.prems(1,2) c Next]
    have "counters_owner ?k' d = counters_owner k d" if "d \<in> set cs" for d
      using that Cons.prems(3,4) by (intro one(3)) auto
    then have own: "map (\<lambda>c. the (counters_owner k c)) cs = map (\<lambda>c. the (counters_owner ?k' c)) cs"
      by (intro map_cong refl) simp
    have "to_free ?k' = []" "distinct cs"
      "\<forall>d\<in>set cs. \<exists>g. tracked_counters ?k' d = Some (g, ReadyToFree)"
      using Cons.prems(2-4) by auto
    note ih = Cons.IH [OF one(1) this]
    have "at_cpc (core w) = at_cpc (core k)" "todo (core w) = todo (core k)"
      using free_inner_dying [OF Next] by (simp_all add: dying_def)
    then show ?thesis
      unfolding abs keyed free Next bind_outcome_simps own one(2) [symmetric] using ih by simp
  qed (unfold abs keyed free, simp_all)
qed simp

text \<open>From a reachable state the frees end in one, or stop at a handle nobody had.\<close>

lemma drop_handles_runs:
  assumes "reach (emb as (core w))"
  shows "drop_handles i cs w = Disabled
    \<or> (\<exists>w'. drop_handles i cs w = Next w' \<and> reach (emb as (core w')))"
  using assms
proof (induction cs arbitrary: w)
  case (Cons c cs)
  have st: "step (LDrop c i) (emb as (core w)) = bind_outcome (sdarc_drop c i (core w)) (\<lambda>s'. Next (emb as s'))"
    by (simp add: emb_drop)
  have "\<not> release_with_guard (LDrop c i) (emb as (core w))" by (simp add: release_with_guard_def)
  then have "safe_outcome (step (LDrop c i) (emb as (core w)))"
    using step_safe [of "emb as (core w)" "LDrop c i"] reach_invariants [OF Cons.prems] by blast
  then consider "sdarc_drop c i (core w) = Disabled" | s' where "sdarc_drop c i (core w) = Next s'"
    unfolding st by (cases "sdarc_drop c i (core w)") simp_all
  then show ?case
  proof cases
    case (2 s')
    have "reach (emb as s')" using reach_step [OF Cons.prems, of "LDrop c i"] st 2 by simp
    then show ?thesis
      using Cons.IH [of "on_sdarc_drop c w\<lparr>core := s'\<rparr>"] 2 by (simp add: drop_in_collector_def)
  qed (simp add: drop_in_collector_def)
qed simp

lemma free_pointers_run:
  assumes "reach (emb as (core w))" and "i < nshards (core w)"
  shows "free_pointers i as w = Disabled
    \<or> (\<exists>w'. free_pointers i as w = Next w' \<and> reach (emb [] (core w')))"
  using assms
proof (induction as arbitrary: w)
  case (Cons a as)
  let ?s = "core w" and ?t = "core w\<lparr>tracked := (tracked (core w))(a := None)\<rparr>"
  obtain x s1 where x: "obj_at ?s a = Some x" and ready: "tracked ?s a = Some ReadyToFree" and nb: "back_ref x = None"
    and s1: "drop_weak_inner_ref (weak_ref x) i (?t\<lparr>heap := (heap ?s)[a := None]\<rparr>) = Next s1"
    and r1: "reach (emb as s1)"
    by (rule free_object_step [OF Cons.prems])
  let ?w1 = "(case weak_ref x of None \<Rightarrow> w | Some v \<Rightarrow> on_sdarc_drop v w)
    \<lparr>core := s1, data_handles := (data_handles w)(a := [])\<rparr>"
  have ob: "obj_at ?t a = Some x" using x by (auto simp: obj_at_def split: if_splits)
  have inner: "free_inner i a (w\<lparr>core := ?t\<rparr>) = drop_handles i (data_handles w a) ?w1"
    using s1 ob nb by (cases "weak_ref x") (simp_all add: free_inner_def on_sdarc_drop_def)
  have all: "free_pointers i (a # as) w
      = bind_outcome (drop_handles i (data_handles w a) ?w1) (free_pointers i as)"
    using ready inner by simp
  have "reach (emb as (core ?w1))" using r1 by simp
  from drop_handles_runs [OF this, of i "data_handles w a"]
  show ?case
  proof
    assume "\<exists>w'. drop_handles i (data_handles w a) ?w1 = Next w' \<and> reach (emb as (core w'))"
    then obtain w2 where w2: "drop_handles i (data_handles w a) ?w1 = Next w2" "reach (emb as (core w2))" by blast
    have "nshards (core w2) = nshards ?s"
      using free_inner_dying [of i a "w\<lparr>core := ?t\<rparr>" w2] inner w2(1) by (simp add: dying_def)
    then show ?thesis using Cons.IH [OF w2(2)] Cons.prems(2) unfolding all w2(1) by simp
  qed (simp add: all del: free_pointers.simps)
qed simp

lemma drop_handles_tofree: "drop_handles i cs w = Next w' \<Longrightarrow> tofree (core w') = tofree (core w)"
proof (induction cs arbitrary: w)
  case (Cons c cs)
  obtain w1 where w1: "drop_in_collector i c w = Next w1" "drop_handles i cs w1 = Next w'"
    using Cons.prems by (auto simp: bind_outcome_Next)
  have "tofree (core w1) = tofree (core w)"
    using w1(1) by (auto simp: drop_in_collector_def on_sdarc_drop_def sdarc_drop_def deref_def bind_outcome_Next
        put_def take_handle_def split: option.splits if_splits)
  then show ?case using Cons.IH [OF w1(2)] by simp
qed simp

lemma free_inner_tofree:
  assumes "free_inner i a w = Next w'"
  shows "tofree (core w') = tofree (core w)"
proof -
  let ?h = "(core w)\<lparr>heap := (heap (core w))[a := None]\<rparr>"
  obtain x s1 where "obj_at (core w) a = Some x" and s1: "drop_weak_inner_ref (weak_ref x) i ?h = Next s1"
    and w': "drop_handles i (data_handles w a) ((case weak_ref x of None \<Rightarrow> w | Some v \<Rightarrow> on_sdarc_drop v w)
        \<lparr>core := s1, data_handles := (data_handles w)(a := [])\<rparr>) = Next w'"
    by (rule free_inner_Next [OF assms])
  have "tofree s1 = tofree (core w)"
    using s1 by (auto simp: drop_weak_inner_ref_def deref_def put_def split: option.splits)
  then show ?thesis using drop_handles_tofree [OF w'] by simp
qed

lemma free_pointers_frame:
  "free_pointers i as w = Next w' \<Longrightarrow> nshards (core w') = nshards (core w) \<and> at_cpc (core w') = at_cpc (core w)
    \<and> todo (core w') = todo (core w) \<and> tofree (core w') = tofree (core w)"
proof (induction as arbitrary: w)
  case (Cons a as)
  obtain w1 where w1: "free_inner i a (w\<lparr>core := (core w)\<lparr>tracked := (tracked (core w))(a := None)\<rparr>\<rparr>) = Next w1"
    "free_pointers i as w1 = Next w'"
    using Cons.prems by (auto simp: bind_outcome_Next split: if_splits)
  show ?case using Cons.IH [OF w1(2)] free_inner_dying [OF w1(1)] free_inner_tofree [OF w1(1)]
    by (simp add: dying_def)
qed simp

section \<open>New objects\<close>

lemma concat_at: "j < length xs \<Longrightarrow> concat xs = concat (take j xs) @ xs ! j @ concat (drop (Suc j) xs)"
  by (metis concat.simps(2) concat_append id_take_nth_drop)

lemma concat_update:
  "j < length xs \<Longrightarrow> concat (xs[j := y]) = concat (take j xs) @ y @ concat (drop (Suc j) xs)"
  by (simp add: upd_conv_take_nth_drop)

lemma keyed_register:
  fixes T :: ty
  assumes ok: "table_ok offset_of k" and e: "to_free k = []" and c: "counters_owner k c = None"
    and a: "obj_at (core k) a = None" and j: "j < nshards (core k)"
    and s: "nshards s = nshards (core k)" "length (heap s) = length (heap (core k))"
      "\<forall>b. obj_at s b = None \<longleftrightarrow> b \<noteq> a \<and> obj_at (core k) b = None"
  defines "k' \<equiv> k\<lparr>core := s, inner_of := (inner_of k)(a \<mapsto> (T, c)),
    new_counters_to_track := (new_counters_to_track k)
      [j := new_counters_to_track k ! j @ [(fat_ptr_new offset_of T a, c)]]\<rparr>"
  shows "table_ok offset_of k'"
    and "abs_sys k' = with_tables (tracked (abs_sys k))
      ((pending (abs_sys k))[j := pending (abs_sys k) ! j @ [a]]) [] s"
proof -
  have t: "memory_typed k" by (rule table_okD(1) [OF ok])
  have na: "inner_of k a = None" using t a by (simp add: memory_typed_def)
  have nc: "inner_of k b \<noteq> Some (U, c)" for b U using owner_none [OF t c] .
  have inner: "inner_of k' b = (if b = a then Some (T, c) else inner_of k b)" for b by (simp add: k'_def)
  have jl: "j < length (new_counters_to_track k)" using j table_okD(5) [OF ok] by simp
  have keep: "entry_ok offset_of k' g d \<and> d \<noteq> c" if "entry_ok offset_of k g d" for g d
    using that na nc by (auto simp: entry_ok_def inner)
  have new: "entry_ok offset_of k' (fat_ptr_new offset_of T a) c"
    by (simp add: entry_ok_def inner fat_ptr_new_def)
  have tc: "tracked_counters k c = None"
  proof (cases "tracked_counters k c")
    case (Some p)
    then show ?thesis using table_okD(2) [OF ok, of c "fst p" "snd p"] nc by (auto simp: entry_ok_def)
  qed
  have unseen: "(g, c) \<notin> set (new_entries k)" for g using table_okD(3) [OF ok, of g c] keep [of g c] by auto
  have ne: "set (new_entries k') = insert (fat_ptr_new offset_of T a, c) (set (new_entries k))"
    "distinct (map snd (new_entries k'))"
    using unseen table_okD(4) [OF ok] unfolding k'_def new_entries_def
    by (auto simp: concat_update [OF jl] concat_at [OF jl])
  have mt: "memory_typed k'"
    using t s(3) na nc unfolding memory_typed_def inner by (auto simp: k'_def)
  show "table_ok offset_of k'"
    unfolding table_ok_def ne
  proof (intro conjI allI impI)
    show "memory_typed k'" by (rule mt)
    show "entry_ok offset_of k' g d" if "tracked_counters k' d = Some (g, st)" for d g st
      using that keep table_okD(2) [OF ok, of d g st] by (simp add: k'_def)
    show "entry_ok offset_of k' g d" if "(g, d) \<in> insert (fat_ptr_new offset_of T a, c) (set (new_entries k))" for g d
      using that new keep table_okD(3) [OF ok, of g d] by auto
    show "tracked_counters k' d = None"
      if "(g, d) \<in> insert (fat_ptr_new offset_of T a, c) (set (new_entries k))" for g d
      using that tc table_okD(3) [OF ok, of g d] by (auto simp: k'_def)
    show "distinct (map snd (new_entries k'))" by (rule ne(2))
  qed (use table_okD(5) [OF ok] e s(1) in \<open>simp_all add: k'_def\<close>)
  have "abs_tracked k' b = abs_tracked k b" for b
    using tc na by (auto simp: abs_tracked_def inner k'_def split: option.split)
  then have "abs_tracked k' = abs_tracked k" by blast
  then show "abs_sys k' = with_tables (tracked (abs_sys k))
      ((pending (abs_sys k))[j := pending (abs_sys k) ! j @ [a]]) [] s"
    using jl e by (simp add: abs_sys_tables k'_def map_update fat_ptr_new_def)
qed

lemma tracked_counter_new_simp [simp]: "tracked_counter_new f = (f, DefaultState)"
  by (simp add: tracked_counter_new_def)

lemma track_new_entries:
  assumes "memory_typed k" and "\<forall>(f, c)\<in>set es. entry_ok offset_of k f c \<and> tracked_counters k c = None"
    and "distinct (map snd es)"
  shows "\<exists>m. insert_new_counters es (tracked_counters k) = Next m
    \<and> track_all (map (\<lambda>(f, c). erased_ptr f) es) (abs_tracked k) = Some (abs_tracked (k\<lparr>tracked_counters := m\<rparr>))
    \<and> (\<forall>d. d \<notin> snd ` set es \<longrightarrow> m d = tracked_counters k d)
    \<and> (\<forall>(f, c)\<in>set es. m c = Some (f, DefaultState))"
  using assms
proof (induction es arbitrary: k)
  case (Cons e es)
  obtain f c where e: "e = (f, c)" by (cases e)
  then have f: "entry_ok offset_of k f c" "tracked_counters k c = None" using Cons.prems(2) by auto
  obtain T where T: "inner_of k (erased_ptr f) = Some (T, c)" using f(1) by (auto simp: entry_ok_def)
  let ?k = "k\<lparr>tracked_counters := (tracked_counters k)(c \<mapsto> (f, DefaultState))\<rparr>"
  have "\<forall>(g, d)\<in>set es. entry_ok offset_of ?k g d \<and> tracked_counters ?k d = None"
  proof (intro ballI, clarify)
    fix g d
    assume gd: "(g, d) \<in> set es"
    then have "d \<noteq> c" using Cons.prems(3) by (force simp: e)
    then show "entry_ok offset_of ?k g d \<and> tracked_counters ?k d = None" using Cons.prems(2) gd by auto
  qed
  note ih = Cons.IH [OF _ this]
  have kk: "?k\<lparr>tracked_counters := m\<rparr> = k\<lparr>tracked_counters := m\<rparr>" for m by simp
  obtain m where m: "insert_new_counters es (tracked_counters ?k) = Next m"
    "track_all (map (\<lambda>(f, c). erased_ptr f) es) (abs_tracked ?k) = Some (abs_tracked (k\<lparr>tracked_counters := m\<rparr>))"
    "\<forall>d. d \<notin> snd ` set es \<longrightarrow> m d = tracked_counters ?k d" "\<forall>(f, c)\<in>set es. m c = Some (f, DefaultState)"
    using ih Cons.prems(1,3) unfolding kk by (auto simp del: fun_upd_apply)
  have o: "abs_tracked k (erased_ptr f) = None"
    using abs_tracked_owner [OF owner_of [OF Cons.prems(1) T]] f(2) by simp
  have "m c = Some (f, DefaultState)" using m(3) Cons.prems(3) by (simp add: e)
  then show ?case
    using m o f(2) track_entry [OF Cons.prems(1) T, of f DefaultState] by (auto simp: e intro!: exI [of _ m])
qed simp

lemma without_middle:
  assumes "distinct (map snd (as @ es @ bs))"
  shows "distinct (map snd (as @ bs))" and "(g, d) \<in> set (as @ bs) \<Longrightarrow> d \<notin> snd ` set es"
proof -
  show "distinct (map snd (as @ bs))" using assms by auto
  assume "(g, d) \<in> set (as @ bs)"
  then have "d \<in> snd ` set as \<union> snd ` set bs" by force
  then show "d \<notin> snd ` set es" using assms by auto
qed

lemma keyed_take_refines:
  assumes ok: "table_ok offset_of k" and e: "to_free k = []" and c: "at_cpc (core k) = CIdle"
    and j: "j < nshards (core k)"
  shows "\<exists>k'. keyed_take j k = Next k' \<and> table_ok offset_of k' \<and> to_free k' = [] \<and> core k' = core k
    \<and> take_new_counters_to_track j (abs_sys k) = Next (abs_sys k')"
proof -
  let ?es = "new_counters_to_track k ! j"
  have jl: "j < length (new_counters_to_track k)" using j table_okD(5) [OF ok] by simp
  note split = concat_at [OF jl] concat_update [OF jl, of "[]"]
  have es: "\<forall>(f, c)\<in>set ?es. entry_ok offset_of k f c \<and> tracked_counters k c = None" "distinct (map snd ?es)"
    using table_okD(3) [OF ok] table_okD(4) [OF ok] unfolding new_entries_def split by auto
  obtain m where m: "insert_new_counters ?es (tracked_counters k) = Next m"
    "track_all (map (\<lambda>(f, c). erased_ptr f) ?es) (abs_tracked k) = Some (abs_tracked (k\<lparr>tracked_counters := m\<rparr>))"
    and old: "\<forall>d. d \<notin> snd ` set ?es \<longrightarrow> m d = tracked_counters k d"
    and new: "\<forall>(f, c)\<in>set ?es. m c = Some (f, DefaultState)"
    using track_new_entries [OF table_okD(1) [OF ok] es] by blast
  let ?k = "k\<lparr>tracked_counters := m, new_counters_to_track := (new_counters_to_track k)[j := []]\<rparr>"
  have same: "entry_ok offset_of ?k = entry_ok offset_of k" "memory_typed ?k = memory_typed k"
    by (simp_all add: entry_ok_def fun_eq_iff memory_typed_def)
  have ne: "set (new_entries ?k) \<subseteq> set (new_entries k)" "distinct (map snd (new_entries ?k))"
    and apart: "(g, d) \<in> set (new_entries ?k) \<Longrightarrow> d \<notin> snd ` set ?es" for g d
    using without_middle [OF table_okD(4) [OF ok, unfolded new_entries_def split(1)]]
    unfolding new_entries_def by (auto simp: split)
  have "table_ok offset_of ?k"
    unfolding table_ok_def same
  proof (intro conjI allI impI)
    show "memory_typed k" by (rule table_okD(1) [OF ok])
    show "entry_ok offset_of k g d" if "tracked_counters ?k d = Some (g, st)" for d g st
    proof (cases "d \<in> snd ` set ?es")
      case True
      then obtain f where "(f, d) \<in> set ?es" by auto
      then show ?thesis using that new es(1) by fastforce
    qed (use that old table_okD(2) [OF ok, of d g st] in simp)
    show "entry_ok offset_of k g d" if "(g, d) \<in> set (new_entries ?k)" for g d
      using that ne(1) table_okD(3) [OF ok, of g d] by blast
    show "tracked_counters ?k d = None" if "(g, d) \<in> set (new_entries ?k)" for g d
      using that ne(1) table_okD(3) [OF ok, of g d] old apart by auto
    show "distinct (map snd (new_entries ?k))" by (rule ne(2))
  qed (use table_okD(5) [OF ok] e in simp_all)
  moreover have "keyed_take j k = Next ?k" using c j m(1) by (simp add: keyed_take_def)
  moreover have "abs_tracked ?k = abs_tracked (k\<lparr>tracked_counters := m\<rparr>)"
    by (auto simp: abs_tracked_def fun_eq_iff split: option.split)
  then have "take_new_counters_to_track j (abs_sys k) = Next (abs_sys ?k)"
    using c j jl e m(2)
    by (simp add: take_new_counters_to_track_def abs_sys_tables map_update with_tables_def)
  ultimately show ?thesis using e by auto
qed

section \<open>Inner iterations\<close>

lemma same_shape_tables:
  "same_shape s (s'\<lparr>tofree := l\<rparr>) = same_shape s s'" "same_shape s (set_tracked a st s') = same_shape s s'"
  by (simp_all add: same_shape_def set_tracked_def obj_at_def)

lemma update_state_shape: "update_state a st s = Next s' \<Longrightarrow> same_shape s s'"
  by (cases st)
    (auto simp: update_state_def deref_def bind_outcome_Next same_shape_tables same_shape_put clear_weak_shape
      split: option.splits if_splits prod.splits)

lemma visit_shape: "visit_counter a s = Next s' \<Longrightarrow> same_shape s s'"
  by (auto simp: visit_counter_def bind_outcome_Next same_shape_tables update_state_shape
      split: option.splits if_splits)

lemma each_shape: "update_each as acc s = Next (r, s') \<Longrightarrow> same_shape s s'"
proof (induction as arbitrary: acc s)
  case (Cons a as)
  then obtain acc' s1 where s1: "visit_counter a s = Next s1" "update_each as acc' s1 = Next (r, s')"
    by (auto simp: bind_outcome_Next)
  show ?case using visit_shape [OF s1(1)] Cons.IH [OF s1(2)] by (simp add: same_shape_def)
qed simp

text \<open>An inner iteration of the machine, from any reachable state.\<close>

lemma iteration_runs:
  assumes r: "reach (core w)" and c: "at_cpc (core w) = CIdle" and L: "distinct L" and i: "i < nshards (core w)"
  shows "update_counters L i w = Disabled
    \<or> (\<exists>L' w'. update_counters L i w = Next (L', w') \<and> reach (core w') \<and> at_cpc (core w') = CIdle)"
proof (cases "traverse_atomic_reader_signals (core w)")
  case (Next t)
  let ?s = "core w"
  have inv: "gc_inv ?s" using reach_invariants [OF r] by simp
  have ph: "todo ?s = []" "tofree ?s = []" using gc_invD(9) [OF inv] c by simp_all
  have t: "tofree t = []" "at_cpc t = CIdle" "todo t = []" "nshards t = nshards ?s"
    using Next ph c by (auto simp: traverse_atomic_reader_signals_def Let_def split: if_splits)
  obtain s0 where s0: "begin_iteration L ?s = Next s0" using begin_enabled [OF c] L by blast
  have "reach s0" using reach_step [OF r, of "CBegin L"] s0 by simp
  from comes_to_reach [OF run_traverse [OF s0 Next] this] have "reach (at CVisit L t)"
    using t(1) by (cases t) simp
  from run_each [OF this, of "[]" i]
  obtain rk s1 where s1: "update_each L [] t = Next (rk, s1)"
    and to: "comes_to i (at CVisit L t) (Next (at CVisit [] s1))" by blast
  from comes_to_reach [OF to \<open>reach (at CVisit L t)\<close>] have r1: "reach (at CVisit [] s1)" .
  have fr: "nshards s1 = nshards ?s" "at_cpc s1 = CIdle" "todo s1 = []"
    using each_shape [OF s1] t by (simp_all add: same_shape_def)
  have "step CVisitNext (at CVisit [] s1) = Next (at CFreeing [] s1)" by (simp add: visit_next_def)
  then have "reach (at CFreeing [] s1)" by (rule reach_step [OF r1])
  then have re: "reach (emb (tofree s1) (core (w\<lparr>core := s1\<lparr>tofree := []\<rparr>\<rparr>)))" by (simp add: emb_def at_def)
  let ?w1 = "w\<lparr>core := s1\<lparr>tofree := []\<rparr>\<rparr>"
  have all: "update_counters L i w = bind_outcome (free_pointers i (tofree s1) ?w1) (\<lambda>w'.
      let (dropped, w'') = take_to_recheck w' in Next (set_extend dropped rk, w''))"
    using Next s1 by (simp add: update_counters_def)
  have "free_pointers i (tofree s1) ?w1 = Disabled
      \<or> (\<exists>w'. free_pointers i (tofree s1) ?w1 = Next w' \<and> reach (emb [] (core w')))"
    by (rule free_pointers_run [OF re]) (use fr i in simp)
  then show ?thesis
  proof
    assume "\<exists>w'. free_pointers i (tofree s1) ?w1 = Next w' \<and> reach (emb [] (core w'))"
    then obtain w2 where w2: "free_pointers i (tofree s1) ?w1 = Next w2" "reach (emb [] (core w2))" by blast
    have f2: "nshards (core w2) = nshards ?s" "at_cpc (core w2) = CIdle" "todo (core w2) = []" "tofree (core w2) = []"
      using free_pointers_frame [OF w2(1)] fr by simp_all
    have "step (CFree i) (emb [] (core w2)) = Next (emb [] (core w2)\<lparr>at_cpc := CIdle\<rparr>)"
      using i f2(1) by (simp add: free_step_def)
    moreover have "emb [] (core w2)\<lparr>at_cpc := CIdle\<rparr> = core w2"
      using f2 by (cases "core w2") (simp add: emb_def at_def)
    ultimately have "reach (core w2)" using reach_step [OF w2(2)] by metis
    then show ?thesis using w2(1) f2(2) unfolding all by (simp add: take_to_recheck_def)
  qed (simp add: all)
qed (simp_all add: update_counters_def traverse_atomic_reader_signals_def Let_def split: if_splits)

lemma distinct_owners:
  assumes t: "memory_typed k" and "distinct cs"
  shows "distinct (owners k cs)"
  using assms(2)
proof (induction cs)
  case (Cons c cs)
  have "a \<notin> set (owners k cs)" if a: "counters_owner k c = Some a" for a
  proof
    assume "a \<in> set (owners k cs)"
    then obtain d where d: "d \<in> set cs" "counters_owner k d = Some a" by (auto simp: set_owners)
    then have "d = c" using owner_has [OF a] owner_has [OF d(2)] by auto
    then show False using d(1) Cons.prems by simp
  qed
  then show ?case using Cons by (auto split: option.split)
qed simp

lemma table_ok_traverse:
  assumes "table_ok offset_of k" and "traverse_atomic_reader_signals (core k) = Next s"
  shows "table_ok offset_of (k\<lparr>core := s\<rparr>)"
    and "abs_sys (k\<lparr>core := s\<rparr>) = with_tables (abs_tracked k)
      (map (map (\<lambda>(f, c). erased_ptr f)) (new_counters_to_track k)) (map (\<lambda>c. the (counters_owner k c)) (to_free k)) s"
    and "counters_owner (k\<lparr>core := s\<rparr>) = counters_owner k"
proof -
  have sh: "nshards s = nshards (core k)" "length (heap s) = length (heap (core k))"
    "obj_at s a = None \<longleftrightarrow> obj_at (core k) a = None" for a
    using assms(2) by (auto simp: traverse_atomic_reader_signals_def Let_def obj_at_def split: if_splits)
  show "table_ok offset_of (k\<lparr>core := s\<rparr>)"
    using assms(1) by (simp add: table_ok_def memory_typed_def entry_ok_def new_entries_def sh)
  show o: "counters_owner (k\<lparr>core := s\<rparr>) = counters_owner k"
    by (intro ext owner_same) (simp_all add: sh)
  then show "abs_sys (k\<lparr>core := s\<rparr>) = with_tables (abs_tracked k)
      (map (map (\<lambda>(f, c). erased_ptr f)) (new_counters_to_track k)) (map (\<lambda>c. the (counters_owner k c)) (to_free k)) s"
    by (simp add: abs_sys_tables)
qed

lemma abs_world_recheck [simp]: "counters_to_recheck (abs_world k) = counters_to_recheck k"
  by (simp add: abs_world_def)

lemma keyed_iteration_refines:
  assumes ok: "table_ok offset_of k" and e: "to_free k = []" and cs: "distinct cs"
  shows "update_counters (owners k cs) i (abs_world k)
      = bind_outcome (keyed_iteration offset_of cs i k) (\<lambda>(r, k').
          Next (set_extend (counters_to_recheck k') (owner_set k r), abs_world k'\<lparr>counters_to_recheck := []\<rparr>))
    \<and> (\<forall>r k'. keyed_iteration offset_of cs i k = Next (r, k') \<longrightarrow> table_ok offset_of k' \<and> to_free k' = []
        \<and> at_cpc (core k') = at_cpc (core k))"
proof -
  have core_abs: "core (abs_world k) = with_tables (abs_tracked k)
      (map (map (\<lambda>(f, c). erased_ptr f)) (new_counters_to_track k)) [] (core k)"
    by (simp add: abs_world_tables e)
  show ?thesis
  proof (cases "traverse_atomic_reader_signals (core k)")
    case (Next s)
    let ?k = "k\<lparr>core := s\<rparr>"
    note tr = table_ok_traverse [OF ok Next]
    have s: "at_cpc s = at_cpc (core k)"
      using Next by (auto simp: traverse_atomic_reader_signals_def Let_def split: if_splits)
    have "traverse_atomic_reader_signals (core (abs_world k)) = Next (abs_sys ?k)"
      unfolding core_abs with_tables_traverse Next tr(2) using e by simp
    moreover have own: "owners ?k = owners k" "owner_set ?k = owner_set k"
      by (simp_all add: owners_def owner_set_def tr(3) fun_eq_iff)
    moreover have disj: "set cs \<inter> set (to_free ?k) = {}" using e by simp
    note each = keyed_each_refines [OF tr(1) cs disj, of "[]", unfolded own]
    have "owner_set k [] = []" by (simp add: owner_set_def)
    ultimately have up: "update_counters (owners k cs) i (abs_world k)
      = bind_outcome (keyed_update_each cs [] ?k) (\<lambda>(r, k1).
          bind_outcome (free_pointers i (tofree (abs_sys k1)) (abs_world k\<lparr>core := abs_sys k1\<lparr>tofree := []\<rparr>\<rparr>))
            (\<lambda>w'. let (dropped, w'') = take_to_recheck w' in Next (set_extend dropped (owner_set k r), w'')))"
      using each by (cases "keyed_update_each cs [] ?k") (auto simp: update_counters_def split: prod.splits)
    show ?thesis
    proof (cases "keyed_update_each cs [] ?k")
      case (Next p)
      obtain r k1 where p: "keyed_update_each cs [] ?k = Next (r, k1)" using Next by (cases p) auto
      have k1: "table_ok offset_of k1" "visit_frame ?k k1" using each p by blast+
      let ?k1 = "k1\<lparr>to_free := []\<rparr>"
      have ok1: "table_ok offset_of ?k1" "distinct (to_free k1)"
        "\<forall>c\<in>set (to_free k1). \<exists>f. tracked_counters ?k1 c = Some (f, ReadyToFree)"
        using k1(1) table_okD(6,7) [OF k1(1)] by (auto simp: table_ok_def)
      note free = keyed_free_refines [OF ok1(1) _ ok1(2,3), of i, simplified]
      have w: "abs_world k\<lparr>core := abs_sys k1\<lparr>tofree := []\<rparr>\<rparr> = abs_world ?k1"
        using k1(2) by (simp add: abs_world_def visit_frame_def abs_sys_tables world.defs)
      have all: "keyed_iteration offset_of cs i k
          = bind_outcome (keyed_free_pointers offset_of i (to_free k1) ?k1) (\<lambda>k2. Next (r, k2))"
        using \<open>traverse_atomic_reader_signals (core k) = Next s\<close> p by (simp add: keyed_iteration_def)
      have tf: "tofree (abs_sys k1) = map (\<lambda>c. the (counters_owner k1 c)) (to_free k1)"
        by (simp add: abs_sys_tables)
      have "at_cpc (core k1) = at_cpc (core k)" using k1(2) s by (simp add: visit_frame_def same_shape_def)
      then show ?thesis
        unfolding up all p bind_outcome_simps prod.case w tf using free
        by (cases "keyed_free_pointers offset_of i (to_free k1) ?k1") (simp_all add: take_to_recheck_def)
    qed (unfold up, simp_all add: keyed_iteration_def Next)
  qed (simp_all add: update_counters_def keyed_iteration_def core_abs with_tables_traverse)
qed

section \<open>The machine over the table\<close>

lemma same_shape_ops:
  "same_shape s (add_handle a s') = same_shape s s'" "same_shape s (take_handle a s') = same_shape s s'"
  "same_shape s (add_handle_opt p s') = same_shape s s'" "same_shape s (take_handle_opt p s') = same_shape s s'"
  "same_shape s (set_thr t th s') = same_shape s s'" "same_shape s (s'\<lparr>thrs := ths\<rparr>) = same_shape s s'"
  "same_shape s (s'\<lparr>cells := cs\<rparr>) = same_shape s s'"
  by (auto simp: same_shape_def add_handle_def take_handle_def add_handle_opt_def take_handle_opt_def
      set_thr_def obj_at_def split: option.splits)

lemma cas_shape:
  assumes "compare_and_set c m n i s = Next s'"
  shows "same_shape s s'"
proof -
  have "same_shape s s1" if "cas_increment n i (cas_exchange c n s) = Next s1" for s1
  proof -
    have "same_shape (cas_exchange c n s) s1"
      using that same_shape_put by (auto simp: cas_increment_def deref_def split: option.splits)
    moreover have "same_shape s (cas_exchange c n s)" by (simp add: cas_exchange_def same_shape_ops)
    ultimately show ?thesis by (simp add: same_shape_def)
  qed
  then show ?thesis
    using assms by (auto simp: compare_and_set_def same_shape_ops split: if_splits outcome.splits)
qed

lemma thread_shape:
  assumes "\<not> is_collector l" and "\<not> allocates l" and "step l s = Next s'"
  shows "same_shape s s'"
proof (cases l)
  case (LCompareAndSet c m n i)
  then show ?thesis using assms(3) cas_shape by simp
qed (use assms in \<open>simp_all only: step.simps is_collector.simps allocates.simps simp_thms\<close>,
    auto simp: thr_step_def deref_def read_ptr_def sdarc_clone_def sdarc_drop_def sdarc_deref_def
      downgrade_clone_def ptr_swap_def reader_defs Let_def same_shape_ops same_shape_put
      split: option.splits cellref.splits pc.splits if_splits)

lemma with_tables_new:
  "sdarc_new a i j (with_tables tr pe tf s)
    = bind_outcome (sdarc_new a i j s) (\<lambda>s'. Next (with_tables tr (pe[j := pe ! j @ [a]]) tf s'))"
  "downgrade_init a w i j (with_tables tr pe tf s)
    = bind_outcome (downgrade_init a w i j s) (\<lambda>s'. Next (with_tables tr (pe[j := pe ! j @ [w]]) tf s'))"
  by (simp_all add: sdarc_new_def downgrade_init_def deref_def on_new_sdarc_allocated_def split: option.split)
    (simp_all add: with_tables_def add_handle_def put_def)

lemma new_shape:
  "sdarc_new a i j s = Next s' \<Longrightarrow> j < nshards s \<and> obj_at s a = None \<and> nshards s' = nshards s
    \<and> length (heap s') = length (heap s) \<and> at_cpc s' = at_cpc s
    \<and> (\<forall>b. obj_at s' b = None \<longleftrightarrow> b \<noteq> a \<and> obj_at s b = None)"
  by (auto simp: sdarc_new_def obj_at_def add_handle_def put_def on_new_sdarc_allocated_def nth_list_update
      split: if_splits)

lemma downgrade_shape:
  assumes "downgrade_init a w i j s = Next s'"
  shows "j < nshards s \<and> obj_at s w = None \<and> obj_at s a \<noteq> None \<and> nshards s' = nshards s
    \<and> length (heap s') = length (heap s) \<and> at_cpc s' = at_cpc s
    \<and> (\<forall>b. obj_at s' b = None \<longleftrightarrow> b \<noteq> w \<and> obj_at s b = None)"
  using assms
  by (auto simp: downgrade_init_def deref_def obj_at_def put_def on_new_sdarc_allocated_def nth_list_update
      split: if_splits option.splits)

definition keyed_ok :: "(ty \<Rightarrow> nat) \<Rightarrow> keyed_world \<Rightarrow> bool" where
  "keyed_ok offset_of k \<longleftrightarrow> table_ok offset_of k \<and> to_free k = [] \<and> at_cpc (core k) = CIdle \<and> reach (abs_sys k)"

definition step_ok :: "(ty \<Rightarrow> nat) \<Rightarrow> keyed_label \<Rightarrow> keyed_world outcome \<Rightarrow> bool" where
  "step_ok offset_of l r \<longleftrightarrow> r \<noteq> Fault \<and> (r = Panic \<longrightarrow> (\<exists>t. l = KThread (LRelease t)))
     \<and> (\<forall>k'. r = Next k' \<longrightarrow> keyed_ok offset_of k')"

lemma step_ok_simps [simp]:
  "step_ok offset_of l Disabled" "step_ok offset_of l (Next k') = keyed_ok offset_of k'"
  by (simp_all add: step_ok_def)

lemma abs_step_safe:
  assumes "keyed_ok offset_of k" and "\<not> release_with_guard l (abs_sys k)"
  shows "step l (abs_sys k) \<noteq> Fault" and "step l (abs_sys k) \<noteq> Panic"
proof -
  have "res_inv (abs_sys k)" "gc_inv (abs_sys k)"
    using reach_invariants [of "abs_sys k"] assms(1) by (simp_all add: keyed_ok_def)
  then show "step l (abs_sys k) \<noteq> Fault" "step l (abs_sys k) \<noteq> Panic"
    using step_safe [of "abs_sys k" l] assms(2) by auto
qed

lemma step_new_ok:
  assumes ok: "keyed_ok offset_of k" and c: "counters_owner k c = None"
  shows "step_ok offset_of l (keyed_new offset_of T a c i j k)"
proof -
  have e: "table_ok offset_of k" "to_free k = []" "at_cpc (core k) = CIdle" "reach (abs_sys k)"
    using ok by (simp_all add: keyed_ok_def)
  have abs: "step (LNew a i j) (abs_sys k) = bind_outcome (sdarc_new a i j (core k)) (\<lambda>s'.
      Next (with_tables (tracked (abs_sys k)) ((pending (abs_sys k))[j := pending (abs_sys k) ! j @ [a]]) [] s'))"
    by (simp add: abs_sys_tables with_tables_new e(2))
  show ?thesis
  proof (cases "sdarc_new a i j (core k)")
    case (Next s)
    note sh = new_shape [OF Next]
    note reg = keyed_register [OF e(1,2) c, where a = a and j = j and s = s and T = T]
    have "step (LNew a i j) (abs_sys k) = Next (abs_sys (after (keyed_new offset_of T a c i j k)))"
      unfolding abs Next using sh reg(2) by (simp add: keyed_new_def Next)
    then have "reach (abs_sys (after (keyed_new offset_of T a c i j k)))" by (rule reach_step [OF e(4)])
    then show ?thesis
      using sh reg(1) e by (simp add: keyed_new_def Next keyed_ok_def)
  qed (use abs_step_safe [OF ok, of "LNew a i j"] abs in \<open>simp_all add: keyed_new_def release_with_guard_def\<close>)
qed

lemma step_downgrade_ok:
  assumes ok: "keyed_ok offset_of k" and c: "counters_owner k c = None"
  shows "step_ok offset_of l (keyed_downgrade_init offset_of a w c i j k)"
proof -
  have e: "table_ok offset_of k" "to_free k = []" "at_cpc (core k) = CIdle" "reach (abs_sys k)"
    using ok by (simp_all add: keyed_ok_def)
  have abs: "step (LDowngradeInit a w i j) (abs_sys k) = bind_outcome (downgrade_init a w i j (core k)) (\<lambda>s'.
      Next (with_tables (tracked (abs_sys k)) ((pending (abs_sys k))[j := pending (abs_sys k) ! j @ [w]]) [] s'))"
    by (simp add: abs_sys_tables with_tables_new e(2))
  show ?thesis
  proof (cases "downgrade_init a w i j (core k)")
    case (Next s)
    note sh = downgrade_shape [OF Next]
    obtain T c' where T: "inner_of k a = Some (T, c')"
      using table_okD(1) [OF e(1)] sh by (cases "inner_of k a") (auto simp: memory_typed_def)
    note reg = keyed_register [OF e(1,2) c, where a = w and j = j and s = s and T = "WeakInner T"]
    have "step (LDowngradeInit a w i j) (abs_sys k)
        = Next (abs_sys (after (keyed_downgrade_init offset_of a w c i j k)))"
      unfolding abs Next using sh reg(2) by (simp add: keyed_downgrade_init_def Next T)
    then have "reach (abs_sys (after (keyed_downgrade_init offset_of a w c i j k)))" by (rule reach_step [OF e(4)])
    then show ?thesis
      using sh reg(1) e by (simp add: keyed_downgrade_init_def Next keyed_ok_def T)
  qed (use abs_step_safe [OF ok, of "LDowngradeInit a w i j"] abs
      in \<open>simp_all add: keyed_downgrade_init_def release_with_guard_def\<close>)
qed

lemma step_thread_ok:
  assumes ok: "keyed_ok offset_of k" and l: "\<not> is_collector l" "\<not> allocates l"
  shows "step_ok offset_of (KThread l) (bind_outcome (step l (core k)) (\<lambda>s. Next (k\<lparr>core := s\<rparr>)))"
proof -
  have e: "table_ok offset_of k" "to_free k = []" "at_cpc (core k) = CIdle" "reach (abs_sys k)"
    using ok by (simp_all add: keyed_ok_def)
  have abs: "step l (abs_sys k) = bind_outcome (step l (core k)) (\<lambda>s'. Next (with_tables (abs_tracked k)
      (map (map (\<lambda>(f, c). erased_ptr f)) (new_counters_to_track k)) (map (\<lambda>c. the (counters_owner k c)) (to_free k)) s'))"
    unfolding abs_sys_tables by (rule with_tables_thread [OF l])
  have "(step l (core k) = Panic \<longrightarrow> (\<exists>t. l = LRelease t)) \<and> step l (core k) \<noteq> Fault"
  proof -
    have "safe_outcome (step l (abs_sys k)) \<or> step l (abs_sys k) = Panic \<and> release_with_guard l (abs_sys k)"
      using step_safe reach_invariants [OF e(4)] by blast
    then show ?thesis
      unfolding abs by (cases "step l (core k)") (auto simp: release_with_guard_def)
  qed
  moreover have "keyed_ok offset_of (k\<lparr>core := s\<rparr>)" if s: "step l (core k) = Next s" for s
  proof -
    note sh = thread_shape [OF l s]
    have "step l (abs_sys k) = Next (abs_sys (k\<lparr>core := s\<rparr>))" by (simp add: abs s abs_sys_core [OF sh])
    then have "reach (abs_sys (k\<lparr>core := s\<rparr>))" by (rule reach_step [OF e(4)])
    then show ?thesis
      using table_ok_core [OF e(1) sh] e sh by (simp add: keyed_ok_def same_shape_def)
  qed
  ultimately show ?thesis by (cases "step l (core k)") (auto simp: step_ok_def)
qed

lemma step_iterate_ok:
  assumes ok: "keyed_ok offset_of k" and cs: "distinct cs" and i: "i < nshards (core k)"
  shows "step_ok offset_of l (bind_outcome (keyed_iteration offset_of cs i k) (\<lambda>(r, k'). Next k'))"
proof -
  have e: "table_ok offset_of k" "to_free k = []" "at_cpc (core k) = CIdle" "reach (abs_sys k)"
    using ok by (simp_all add: keyed_ok_def)
  note ref = keyed_iteration_refines [OF e(1,2) cs, of i]
  have "reach (core (abs_world k))" "at_cpc (core (abs_world k)) = CIdle" "i < nshards (core (abs_world k))"
    using e i by (simp_all add: abs_world_def abs_sys_tables)
  then have run: "update_counters (owners k cs) i (abs_world k) = Disabled
      \<or> (\<exists>L' w'. update_counters (owners k cs) i (abs_world k) = Next (L', w') \<and> reach (core w') \<and> at_cpc (core w') = CIdle)"
    using iteration_runs distinct_owners [OF table_okD(1) [OF e(1)] cs] by blast
  show ?thesis
  proof (cases "keyed_iteration offset_of cs i k")
    case (Next p)
    obtain r k' where p: "keyed_iteration offset_of cs i k = Next (r, k')" using Next by (cases p) auto
    have "reach (abs_sys k')" using run ref p by (auto simp: abs_world_def)
    then show ?thesis using ref p e by (simp add: keyed_ok_def)
  qed (use run ref in \<open>auto simp: step_ok_def\<close>)
qed

lemma keyed_step_ok: "keyed_ok offset_of k \<Longrightarrow> step_ok offset_of l (keyed_step offset_of l k)"
proof (cases l)
  case (KTake j)
  assume ok: "keyed_ok offset_of k"
  then have e: "table_ok offset_of k" "to_free k = []" "at_cpc (core k) = CIdle" "reach (abs_sys k)"
    by (simp_all add: keyed_ok_def)
  show ?thesis
  proof (cases "j < nshards (core k)")
    case True
    obtain k' where k': "keyed_take j k = Next k'" "table_ok offset_of k'" "to_free k' = []" "core k' = core k"
      "take_new_counters_to_track j (abs_sys k) = Next (abs_sys k')"
      using keyed_take_refines [OF e(1-3) True] by blast
    have "reach (abs_sys k')" using reach_step [OF e(4), of "CTake j"] k'(5) by simp
    then show ?thesis using KTake k' e by (simp add: keyed_ok_def)
  qed (simp add: KTake keyed_take_def)
next
  case (KData a cs)
  assume ok: "keyed_ok offset_of k"
  have "table_ok offset_of (k\<lparr>data_handles := d\<rparr>) = table_ok offset_of k"
    "abs_sys (k\<lparr>data_handles := d\<rparr>) = abs_sys k" for d
    by (auto simp: table_ok_def memory_typed_def entry_ok_def new_entries_def abs_sys_def abs_tracked_def
        counters_owner_def fun_eq_iff split: option.split)
  then show ?thesis using KData ok by (simp add: keyed_ok_def)
qed (simp_all add: new_counters_free_def step_new_ok step_downgrade_ok step_thread_ok step_iterate_ok)

lemma keyed_start_ok: "n > 0 \<Longrightarrow> keyed_ok offset_of (keyed_start n addrs cs)"
proof -
  assume n: "n > 0"
  have "abs_tracked (keyed_start n addrs cs) = (\<lambda>_. None)"
    by (intro ext) (simp add: abs_tracked_def keyed_start_def)
  then have "abs_sys (keyed_start n addrs cs) = start n addrs cs"
    by (simp add: abs_sys_def) (simp add: keyed_start_def start_def)
  then have "reach (abs_sys (keyed_start n addrs cs))" using reach_start [OF n] by simp
  moreover have "table_ok offset_of (keyed_start n addrs cs)"
    by (auto simp: table_ok_def memory_typed_def new_entries_def keyed_start_def start_def obj_at_def)
  ultimately show ?thesis by (simp add: keyed_ok_def) (simp add: keyed_start_def start_def)
qed

lemma keyed_reach_ok: "keyed_reach offset_of k \<Longrightarrow> keyed_ok offset_of k"
  by (induction rule: keyed_reach.induct) (use keyed_start_ok keyed_step_ok in \<open>fastforce simp: step_ok_def\<close>)+

section \<open>The theorems\<close>


text \<open>Two objects of different types, their counters in the other order, dropped and collected.\<close>

definition field_offset :: "ty \<Rightarrow> nat" where
  "field_offset T = (case T of User n \<Rightarrow> 8 * n | WeakInner U \<Rightarrow> 24)"

definition typed_trace :: "keyed_label list" where
  "typed_trace = [KNew (User 1) 0 7 0 0, KDowngradeInit 0 1 3 0 0, KThread (LDrop 0 1), KTake 0,
     KIterate [3, 7] 0, KIterate [3, 7] 0]"

definition typed_world :: keyed_world where
  "typed_world = after (keyed_run field_offset typed_trace (keyed_start 2 2 1))"

lemma typed_world_reach: "keyed_reach field_offset typed_world"
proof -
  have "is_next (keyed_run field_offset typed_trace (keyed_start 2 2 1))" by code_simp
  then have "keyed_run field_offset typed_trace (keyed_start 2 2 1) = Next typed_world"
    by (simp add: typed_world_def)
  then show ?thesis by (rule keyed.execution_reaches [OF keyed_reach_start, rotated]) simp
qed


text \<open>
  C40: what the collector's table holds is well typed. In every reachable state an entry under the
  pointer to some counters has the address of a live object with exactly these counters, and the
  vtable compiled for that object's type; no two live objects share counters.
\<close>

theorem table_well_typed:
  assumes "keyed_reach offset_of k" and "tracked_counters k c = Some (f, st)"
  shows "\<exists>T. inner_of k (erased_ptr f) = Some (T, c) \<and> vtable_ref f = get_sdarc_vtable_ref offset_of T
    \<and> obj_at (core k) (erased_ptr f) \<noteq> None \<and> counters_owner k c = Some (erased_ptr f)"
proof -
  have ok: "table_ok offset_of k" using keyed_reach_ok [OF assms(1)] by (simp add: keyed_ok_def)
  note t = table_okD(1) [OF ok]
  obtain T where T: "inner_of k (erased_ptr f) = Some (T, c)" "vtable_ref f = get_sdarc_vtable_ref offset_of T"
    using table_okD(2) [OF ok assms(2)] by (auto simp: entry_ok_def)
  then show ?thesis using typed_alive [OF t T(1)] owner_of [OF t T(1)] by auto
qed

theorem table_well_typed_witness:
  "\<exists>f st. tracked_counters typed_world 3 = Some (f, st)
    \<and> (\<exists>T. inner_of typed_world (erased_ptr f) = Some (T, 3) \<and> vtable_ref f = get_sdarc_vtable_ref field_offset T)"
proof -
  have "tracked_counters typed_world 3 \<noteq> None" by code_simp
  then obtain f st where f: "tracked_counters typed_world 3 = Some (f, st)" by auto
  from table_well_typed [OF typed_world_reach f] f show ?thesis by blast
qed

text \<open>
  C12: the collector's functions over the table compute its functions over objects. In every
  reachable state an inner iteration over any list of keys gives what \<open>update_counters\<close> gives over
  the objects that have these counters: the same outcome, the same objects freed and states of
  the rest, and the same objects to re-check.
\<close>

theorem keyed_iteration_is_update_counters:
  assumes "keyed_reach offset_of k" and "distinct cs"
  shows "update_counters (owners k cs) i (abs_world k)
      = bind_outcome (keyed_iteration offset_of cs i k) (\<lambda>(r, k').
          Next (set_extend (counters_to_recheck k') (owner_set k r), abs_world k'\<lparr>counters_to_recheck := []\<rparr>))"
  using keyed_iteration_refines [OF _ _ assms(2), of offset_of k i] keyed_reach_ok [OF assms(1)]
  by (simp add: keyed_ok_def)

theorem keyed_iteration_is_update_counters_witness:
  "owners typed_world [3, 7] = [1, 0] \<and> update_counters [1, 0] 0 (abs_world typed_world)
      = bind_outcome (keyed_iteration field_offset [3, 7] 0 typed_world) (\<lambda>(r, k').
          Next (set_extend (counters_to_recheck k') (owner_set typed_world r), abs_world k'\<lparr>counters_to_recheck := []\<rparr>))"
proof -
  have "owners typed_world [3, 7] = [1, 0]" by code_simp
  then show ?thesis
    using keyed_iteration_is_update_counters [OF typed_world_reach, of "[3, 7]" 0] by simp
qed

end
