(* ===== verification/ValueTraits.thy ===== *)
theory ValueTraits
  imports Safety
begin

text \<open>
  The traits of \<open>Sdarc\<close> that delegate to the pointee (\<open>src/src/sdarc.rs\<close>): equality, the two
  comparisons, hashing, the default and the ways to a reference. The pointee's own operations are
  arguments. What they need of the machine is that a handle's object is alive, so they never
  touch freed memory, and they meet the contract of \<open>Borrow\<close>: a handle compares and hashes as the
  value it lends.
\<close>

section \<open>The delegating operations\<close>

text \<open>\<open>deref\<close>, \<open>borrow\<close> and \<open>as_ref\<close>; \<open>content a\<close> is the data of the object at \<open>a\<close>.\<close>

definition deref_value :: "(addr \<Rightarrow> 'v) \<Rightarrow> addr \<Rightarrow> sys \<Rightarrow> 'v outcome" where
  "deref_value content a s =
     (if handles s a > 0
      then case obj_at s a of None \<Rightarrow> Fault | Some x \<Rightarrow> Next (content a)
      else Disabled)"

definition with_both :: "('v \<Rightarrow> 'v \<Rightarrow> 'r) \<Rightarrow> (addr \<Rightarrow> 'v) \<Rightarrow> addr \<Rightarrow> addr \<Rightarrow> sys \<Rightarrow> 'r outcome" where
  "with_both f content a b s =
     bind_outcome (deref_value content a s) (\<lambda>x. bind_outcome (deref_value content b s) (\<lambda>y. Next (f x y)))"

datatype ordering = Less | Equal | Greater

definition sdarc_eq :: "('v \<Rightarrow> 'v \<Rightarrow> bool) \<Rightarrow> (addr \<Rightarrow> 'v) \<Rightarrow> addr \<Rightarrow> addr \<Rightarrow> sys \<Rightarrow> bool outcome" where
  "sdarc_eq = with_both"

definition sdarc_partial_cmp ::
  "('v \<Rightarrow> 'v \<Rightarrow> ordering option) \<Rightarrow> (addr \<Rightarrow> 'v) \<Rightarrow> addr \<Rightarrow> addr \<Rightarrow> sys \<Rightarrow> ordering option outcome" where
  "sdarc_partial_cmp = with_both"

definition sdarc_cmp ::
  "('v \<Rightarrow> 'v \<Rightarrow> ordering) \<Rightarrow> (addr \<Rightarrow> 'v) \<Rightarrow> addr \<Rightarrow> addr \<Rightarrow> sys \<Rightarrow> ordering outcome" where
  "sdarc_cmp = with_both"

text \<open>Hashing feeds the value to a hasher, whose state is the result.\<close>

definition sdarc_hash :: "('v \<Rightarrow> 'h \<Rightarrow> 'h) \<Rightarrow> (addr \<Rightarrow> 'v) \<Rightarrow> addr \<Rightarrow> 'h \<Rightarrow> sys \<Rightarrow> 'h outcome" where
  "sdarc_hash hash content a state s =
     bind_outcome (deref_value content a s) (\<lambda>x. Next (hash x state))"

definition sdarc_default ::
  "'v \<Rightarrow> (addr \<Rightarrow> 'v) \<Rightarrow> addr \<Rightarrow> nat \<Rightarrow> nat \<Rightarrow> sys \<Rightarrow> ((addr \<Rightarrow> 'v) \<times> sys) outcome" where
  "sdarc_default d content a i j s = bind_outcome (sdarc_new a i j s) (\<lambda>s'. Next (content(a := d), s'))"

section \<open>What they promise\<close>

lemma deref_value_alive: "reach s \<Longrightarrow> handles s a > 0 \<Longrightarrow> deref_value content a s = Next (content a)"
  using reach_alive [of s a] by (auto simp: deref_value_def)

lemma with_both_alive:
  "reach s \<Longrightarrow> handles s a > 0 \<Longrightarrow> handles s b > 0
    \<Longrightarrow> with_both f content a b s = Next (f (content a) (content b))"
  by (simp add: with_both_def deref_value_alive)

text \<open>The contract of \<open>Borrow\<close>: what a handle answers is what the value it lends answers.\<close>

lemma borrow_contract:
  assumes "reach s" and "handles s a > 0" and "handles s b > 0"
  shows "sdarc_eq eq content a b s = Next (eq (content a) (content b))"
    and "sdarc_cmp cmp content a b s = Next (cmp (content a) (content b))"
    and "sdarc_partial_cmp pcmp content a b s = Next (pcmp (content a) (content b))"
    and "sdarc_hash hash content a h s = Next (hash (content a) h)"
  using assms
  by (simp_all add: sdarc_eq_def sdarc_cmp_def sdarc_partial_cmp_def sdarc_hash_def with_both_alive deref_value_alive)

text \<open>
  Equal handles hash equally, and a handle equals itself, when the content do; a default is a fresh
  live object with the default value and one strong handle.
\<close>

lemma equal_handles_hash_equally:
  assumes "reach s" and "handles s a > 0" and "handles s b > 0"
    and "\<And>x y h. eq x y \<Longrightarrow> hash x h = hash y h" and "sdarc_eq eq content a b s = Next True"
  shows "sdarc_hash hash content a h s = sdarc_hash hash content b h s"
proof -
  have "eq (content a) (content b)" using assms(5) borrow_contract(1) [OF assms(1-3), of eq content] by simp
  then have "hash (content a) h = hash (content b) h" by (rule assms(4))
  then show ?thesis
    using borrow_contract(4) [OF assms(1-3), of hash content h] borrow_contract(4) [OF assms(1,3,2), of hash content h]
    by simp
qed

lemma default_handle:
  assumes "reach s" and "sdarc_default d content a i j s = Next (content', s')"
  shows "reach s'" and "handles s' a > 0" and "deref_value content' a s' = Next d"
proof -
  have n: "sdarc_new a i j s = Next s'" "content' = content(a := d)"
    using assms(2) by (auto simp: sdarc_default_def bind_outcome_Next)
  then show r: "reach s'" using reach_step [OF assms(1), of "LNew a i j"] by simp
  show h: "handles s' a > 0" using n(1) by (auto simp: sdarc_new_def add_handle_def split: if_splits)
  show "deref_value content' a s' = Next d" using deref_value_alive [OF r h, of content'] n(2) by simp
qed

end
