(* ===== verification/SplitCas.thy ===== *)
theory SplitCas
  imports Safety
begin

text \<open>
  \<open>raw_compare_and_set\<close> of \<open>src/src/atomic_sdarc.rs\<close> in its two accesses: the exchange, which
  publishes \<open>then_set\<close> without a count of its own, and the increment after it, with any steps of
  others in between. \<open>Safety\<close> shows that this can free an object its caller owns. Here: that is the
  only way it goes wrong. As long as at each increment some strong handle or atomic pointer
  still refers to the object, the two accesses are as safe as one.
\<close>

section \<open>The machine with exchanges in flight\<close>

text \<open>
  A call between its two accesses: what it compared with and what it set. The handle \<open>then_set\<close>
  that the call borrows is in no other hands until the increment.
\<close>

record split_sys =
  base :: sys
  in_flight :: "(addr option \<times> addr option) list"

datatype split_label =
    SOther label
  | SExchange nat "addr option" "addr option"
  | SIncrement nat nat

fun is_compare_and_set :: "label \<Rightarrow> bool" where
  "is_compare_and_set (LCompareAndSet c m n i) = True"
| "is_compare_and_set l = False"

text \<open>The pointer's reference to the old value becomes a handle, the borrowed handle the pointer's reference.\<close>

definition split_exchange :: "nat \<Rightarrow> addr option \<Rightarrow> addr option \<Rightarrow> split_sys \<Rightarrow> split_sys outcome" where
  "split_exchange c if_matches then_set w =
     (let s = base w in
      if c < length (cells s) \<and> has_handle s if_matches \<and> has_handle s then_set
      then if cells s ! c = if_matches
           then Next (w\<lparr>base := add_handle_opt if_matches (take_handle_opt then_set (cas_exchange c then_set s)),
                  in_flight := in_flight w @ [(if_matches, then_set)]\<rparr>)
           else Next w
      else Disabled)"

text \<open>The increment counts the pointer's reference; the caller has its handle back.\<close>

definition split_increment :: "nat \<Rightarrow> nat \<Rightarrow> split_sys \<Rightarrow> split_sys outcome" where
  "split_increment n i w =
     (if n < length (in_flight w) \<and> i < nshards (base w)
      then let then_set = snd (in_flight w ! n) in
           bind_outcome (cas_increment then_set i (base w)) (\<lambda>s.
             Next (w\<lparr>base := add_handle_opt then_set s,
                    in_flight := take n (in_flight w) @ drop (Suc n) (in_flight w)\<rparr>))
      else Disabled)"

fun split_step :: "split_label \<Rightarrow> split_sys \<Rightarrow> split_sys outcome" where
  "split_step (SOther l) w =
     (if is_compare_and_set l then Disabled
      else bind_outcome (step l (base w)) (\<lambda>s. Next (w\<lparr>base := s\<rparr>)))"
| "split_step (SExchange c m p) w = split_exchange c m p w"
| "split_step (SIncrement n i) w = split_increment n i w"

section \<open>The condition\<close>

definition still_held :: "sys \<Rightarrow> addr \<Rightarrow> bool" where
  "still_held s a \<longleftrightarrow> handles s a > 0 \<or> Some a \<in> set (cells s)"

text \<open>The steps other than an increment for an object no handle and no pointer refers to.\<close>

fun in_time :: "split_label \<Rightarrow> split_sys \<Rightarrow> bool" where
  "in_time (SIncrement n i) w =
     (n < length (in_flight w) \<longrightarrow>
       (case snd (in_flight w ! n) of None \<Rightarrow> True | Some a \<Rightarrow> still_held (base w) a))"
| "in_time l w = True"

inductive split_reach :: "split_sys \<Rightarrow> bool" where
  split_reach_start: "n > 0 \<Longrightarrow> split_reach \<lparr>base = start n addrs cs, in_flight = []\<rparr>"
| split_reach_step:
    "split_reach w \<Longrightarrow> in_time l w \<Longrightarrow> split_step l w = Next w' \<Longrightarrow> split_reach w'"

fun split_run :: "split_label list \<Rightarrow> split_sys \<Rightarrow> split_sys outcome" where
  "split_run [] w = Next w"
| "split_run (l # ls) w =
     bind_outcome (if in_time l w then split_step l w else Disabled) (split_run ls)"

interpretation split_cas:
  step_system "\<lambda>l w. if in_time l w then split_step l w else Disabled" split_reach split_run
  by unfold_locales (auto intro: split_reach_step split: if_splits)

section \<open>Each step is one of the machine, or three\<close>

text \<open>
  An increment for an object that a handle refers to is a clone of that handle; for one that a
  pointer refers to, the pointer can be swapped out, cloned and swapped in again.
\<close>

lemma increment_reaches:
  assumes r: "reach s" and h: "still_held s a" and i: "i < nshards s"
  shows "\<exists>x. obj_at s a = Some x \<and> reach (add_handle a (put a (on_shard i a_increment x) s))"
proof -
  obtain x where x: "obj_at s a = Some x"
    using reach_alive [OF r, of a] h by (auto simp: still_held_def)
  let ?t = "add_handle a (put a (on_shard i a_increment x) s)"
  show ?thesis
  proof (cases "handles s a > 0")
    case True
    then have "step (LClone a i) s = Next ?t" using x i by (simp add: sdarc_clone_def deref_def)
    then show ?thesis using reach_step [OF r] x by blast
  next
    case False
    then obtain c where c: "c < length (cells s)" "cells s ! c = Some a"
      using h by (auto simp: still_held_def in_set_conv_nth)
    have same: "(cells s)[c := Some a] = cells s" using list_update_id [of "cells s" c] c(2) by simp
    have "run [LSwap c None, LClone a i, LSwap c (Some a)] s = Next ?t"
      using c x i
      by (simp add: ptr_swap_def has_handle_def sdarc_clone_def deref_def add_handle_opt_def take_handle_opt_def)
        (cases s, use same in \<open>simp add: add_handle_def take_handle_def put_def obj_at_def\<close>)
    then show ?thesis using run_reach r x by blast
  qed
qed

lemma split_step_reaches:
  assumes r: "reach (base w)" and t: "in_time l w" and st: "split_step l w = Next w'"
  shows "reach (base w')"
proof (cases l)
  case (SOther m)
  then show ?thesis using st reach_step [OF r] by (auto simp: bind_outcome_Next split: if_splits)
next
  case (SExchange c m p)
  show ?thesis
  proof (cases "cells (base w) ! c = m")
    case True
    then have "step (LSwap c p) (base w) = Next (base w')"
      using st SExchange by (auto simp: split_exchange_def ptr_swap_def cas_exchange_def Let_def split: if_splits)
    then show ?thesis by (rule reach_step [OF r])
  qed (use st SExchange r in \<open>auto simp: split_exchange_def Let_def split: if_splits\<close>)
next
  case (SIncrement n i)
  show ?thesis
  proof (cases "snd (in_flight w ! n)")
    case (Some a)
    have n: "n < length (in_flight w)" "i < nshards (base w)"
      using st SIncrement by (auto simp: split_increment_def split: if_splits)
    then have "still_held (base w) a" using t SIncrement Some by simp
    then obtain x where "obj_at (base w) a = Some x" "reach (add_handle a (put a (on_shard i a_increment x) (base w)))"
      using increment_reaches [OF r _ n(2)] by blast
    then show ?thesis
      using st SIncrement Some n
      by (auto simp: split_increment_def cas_increment_def deref_def add_handle_opt_def Let_def)
  qed (use st SIncrement r in
      \<open>auto simp: split_increment_def cas_increment_def add_handle_opt_def Let_def split: if_splits\<close>)
qed

lemma split_reach_base: "split_reach w \<Longrightarrow> reach (base w)"
  by (induction rule: split_reach.induct) (auto intro: reach_start split_step_reaches)


text \<open>
  A call in flight while another thread clones out of the pointer and empties it; the increment
  comes in time and the object lives on.
\<close>

definition split_trace :: "split_label list" where
  "split_trace = [SOther (LNew 0 0 0), SExchange 0 None (Some 0), SOther (LSwap 0 None), SIncrement 0 1,
     SOther (LDrop 0 0)]"


end
